(* ===== verification/Prelude.thy ===== *)
theory Prelude
  imports "HOL-Library.Word"
begin

text \<open>
  What every component of the development shares: the fixed-width types of the code, the
  way a run of a function of the code ends, and the collections of simplification rules the
  component theories fill.

  A function of the code that can stop the machine has the result type \<open>res\<close>: \<open>Inl\<close> of the
  reason when \<open>assert\<close> or \<open>panic_msg\<close> halts the machine (both are \<open>[[noreturn]]\<close>), \<open>Inr\<close> of
  the value otherwise.  A function that may also never return has the type \<open>run\<close>: \<open>None\<close> is a
  loop that never ends.
\<close>

unbundle bit_operations_syntax

type_synonym u8 = "8 word"
type_synonym u16 = "16 word"
type_synonym u32 = "32 word"
type_synonym u64 = "64 word"

named_theorems mem_simps "reading the byte memory after a write"
named_theorems word_simps "the word arithmetic the components share"

section \<open>How a run ends\<close>

text \<open>
  \<open>AssertFail\<close> is \<open>debug::assertFail\<close> (kernel/sys/debug.hpp, line 10) with the stringified
  condition, \<open>Panic\<close> is \<open>panic_msg\<close> (kernel/sys/panic.hpp, line 4) with its message, and
  \<open>PageFault\<close> a page fault of the loader, which has no interrupt table to handle it.
\<close>

datatype kerror = AssertFail string | Panic string | PageFault

type_synonym 'a res = "kerror + 'a"
type_synonym 'a run = "'a res option"

text \<open>Sequencing: a halt and a loop that never ends both swallow what follows.\<close>

definition bindR :: "'a run \<Rightarrow> ('a \<Rightarrow> 'b run) \<Rightarrow> 'b run" where
  "bindR r f = Option.bind r (\<lambda>x. case x of Inl e \<Rightarrow> Some (Inl e) | Inr v \<Rightarrow> f v)"

abbreviation ret :: "'a \<Rightarrow> 'a run" where
  "ret v \<equiv> Some (Inr v)"

abbreviation halt :: "kerror \<Rightarrow> 'a run" where
  "halt e \<equiv> Some (Inl e)"

lemma bindR_simps [simp]:
  "bindR None f = None"
  "bindR (ret v) f = f v"
  "bindR (halt e) f = halt e"
  by (simp_all add: bindR_def)

lemma bindR_assoc: "bindR (bindR r f) g = bindR r (\<lambda>v. bindR (f v) g)"
  by (cases r) (auto simp: bindR_def split: sum.splits)

lemma bindR_eq_ret:
  "bindR r f = ret y \<longleftrightarrow> (\<exists>v. r = ret v \<and> f v = ret y)"
  by (cases r) (auto simp: bindR_def split: sum.splits)

lemma bindR_eq_None:
  "bindR r f = None \<longleftrightarrow> r = None \<or> (\<exists>v. r = ret v \<and> f v = None)"
  by (cases r) (auto simp: bindR_def split: sum.splits)

lemma bindR_cong [cong]: "r = r' \<Longrightarrow> bindR r f = bindR r' f"
  by simp

lemma bindR_mono [partial_function_mono]:
  assumes "mono_option B" and "\<And>y. mono_option (\<lambda>f. C y f)"
  shows "mono_option (\<lambda>f. bindR (B f) (\<lambda>y. C y f))"
  unfolding bindR_def
proof (intro bind_mono assms(1))
  fix y show "mono_option (\<lambda>f. case y of Inl e \<Rightarrow> halt e | Inr v \<Rightarrow> C v f)"
    by (cases y) (auto intro: assms(2) option.const_mono)
qed

text \<open>\<open>assert(v)\<close>: the machine halts unless the condition holds.\<close>

definition assertR :: "bool \<Rightarrow> string \<Rightarrow> 'a run \<Rightarrow> 'a run" where
  "assertR v msg k = (if v then k else halt (AssertFail msg))"

lemma assertR_simps [simp]:
  "assertR True msg k = k"
  "assertR False msg k = halt (AssertFail msg)"
  by (simp_all add: assertR_def)

lemma assertR_mono [partial_function_mono]:
  "mono_option K \<Longrightarrow> mono_option (\<lambda>f. assertR v msg (K f))"
  by (cases v) (auto intro: option.const_mono)

section \<open>Words\<close>

lemma unat_of_nat_small: "n < 2 ^ LENGTH('a) \<Longrightarrow> unat (of_nat n :: 'a::len word) = n"
  by (simp add: unat_of_nat take_bit_nat_eq_self)

lemma unat_add_le: "unat (a + b) \<le> unat a + unat b"
  for a b :: "'a::len word"
  by (simp add: unat_word_ariths)

lemma unat_sub_ge: "unat b \<le> unat a \<Longrightarrow> unat (a - b) = unat a - unat b"
  for a b :: "'a::len word"
  by (simp add: unat_sub word_le_nat_alt)

lemma unat_add_small:
  "unat a + unat b < 2 ^ LENGTH('a) \<Longrightarrow> unat (a + b) = unat a + unat b"
  for a b :: "'a::len word"
  by (simp add: unat_word_ariths)

lemma unat_lt_size: "unat (a :: 'a::len word) < 2 ^ LENGTH('a)"
  by (rule unsigned_less)

lemma unat_lt_64: "unat (a :: u64) < 18446744073709551616"
  using unsigned_less [of a, where ?'a = nat] by simp

lemma unat_lt_32: "unat (a :: u32) < 4294967296"
  using unsigned_less [of a, where ?'a = nat] by simp

lemma unat_ucast_32_64: "unat (ucast (v :: u32) :: u64) = unat v"
  using unat_lt_32 [of v] by (simp add: unsigned_ucast_eq take_bit_nat_eq_self)

text \<open>Masks and shifts as division, on the numbers the words stand for.\<close>

lemma and_not_mask: "y AND NOT (mask k) = push_bit k (drop_bit k y)"
  for y :: "'a::len word"
  by (rule bit_word_eqI) (auto simp: bit_simps)

lemma unat_and_not_mask: "unat (y AND NOT (mask k)) = unat y div 2 ^ k * 2 ^ k"
  for y :: "'a::len word"
proof -
  have "unat y div 2 ^ k * 2 ^ k < 2 ^ LENGTH('a)"
    using unat_lt_size [of y] by (meson div_times_less_eq_dividend le_less_trans)
  moreover have "unat (y AND NOT (mask k)) = take_bit LENGTH('a) (push_bit k (drop_bit k (unat y)))"
    by (simp only: and_not_mask unsigned_push_bit_eq unat_drop_bit_eq)
  ultimately show ?thesis
    by (simp only: push_bit_eq_mult drop_bit_eq_div take_bit_nat_eq_self)
qed

lemma unat_and_mask: "unat (y AND mask k) = unat y mod 2 ^ k"
  for y :: "'a::len word"
  by (simp only: take_bit_eq_mask [symmetric] unsigned_take_bit_eq) (simp only: take_bit_eq_mod)

lemma unat_shr: "unat (drop_bit k y) = unat y div 2 ^ k"
  for y :: "'a::len word"
  by (simp only: unat_drop_bit_eq) (simp only: drop_bit_eq_div)

lemma mask_literals:
  "(0xFFF :: u64) = mask 12" "(0x1FFFFF :: u64) = mask 21" "(0x1FF :: u64) = mask 9"
  "(0x3F :: u64) = mask 6" "(0xFFF :: u32) = mask 12" "(0x1F :: u32) = mask 5"
  by (simp_all add: mask_eq_exp_minus_1)

lemma unat_and_lit [word_simps]:
  "unat (x AND 0xFFF) = unat x mod 4096" "unat (x AND 0x1FFFFF) = unat x mod 2097152"
  "unat (x AND 0x1FF) = unat x mod 512" "unat (x AND 0x3F) = unat x mod 64"
  for x :: u64
  by (simp_all only: mask_literals unat_and_mask) simp_all

lemma and_fff_0: "x AND 0xFFF = 0 \<longleftrightarrow> 4096 dvd unat x"
  for x :: u64
  by (simp only: word_unat_eq_iff unat_and_lit dvd_eq_mod_eq_0) simp

lemma and_1fffff_0: "x AND 0x1FFFFF = 0 \<longleftrightarrow> 2097152 dvd unat x"
  for x :: u64
  by (simp only: word_unat_eq_iff unat_and_lit dvd_eq_mod_eq_0) simp

lemma sint_small: "unat a < 2 ^ 63 \<Longrightarrow> sint a = int (unat a)"
  for a :: u64
proof -
  assume "unat a < 2 ^ 63"
  then have "int (unat a) < int (2 ^ 63)" by (simp only: of_nat_less_iff)
  then have u: "uint a < 2 ^ 63" by (simp only: uint_nat of_nat_power of_nat_numeral)
  have l: "- (2 ^ 63) \<le> uint a" by (rule order_trans [OF _ uint_ge_0]) simp
  have "sint a = signed_take_bit 63 (uint a)" by (simp add: sint_uint)
  also have "\<dots> = uint a" using l u by (rule signed_take_bit_int_eq_self)
  finally show ?thesis by (simp only: uint_nat)
qed

text \<open>Testing one bit with a mask, as the code does.\<close>

lemma and_one_bit_iff: "n < LENGTH('a) \<Longrightarrow> w AND push_bit n 1 \<noteq> 0 \<longleftrightarrow> bit w n"
  for w :: "'a::len word"
proof -
  assume "n < LENGTH('a)"
  then have "bit (w AND push_bit n 1) i \<longleftrightarrow> i = n \<and> bit w n" for i
    by (auto simp: bit_simps)
  then show ?thesis
    by (metis bit_0_eq bot_apply bot_bool_def bit_word_eqI)
qed

lemma and_1_iff: "w AND 1 \<noteq> 0 \<longleftrightarrow> bit w 0"
  for w :: "'a::len word"
  using and_one_bit_iff [of 0 w] by simp

end
