(* ===== verification/Machine.thy ===== *)
theory Machine
  imports Prelude
begin

text \<open>
  The memory the code runs on: a flat, byte-addressed, little-endian address space.  The kernel
  addresses it with 64-bit pointers and the loader with 32-bit ones, so the address width is a
  type variable.  \<open>rd\<close> and \<open>wr\<close> are the unaligned loads and stores of an x86 processor; the
  locale \<open>cell\<close> is the interface the components use: a typed load and store of a fixed number
  of bytes, with the laws that relate them and the array lemmas that follow from the laws.
\<close>

unbundle bit_operations_syntax

type_synonym 'a mem = "'a word \<Rightarrow> u8"

section \<open>Regions of the address space\<close>

text \<open>The \<open>n\<close> bytes from \<open>a\<close>; the address space is cyclic, so a region may wrap.\<close>

definition region :: "'a::len word \<Rightarrow> nat \<Rightarrow> 'a word set" where
  "region a n = {x. unat (x - a) < n}"

lemma in_region_iff: "x \<in> region a n \<longleftrightarrow> unat (x - a) < n"
  by (simp add: region_def)

lemma region_0 [simp]: "region a 0 = {}"
  by (simp add: region_def)

lemma in_region_base [simp]: "a \<in> region a n \<longleftrightarrow> 0 < n"
  by (simp add: region_def)

lemma region_sub:
  assumes "unat (a' - a) + k \<le> n"
  shows "region a' k \<subseteq> region a n"
proof
  fix x assume "x \<in> region a' k"
  then have "unat ((x - a') + (a' - a)) < n"
    using assms unat_add_le [of "x - a'" "a' - a"] by (simp add: in_region_iff)
  then show "x \<in> region a n" by (simp add: in_region_iff)
qed

lemma region_disjoint:
  assumes "k \<le> unat (b - a)" and "n \<le> unat (a - b)"
  shows "region a k \<inter> region b n = {}"
proof (rule ccontr)
  assume "region a k \<inter> region b n \<noteq> {}"
  then obtain x where x: "unat (x - a) < k" "unat (x - b) < n"
    by (auto simp: in_region_iff)
  show False
  proof (cases "unat (x - b) \<le> unat (x - a)")
    case True
    then have "unat ((x - a) - (x - b)) \<le> unat (x - a)" by (simp only: unat_sub_ge)
    moreover have "(x - a) - (x - b) = b - a" by simp
    ultimately show False using x assms by simp
  next
    case False
    then have "unat ((x - b) - (x - a)) \<le> unat (x - b)" by (simp only: unat_sub_ge)
    moreover have "(x - b) - (x - a) = a - b" by simp
    ultimately show False using x assms by simp
  qed
qed

lemma region_disjoint_nat:
  fixes a b :: "'a::len word"
  assumes "unat a + k \<le> unat b" and "unat b + n \<le> 2 ^ LENGTH('a)" and "0 < k"
  shows "region a k \<inter> region b n = {}"
proof (rule region_disjoint)
  show "k \<le> unat (b - a)" using assms by (simp add: unat_sub_ge)
  have "unat (a - b) = 2 ^ LENGTH('a) + unat a - unat b"
    using assms by (simp add: unat_sub_if_size word_size word_le_nat_alt)
  then show "n \<le> unat (a - b)" using assms by simp
qed

lemma in_region_nat:
  fixes a :: "'a::len word"
  assumes "unat a + n \<le> 2 ^ LENGTH('a)"
  shows "x \<in> region a n \<longleftrightarrow> unat a \<le> unat x \<and> unat x < unat a + n"
proof -
  have "unat (x - a) = (if unat a \<le> unat x then unat x - unat a else 2 ^ LENGTH('a) + unat x - unat a)"
    using less_imp_le [OF unat_lt_size [of a]]
    by (simp add: unat_sub_if_size word_size word_le_nat_alt add.commute)
  then show ?thesis using assms unat_lt_size [of a] by (auto simp: in_region_iff)
qed

text \<open>The \<open>i\<close>-th element of an array of \<open>sz\<close>-byte elements.\<close>

definition elem :: "'a::len word \<Rightarrow> nat \<Rightarrow> nat \<Rightarrow> 'a word" where
  "elem b sz i = b + of_nat (sz * i)"

lemma unat_elem_offset:
  "sz * i < 2 ^ LENGTH('a) \<Longrightarrow> unat (elem b sz i - b) = sz * i"
  for b :: "'a::len word"
  by (simp only: elem_def add_diff_cancel_left' unat_of_nat_small)

lemma region_elem_sub:
  fixes b :: "'a::len word"
  assumes "sz * Suc i \<le> n" and "n \<le> 2 ^ LENGTH('a)" and "0 < sz"
  shows "region (elem b sz i) sz \<subseteq> region b n"
  using assms by (intro region_sub) (simp add: unat_elem_offset)

lemma region_elem_disjoint:
  fixes b :: "'a::len word"
  assumes "i \<noteq> j" and "sz * Suc i \<le> 2 ^ LENGTH('a)" and "sz * Suc j \<le> 2 ^ LENGTH('a)" and "0 < sz"
  shows "region (elem b sz i) sz \<inter> region (elem b sz j) sz = {}"
proof -
  have main: "region (elem b sz i) sz \<inter> region (elem b sz j) sz = {}"
    if "i < j" and j: "sz * Suc j \<le> 2 ^ LENGTH('a)" for i j
  proof (rule ccontr)
    have "sz * Suc i \<le> sz * j" using that(1) by (intro mult_le_mono2) simp
    then have u: "unat (elem b sz i - b) = sz * i" "unat (elem b sz j - b) = sz * j"
      using j assms(4) by (simp_all add: unat_elem_offset)
    assume "\<not> ?thesis"
    then obtain x where x: "unat (x - elem b sz i) < sz" "unat (x - elem b sz j) < sz"
      by (auto simp: in_region_iff)
    have "unat (x - b) = unat ((x - elem b sz j) + (elem b sz j - b))" by simp
    also have "\<dots> = unat (x - elem b sz j) + sz * j"
      using x u j by (subst unat_add_small) simp_all
    finally have "sz * j \<le> unat (x - b)" by simp
    moreover have "unat (x - b) \<le> unat (x - elem b sz i) + unat (elem b sz i - b)"
      using unat_add_le [of "x - elem b sz i" "elem b sz i - b"] by simp
    ultimately show False using x u \<open>sz * Suc i \<le> sz * j\<close> by simp
  qed
  show ?thesis
  proof (cases "i < j")
    case True then show ?thesis using main assms by blast
  next
    case False then show ?thesis using main [of j i] assms by fastforce
  qed
qed

section \<open>Little-endian loads and stores\<close>

primrec rd :: "nat \<Rightarrow> 'a mem \<Rightarrow> 'a::len word \<Rightarrow> 'v::len word" where
  "rd 0 m a = 0"
| "rd (Suc n) m a = ucast (m a) OR push_bit 8 (rd n m (a + 1))"

primrec wr :: "nat \<Rightarrow> 'a mem \<Rightarrow> 'a::len word \<Rightarrow> 'v::len word \<Rightarrow> 'a mem" where
  "wr 0 m a v = m"
| "wr (Suc n) m a v = wr n (m(a := ucast v)) (a + 1) (drop_bit 8 v)"

lemma rd_numeral: "rd (numeral k) m a = ucast (m a) OR push_bit 8 (rd (pred_numeral k) m (a + 1))"
  by (simp add: numeral_eq_Suc)

lemma wr_numeral: "wr (numeral k) m a v = wr (pred_numeral k) (m(a := ucast v)) (a + 1) (drop_bit 8 v)"
  by (simp add: numeral_eq_Suc)

lemma wr_apply:
  "n \<le> 2 ^ LENGTH('a) \<Longrightarrow>
   wr n m a v x = (if unat (x - a) < n then ucast (drop_bit (8 * unat (x - a)) v) else m x)"
  for x :: "'a::len word"
proof (induction n arbitrary: m a v)
  case 0 then show ?case by simp
next
  case (Suc n)
  show ?case
  proof (cases "x = a")
    case True
    have "unat (- 1 :: 'a word) = 2 ^ LENGTH('a) - 1"
      by (simp add: unsigned_minus_1_eq_mask mask_eq_exp_minus_1)
    then have "\<not> unat (x - (a + 1)) < n" using True Suc.prems by simp
    then show ?thesis using Suc True by simp
  next
    case False
    then have u: "unat (x - (a + 1)) = unat (x - a) - 1" and p: "0 < unat (x - a)"
      by (simp_all add: diff_diff_eq [symmetric] unat_minus_one unat_gt_0)
    have e: "drop_bit (8 * (unat (x - a) - 1)) (drop_bit 8 v) = drop_bit (8 * unat (x - a)) v"
      using p by (simp add: drop_bit_drop_bit) (metis add.commute mult_Suc_right Suc_pred)
    show ?thesis using Suc False u p e by (auto simp: less_diff_conv)
  qed
qed

lemma bit_rd:
  "bit (rd n m a :: 'v::len word) i \<longleftrightarrow>
   i < LENGTH('v) \<and> i < 8 * n \<and> bit (m (a + of_nat (i div 8))) (i mod 8)"
proof (induction n arbitrary: a i)
  case 0 then show ?case by simp
next
  case (Suc n)
  show ?case
  proof (cases "i < 8")
    case True
    then show ?thesis by (auto simp: bit_simps)
  next
    case False
    then have "i div 8 = Suc ((i - 8) div 8)" "i mod 8 = (i - 8) mod 8"
      by (simp_all add: le_div_geq le_mod_geq)
    then show ?thesis using False Suc
      by (auto simp: bit_simps add.assoc add.commute add.left_commute dest: bit_imp_le_length)
  qed
qed

lemma rd_wr_same:
  "8 * n = LENGTH('v) \<Longrightarrow> n \<le> 2 ^ LENGTH('a) \<Longrightarrow> rd n (wr n m a v) a = (v :: 'v::len word)"
  for a :: "'a::len word"
proof (rule bit_word_eqI)
  fix i assume a: "8 * n = LENGTH('v)" "n \<le> 2 ^ LENGTH('a)" "i < LENGTH('v)"
  then have l: "i div 8 < n" by simp
  with a have u: "unat (of_nat (i div 8) :: 'a word) = i div 8"
    by (simp add: unat_of_nat_small)
  have "8 * (i div 8) + i mod 8 = i" by simp
  then show "bit (rd n (wr n m a v) a :: 'v word) i = bit v i"
    using a l u by (simp add: bit_rd wr_apply bit_simps)
qed

lemma wr_frame: "n \<le> 2 ^ LENGTH('a) \<Longrightarrow> x \<notin> region a n \<Longrightarrow> wr n m a v x = m x"
  for x :: "'a::len word"
  by (simp add: wr_apply in_region_iff)

lemma rd_cong:
  fixes a :: "'a::len word"
  assumes n: "n \<le> 2 ^ LENGTH('a)" and eq: "\<And>x. x \<in> region a n \<Longrightarrow> m x = m' x"
  shows "rd n m a = (rd n m' a :: 'v::len word)"
proof (rule bit_word_eqI)
  fix i
  have "m (a + of_nat (i div 8)) = m' (a + of_nat (i div 8))" if "i < 8 * n"
    using that n by (intro eq) (simp add: in_region_iff unat_of_nat_small)
  then show "bit (rd n m a :: 'v word) i = bit (rd n m' a :: 'v word) i"
    by (auto simp: bit_rd)
qed

section \<open>Typed cells\<close>

locale cell =
  fixes ld :: "'a::len mem \<Rightarrow> 'a word \<Rightarrow> 'v"
    and st :: "'a mem \<Rightarrow> 'a word \<Rightarrow> 'v \<Rightarrow> 'a mem"
    and sz :: nat
  assumes ld_st_same: "ld (st m a v) a = v"
    and st_frame: "x \<notin> region a sz \<Longrightarrow> st m a v x = m x"
    and ld_cong: "(\<And>x. x \<in> region a sz \<Longrightarrow> m x = m' x) \<Longrightarrow> ld m a = ld m' a"
    and sz_pos: "0 < sz"
begin

lemma ld_st_disjoint:
  "region a sz \<inter> region b sz = {} \<Longrightarrow> ld (st m a v) b = ld m b"
  by (rule ld_cong) (auto intro: st_frame)

lemma ld_elem_st_elem:
  assumes "sz * Suc i \<le> 2 ^ LENGTH('a)" and "sz * Suc j \<le> 2 ^ LENGTH('a)"
  shows "ld (st m (elem b sz i) v) (elem b sz j) = (if i = j then v else ld m (elem b sz j))"
  using assms region_elem_disjoint [of i j sz b] sz_pos by (auto simp: ld_st_same intro!: ld_st_disjoint)

lemma st_elem_frame:
  assumes "x \<notin> region b n" and "sz * Suc i \<le> n" and "n \<le> 2 ^ LENGTH('a)"
  shows "st m (elem b sz i) v x = m x"
  using assms region_elem_sub [of sz i n b] sz_pos by (intro st_frame) blast

lemma ld_elem_frame:
  assumes "\<And>x. x \<in> region b n \<Longrightarrow> m x = m' x" and "sz * Suc i \<le> n" and "n \<le> 2 ^ LENGTH('a)"
  shows "ld m (elem b sz i) = ld m' (elem b sz i)"
  using assms region_elem_sub [of sz i n b] sz_pos by (intro ld_cong) blast

end

definition ld16 :: "'a::len mem \<Rightarrow> 'a word \<Rightarrow> u16" where "ld16 m a = rd 2 m a"
definition st16 :: "'a::len mem \<Rightarrow> 'a word \<Rightarrow> u16 \<Rightarrow> 'a mem" where "st16 m a v = wr 2 m a v"
definition ld32 :: "'a::len mem \<Rightarrow> 'a word \<Rightarrow> u32" where "ld32 m a = rd 4 m a"
definition st32 :: "'a::len mem \<Rightarrow> 'a word \<Rightarrow> u32 \<Rightarrow> 'a mem" where "st32 m a v = wr 4 m a v"
definition ld64 :: "'a::len mem \<Rightarrow> 'a word \<Rightarrow> u64" where "ld64 m a = rd 8 m a"
definition st64 :: "'a::len mem \<Rightarrow> 'a word \<Rightarrow> u64 \<Rightarrow> 'a mem" where "st64 m a v = wr 8 m a v"

text \<open>The kernel's cells (64-bit addresses) and the loader's (32-bit addresses).\<close>

interpretation c16: cell "ld16 :: 64 mem \<Rightarrow> _" st16 2
  by unfold_locales (auto simp: ld16_def st16_def rd_wr_same wr_frame intro: rd_cong)

interpretation c32: cell "ld32 :: 64 mem \<Rightarrow> _" st32 4
  by unfold_locales (auto simp: ld32_def st32_def rd_wr_same wr_frame intro: rd_cong)

interpretation c64: cell "ld64 :: 64 mem \<Rightarrow> _" st64 8
  by unfold_locales (auto simp: ld64_def st64_def rd_wr_same wr_frame intro: rd_cong)

interpretation l32: cell "ld32 :: 32 mem \<Rightarrow> _" st32 4
  by unfold_locales (auto simp: ld32_def st32_def rd_wr_same wr_frame intro: rd_cong)

interpretation l64: cell "ld64 :: 32 mem \<Rightarrow> _" st64 8
  by unfold_locales (auto simp: ld64_def st64_def rd_wr_same wr_frame intro: rd_cong)

lemmas [mem_simps] = c16.ld_st_same c32.ld_st_same c64.ld_st_same l32.ld_st_same l64.ld_st_same

text \<open>A memory that is zero reads as zero.\<close>

lemma rd_zero: "(\<And>x. x \<in> region a n \<Longrightarrow> m x = 0) \<Longrightarrow> n \<le> 2 ^ LENGTH('a) \<Longrightarrow> rd n m a = (0 :: 'v::len word)"
  for a :: "'a::len word"
proof -
  assume a: "\<And>x. x \<in> region a n \<Longrightarrow> m x = 0" "n \<le> 2 ^ LENGTH('a)"
  have "rd n (\<lambda>_. 0) b = (0 :: 'v word)" for n and b :: "'a word"
    by (induction n arbitrary: b) simp_all
  moreover have "rd n m a = (rd n (\<lambda>_. 0) a :: 'v word)" using a by (intro rd_cong) auto
  ultimately show ?thesis by simp
qed

end
