(* ===== verification/Memory.thy ===== *)
theory Memory
  imports Machine
begin

text \<open>
  The byte loops of kernel/algo/memory.cpp and loader/algo/memory.cpp over the byte memory of
  theory Machine, with the closed forms the other components use.  The trace line the loader's
  \<open>memcpy\<close> prints is left out, as every trace line is.
\<close>

unbundle bit_operations_syntax

section \<open>The loops\<close>

lemma unat_suc_less: "i < lim \<Longrightarrow> unat (i + 1) = Suc (unat i)"
  for i lim :: "'a::len word"
proof -
  assume "i < lim"
  then have "unat i + unat (1 :: 'a word) < 2 ^ LENGTH('a)"
    using less_trans_Suc [OF _ unat_lt_size [of lim], of "unat i"] by (simp add: word_less_nat_alt)
  then show ?thesis by (simp add: unat_add_small)
qed

lemma loop_measure: "i < lim \<Longrightarrow> unat lim - unat (i + 1) < unat lim - unat i"
  for i lim :: "'a::len word"
  by (simp add: unat_suc_less word_less_nat_alt)

function memset_loop :: "'a::len mem \<Rightarrow> 'a word \<Rightarrow> u8 \<Rightarrow> 'a word \<Rightarrow> 'a word \<Rightarrow> 'a mem" where
  "memset_loop m block value lim i =
     (if i < lim then memset_loop (m(block + i := value)) block value lim (i + 1) else m)"
  by pat_completeness auto
termination
  by (relation "measure (\<lambda>(m, block, value, lim, i). unat lim - unat i)") (simp_all add: loop_measure)

function memcpy_loop :: "'a::len mem \<Rightarrow> 'a word \<Rightarrow> 'a word \<Rightarrow> 'a word \<Rightarrow> 'a word \<Rightarrow> 'a mem" where
  "memcpy_loop m dst src lim i =
     (if i < lim then memcpy_loop (m(dst + i := m (src + i))) dst src lim (i + 1) else m)"
  by pat_completeness auto
termination
  by (relation "measure (\<lambda>(m, dst, src, lim, i). unat lim - unat i)") (simp_all add: loop_measure)

declare memset_loop.simps [simp del] memcpy_loop.simps [simp del]

text \<open>The kernel's functions: \<open>value\<close> is an \<open>int\<close>, cut to a byte.\<close>

definition memcpy :: "64 mem \<Rightarrow> u64 \<Rightarrow> u64 \<Rightarrow> u64 \<Rightarrow> 64 mem" where
  "memcpy m dst src lim = memcpy_loop m dst src lim 0"

definition memset :: "64 mem \<Rightarrow> u64 \<Rightarrow> u32 \<Rightarrow> u64 \<Rightarrow> 64 mem" where
  "memset m block value lim = memset_loop m block (ucast value) lim 0"

text \<open>The loader's functions, on 32-bit addresses and sizes.\<close>

definition loader_memset :: "32 mem \<Rightarrow> u32 \<Rightarrow> u32 \<Rightarrow> u32 \<Rightarrow> 32 mem" where
  "loader_memset m block value count = memset_loop m block (ucast value) count 0"

definition loader_memcpy :: "32 mem \<Rightarrow> u32 \<Rightarrow> u32 \<Rightarrow> u32 \<Rightarrow> 32 mem" where
  "loader_memcpy m dst src count = memcpy_loop m dst src count 0"

section \<open>Closed forms\<close>

lemma memset_loop_eq:
  "memset_loop m block v lim i x =
     (if unat i \<le> unat (x - block) \<and> unat (x - block) < unat lim then v else m x)"
proof (induction m block v lim i rule: memset_loop.induct)
  case (1 m block v lim i)
  show ?case
  proof (cases "i < lim")
    case True
    have "x = block + i \<longleftrightarrow> unat (x - block) = unat i"
      by (auto simp: word_unat_eq_iff [symmetric] algebra_simps)
    note IH = "1.IH" [OF True]
    show ?thesis using True \<open>x = block + i \<longleftrightarrow> _\<close>
      by (simp only: memset_loop.simps [of m block v lim i] if_True IH)
        (auto simp: unat_suc_less word_less_nat_alt)
  next
    case False
    then show ?thesis by (subst memset_loop.simps) (auto simp: word_less_nat_alt)
  qed
qed

lemma memset_apply:
  "memset m block value lim x = (if x \<in> region block (unat lim) then ucast value else m x)"
  by (simp add: memset_def memset_loop_eq in_region_iff)

lemma loader_memset_apply:
  "loader_memset m block value lim x = (if x \<in> region block (unat lim) then ucast value else m x)"
  by (simp add: loader_memset_def memset_loop_eq in_region_iff)

lemma memcpy_loop_eq:
  assumes "dst = src \<or> unat lim \<le> unat (dst - src)"
  shows "memcpy_loop m dst src lim i x =
     (if unat i \<le> unat (x - dst) \<and> unat (x - dst) < unat lim then m (src + (x - dst)) else m x)"
  using assms
proof (induction m dst src lim i rule: memcpy_loop.induct)
  case (1 m dst src lim i)
  show ?case
  proof (cases "i < lim")
    case True
    have x: "x = dst + i \<longleftrightarrow> unat (x - dst) = unat i"
      by (auto simp: word_unat_eq_iff [symmetric] algebra_simps)
    have ne: "src + (x - dst) \<noteq> dst + i" if "unat i < unat (x - dst)" "unat (x - dst) < unat lim"
    proof
      assume "src + (x - dst) = dst + i"
      then have "(x - dst) - i = dst - src" by (simp add: algebra_simps)
      then have "unat (dst - src) = unat (x - dst) - unat i" using that by (metis unat_sub_ge less_imp_le)
      moreover have "dst \<noteq> src" using calculation that by auto
      ultimately show False using "1.prems" that by simp
    qed
    note IH = "1.IH" [OF True "1.prems"]
    show ?thesis using True x ne
      by (simp only: memcpy_loop.simps [of m dst src lim i] if_True IH)
        (auto simp: unat_suc_less word_less_nat_alt Suc_le_eq)
  next
    case False
    then show ?thesis by (subst memcpy_loop.simps) (auto simp: word_less_nat_alt)
  qed
qed

lemma memcpy_apply:
  "dst = src \<or> unat lim \<le> unat (dst - src) \<Longrightarrow>
   memcpy m dst src lim x = (if x \<in> region dst (unat lim) then m (src + (x - dst)) else m x)"
  by (simp add: memcpy_def memcpy_loop_eq in_region_iff)

lemma loader_memcpy_apply:
  "dst = src \<or> unat lim \<le> unat (dst - src) \<Longrightarrow>
   loader_memcpy m dst src lim x = (if x \<in> region dst (unat lim) then m (src + (x - dst)) else m x)"
  by (simp add: loader_memcpy_def memcpy_loop_eq in_region_iff)

lemma memset_frame: "x \<notin> region block (unat lim) \<Longrightarrow> memset m block value lim x = m x"
  by (simp add: memset_apply)

lemma loader_memset_frame: "x \<notin> region block (unat lim) \<Longrightarrow> loader_memset m block value lim x = m x"
  by (simp add: loader_memset_apply)

lemma ld64_memset_zero:
  "region a 8 \<subseteq> region block (unat lim) \<Longrightarrow> ld64 (memset m block 0 lim) a = 0"
  unfolding ld64_def by (rule rd_zero) (auto simp: memset_apply)

lemma ld64_loader_memset_zero:
  "region a 8 \<subseteq> region block (unat lim) \<Longrightarrow> ld64 (loader_memset m block 0 lim) a = 0"
  unfolding ld64_def by (rule rd_zero) (auto simp: loader_memset_apply)

section \<open>The functions do what their names say\<close>

text \<open>
  \<open>memset\<close> of the kernel sets exactly the bytes of the block and no others, and \<open>memcpy\<close> of
  a block that does not overlap its source from below copies exactly the block.
\<close>

lemma memset_memcpy_exact:
  assumes "dst = src \<or> unat lim \<le> unat (dst - src)"
  shows "memset m block value n x = (if unat (x - block) < unat n then ucast value else m x) \<and>
     memcpy m dst src lim x = (if unat (x - dst) < unat lim then m (src + (x - dst)) else m x)"
  using assms by (simp add: memset_apply memcpy_apply in_region_iff)

end
