(* ===== verification/Containers.thy ===== *)
theory Containers
  imports Machine
begin

text \<open>
  The templates of kernel/algo: \<open>max\<close>, \<open>min\<close>, \<open>alignUp\<close> (algorithm.hpp), \<open>range\<close> with its
  iterator (range.hpp), \<open>option\<close> (option.hpp) and \<open>result\<close> (result.hpp).  \<open>option<T>\<close> is the
  option type of HOL; a \<open>result\<close> is the optional error code the class holds.
\<close>

unbundle bit_operations_syntax

section \<open>algorithm.hpp\<close>

definition cmax :: "'a::len word \<Rightarrow> 'a word \<Rightarrow> 'a word" where
  "cmax a b = (if a > b then a else b)"

definition cmin :: "'a::len word \<Rightarrow> 'a word \<Rightarrow> 'a word" where
  "cmin a b = (if a < b then a else b)"

definition alignUp :: "'a::len word \<Rightarrow> 'a word \<Rightarrow> 'a word" where
  "alignUp x a = (x + (a - 1)) AND - a"

lemma unat_alignUp:
  fixes x :: "'a::len word"
  assumes "k < LENGTH('a)" and "unat x + 2 ^ k \<le> 2 ^ LENGTH('a)"
  shows "unat (alignUp x (2 ^ k)) = (unat x + (2 ^ k - 1)) div 2 ^ k * 2 ^ k"
proof -
  have p: "unat (2 ^ k :: 'a word) = 2 ^ k" using unat_of_nat_small [where ?'a = 'a, of "2 ^ k"] assms by simp
  have "unat (2 ^ k - 1 :: 'a word) = 2 ^ k - 1"
    using p by (simp add: unat_sub_ge [of 1 "2 ^ k", simplified] unat_minus_one)
  then have "unat (x + (2 ^ k - 1)) = unat x + (2 ^ k - 1)"
    using assms(2) by (subst unat_add_small) (simp_all add: less_le_trans [OF diff_less])
  then show ?thesis
    by (simp only: alignUp_def minus_exp_eq_not_mask unat_and_not_mask)
qed

section \<open>range.hpp\<close>

record 'v rng =
  rstart :: 'v
  rend :: 'v

definition rng_contains :: "'a::len word rng \<Rightarrow> 'a word \<Rightarrow> bool" where
  "rng_contains r v \<longleftrightarrow> v \<ge> rstart r \<and> v \<le> rend r"

record 'v rng_iterator =
  it_value :: 'v
  it_end :: 'v
  it_step :: 'v

definition it_next :: "'a::len word rng_iterator \<Rightarrow> 'a word rng_iterator" where
  "it_next it =
     (let v = it_value it + it_step it in
      it\<lparr>it_value := (if v > it_end it then it_end it else v)\<rparr>)"

definition it_neq :: "'a::len word rng_iterator \<Rightarrow> 'a word rng_iterator \<Rightarrow> bool" where
  "it_neq a b \<longleftrightarrow> it_value a \<noteq> it_value b"

definition it_eq :: "'a::len word rng_iterator \<Rightarrow> 'a word rng_iterator \<Rightarrow> bool" where
  "it_eq a b \<longleftrightarrow> it_value a = it_value b"

record 'v rng_iterable =
  ra_now :: 'v
  ra_end :: 'v
  ra_step :: 'v

definition rng_begin :: "'a::len word rng_iterable \<Rightarrow> 'a word rng_iterator" where
  "rng_begin r = \<lparr>it_value = ra_now r, it_end = ra_end r, it_step = ra_step r\<rparr>"

definition rng_end :: "'a::len word rng_iterable \<Rightarrow> 'a word rng_iterator" where
  "rng_end r = \<lparr>it_value = ra_end r, it_end = ra_end r, it_step = ra_step r\<rparr>"

definition rng_iter :: "'a::len word rng \<Rightarrow> 'a word \<Rightarrow> 'a word rng_iterable" where
  "rng_iter r step = \<lparr>ra_now = rstart r, ra_end = rend r, ra_step = step\<rparr>"

text \<open>The values a range-for visits, in order; \<open>None\<close> when the loop never ends.\<close>

partial_function (option) rng_values ::
  "'a::len word rng_iterator \<Rightarrow> 'a word rng_iterator \<Rightarrow> 'a word list option" where
  "rng_values it e =
     (if it_neq it e then Option.bind (rng_values (it_next it) e) (\<lambda>vs. Some (it_value it # vs))
      else Some [])"

section \<open>option.hpp\<close>

definition opt_some :: "'a \<Rightarrow> 'a option" where "opt_some v = Some v"
definition opt_none :: "'a option" where "opt_none = None"
definition opt_bool :: "'a option \<Rightarrow> bool" where "opt_bool p \<longleftrightarrow> p \<noteq> None"

definition opt_deref :: "'a option \<Rightarrow> 'a run" where
  "opt_deref p = (case p of None \<Rightarrow> halt (Panic ''Attempted to dereference empty option<T>\<newline>'')
                          | Some v \<Rightarrow> ret v)"

definition orPanic :: "'a option \<Rightarrow> string \<Rightarrow> 'a run" where
  "orPanic p msg = (case p of None \<Rightarrow> halt (Panic msg) | Some v \<Rightarrow> ret v)"

lemma opt_bool_simps [simp]: "opt_bool (Some v)" "\<not> opt_bool None"
  by (simp_all add: opt_bool_def)

lemma orPanic_simps [simp]: "orPanic (Some v) msg = ret v" "orPanic None msg = halt (Panic msg)"
  by (simp_all add: orPanic_def)

lemma opt_deref_Some [simp]: "opt_deref (Some v) = ret v"
  by (simp add: opt_deref_def)

section \<open>result.hpp\<close>

type_synonym result = "u32 option"

definition mk_result :: "u32 \<Rightarrow> result" where
  "mk_result e = (if e = 0 then opt_none else opt_some e)"

definition result_bool :: "result \<Rightarrow> bool" where
  "result_bool r \<longleftrightarrow> \<not> opt_bool r"

definition result_code :: "result \<Rightarrow> u32" where
  "result_code r = (case r of Some e \<Rightarrow> e | None \<Rightarrow> 0)"

lemma result_code_mk [simp]: "result_code (mk_result e) = e"
  by (simp add: result_code_def mk_result_def opt_none_def opt_some_def)

lemma result_bool_mk [simp]: "result_bool (mk_result e) \<longleftrightarrow> e = 0"
  by (simp add: result_bool_def mk_result_def opt_none_def opt_some_def)

section \<open>What a range-for visits\<close>

lemma it_next_simps [simp]: "it_end (it_next it) = it_end it" "it_step (it_next it) = it_step it"
  by (simp_all add: it_next_def Let_def)

text \<open>One turn of the loop moves on by the step, or to the end of the range if that is nearer.\<close>

lemma unat_it_next:
  fixes it :: "'a::len word rng_iterator"
  assumes "unat (it_end it) + unat (it_step it) < 2 ^ LENGTH('a)" and "it_value it \<le> it_end it"
  shows "unat (it_value (it_next it)) = min (unat (it_value it) + unat (it_step it)) (unat (it_end it))"
proof -
  have "unat (it_value it + it_step it) = unat (it_value it) + unat (it_step it)"
    using assms by (intro unat_add_small) (simp add: word_le_nat_alt)
  then show ?thesis by (auto simp: it_next_def Let_def word_less_nat_alt)
qed

lemma it_next_le_end: "it_value (it_next it) \<le> it_end it"
  by (auto simp: it_next_def Let_def not_less)

lemma rng_values_upt:
  fixes it :: "'a::len word rng_iterator"
  assumes "unat (it_end it) + unat (it_step it) < 2 ^ LENGTH('a)"
    and "unat (it_end it) = unat (it_value it) + n * unat (it_step it)"
    and "0 < it_step it" and "it_value e = it_end it"
  shows "rng_values it e = Some (map (\<lambda>i. it_value it + of_nat i * it_step it) [0..<n])"
  using assms
proof (induction n arbitrary: it)
  case 0
  then have "it_value it = it_end it" by (simp add: word_unat_eq_iff)
  then show ?case using "0.prems"(4) by (simp add: rng_values.simps [of it e] it_neq_def)
next
  case (Suc n)
  have s: "0 < unat (it_step it)" using Suc.prems(3) by (simp only: word_less_nat_alt unat_0)
  have lt: "unat (it_value it) + unat (it_step it) \<le> unat (it_end it)" using Suc.prems(2) by simp
  then have "it_value it \<le> it_end it" by (simp only: word_le_nat_alt)
  then have nx: "unat (it_value (it_next it)) = unat (it_value it) + unat (it_step it)"
    using unat_it_next [OF Suc.prems(1)] lt by simp
  have v: "it_value (it_next it) = it_value it + it_step it"
    using unat_add_small [of "it_value it" "it_step it"] lt unat_lt_size [of "it_end it"]
    by (simp only: word_unat_eq_iff nx)
  have "rng_values (it_next it) e =
    Some (map (\<lambda>i. it_value (it_next it) + of_nat i * it_step (it_next it)) [0..<n])"
    using Suc.prems by (intro Suc.IH) (simp_all only: it_next_simps nx, simp)
  moreover have "map (\<lambda>i. it_value it + of_nat i * it_step it) [0..<Suc n] =
      it_value it # map (\<lambda>i. it_value (it_next it) + of_nat i * it_step (it_next it)) [0..<n]"
    by (simp add: v upt_rec [of 0 "Suc n"] map_Suc_upt [symmetric] comp_def algebra_simps del: upt_Suc)
  moreover have "it_neq it e" using Suc.prems(4) lt s by (auto simp: it_neq_def)
  ultimately show ?case
    by (simp only: rng_values.simps [of it e] if_True Option.bind.bind_lunit)
qed

end
