(* ===== verification/Paging.thy ===== *)
theory Paging
  imports Memory Containers
begin

text \<open>
  The kernel's paging component, kernel/mem/pm.cpp: the pages that hold paging structures
  (\<open>alloc\<close>, \<open>free\<close>, \<open>setAlloc\<close> over a bit field, \<open>incRefs\<close> and \<open>decRefs\<close> over an array of
  16-bit counters) and the four-level tables with 2 MiB pages (\<open>Pml4::map\<close>, \<open>get\<close>,
  \<open>unmap\<close>).  The state is the file's static variables and the memory; a \<open>Pml4\<close> object is the
  address \<open>this\<close> of its 512 entries.  The operations are here, their properties in PagingInv and
  PagingMap.
\<close>

unbundle bit_operations_syntax

section \<open>State\<close>

record pmst =
  mem :: "64 mem"
  pagingRange :: "u64 rng"
  trackingStructure :: u64
  refcountStructure :: u64
  refcountSize :: u64
  kernelPml4 :: u64
  currentPml4 :: u64

definition F_PRESENT :: u64 where "F_PRESENT = 1"
definition F_RW :: u64 where "F_RW = 2"
definition F_PS :: u64 where "F_PS = 0x80"

definition PM_TRACKING_INDEX :: "u64 \<Rightarrow> u64" where
  "PM_TRACKING_INDEX addr = drop_bit 18 addr"

definition PM_TRACKING_BIT :: "u64 \<Rightarrow> u64" where
  "PM_TRACKING_BIT addr = push_bit (unat (drop_bit 12 addr AND 0x3F)) 1"

definition PM_REFCOUNT_INDEX :: "u64 \<Rightarrow> u64" where
  "PM_REFCOUNT_INDEX addr = drop_bit 12 addr"

text \<open>Subscripts into arrays of 64-bit entries (tables, the bit field) and of 16-bit counters.\<close>

definition at64 :: "pmst \<Rightarrow> u64 \<Rightarrow> u64 \<Rightarrow> u64" where
  "at64 s p i = ld64 (mem s) (p + 8 * i)"

definition put64 :: "pmst \<Rightarrow> u64 \<Rightarrow> u64 \<Rightarrow> u64 \<Rightarrow> pmst" where
  "put64 s p i v = s\<lparr>mem := st64 (mem s) (p + 8 * i) v\<rparr>"

definition at16 :: "pmst \<Rightarrow> u64 \<Rightarrow> u64 \<Rightarrow> u16" where
  "at16 s p i = ld16 (mem s) (p + 2 * i)"

definition put16 :: "pmst \<Rightarrow> u64 \<Rightarrow> u64 \<Rightarrow> u16 \<Rightarrow> pmst" where
  "put16 s p i v = s\<lparr>mem := st16 (mem s) (p + 2 * i) v\<rparr>"

section \<open>Pages for paging structures\<close>

definition pm_setAlloc :: "pmst \<Rightarrow> u64 \<Rightarrow> pmst run" where
  "pm_setAlloc s addr =
     assertR (rng_contains (pagingRange s) addr) ''m_pagingStructureRange.contains(addr)''
     (assertR (addr AND 0xFFF = 0) ''!(addr & 0xFFF)''
     (let idx = PM_TRACKING_INDEX (addr - rstart (pagingRange s));
          b = PM_TRACKING_BIT (addr - rstart (pagingRange s)) in
      ret (put64 s (trackingStructure s) idx (at64 s (trackingStructure s) idx OR b))))"

partial_function (option) pm_alloc_loop :: "pmst \<Rightarrow> u64 \<Rightarrow> (u64 option \<times> pmst) run" where
  "pm_alloc_loop s addr =
     (if addr < rend (pagingRange s) then
        let idx = PM_TRACKING_INDEX (addr - rstart (pagingRange s));
            b = PM_TRACKING_BIT (addr - rstart (pagingRange s)) in
        if at64 s (trackingStructure s) idx AND b = 0 then
          let s1 = put64 s (trackingStructure s) idx (at64 s (trackingStructure s) idx OR b) in
          ret (opt_some addr, s1\<lparr>mem := memset (mem s1) addr 0 0x1000\<rparr>)
        else pm_alloc_loop s (addr + 0x1000)
      else ret (opt_none, s))"

definition pm_alloc :: "pmst \<Rightarrow> (u64 option \<times> pmst) run" where
  "pm_alloc s = pm_alloc_loop s (rstart (pagingRange s))"

definition pm_free :: "pmst \<Rightarrow> u64 \<Rightarrow> pmst run" where
  "pm_free s addr =
     (let idx = PM_TRACKING_INDEX (addr - rstart (pagingRange s));
          b = PM_TRACKING_BIT (addr - rstart (pagingRange s)) in
      assertR (at64 s (trackingStructure s) idx AND b \<noteq> 0) ''m_pagingTrackingStructure[idx] & bit''
      (ret (put64 s (trackingStructure s) idx (at64 s (trackingStructure s) idx AND NOT b))))"

definition pm_kernel :: "pmst \<Rightarrow> u64" where "pm_kernel s = kernelPml4 s"
definition pm_current :: "pmst \<Rightarrow> u64" where "pm_current s = currentPml4 s"

definition pm_incRefs :: "pmst \<Rightarrow> u64 \<Rightarrow> (u16 \<times> pmst) run" where
  "pm_incRefs s addr =
     assertR (rng_contains (pagingRange s) addr) ''m_pagingStructureRange.contains(addr)''
     (assertR (addr AND 0xFFF = 0) ''!(addr & 0xFFF)''
     (let idx = PM_REFCOUNT_INDEX (addr - rstart (pagingRange s));
          n = at16 s (refcountStructure s) idx + 1 in
      ret (n, put16 s (refcountStructure s) idx n)))"

definition pm_decRefs :: "pmst \<Rightarrow> u64 \<Rightarrow> (u16 \<times> pmst) run" where
  "pm_decRefs s addr =
     assertR (rng_contains (pagingRange s) addr) ''m_pagingStructureRange.contains(addr)''
     (assertR (addr AND 0xFFF = 0) ''!(addr & 0xFFF)''
     (let idx = PM_REFCOUNT_INDEX (addr - rstart (pagingRange s)) in
      if at16 s (refcountStructure s) idx \<noteq> 0 then
        let n = at16 s (refcountStructure s) idx - 1 in
        ret (n, put16 s (refcountStructure s) idx n)
      else ret (0, s)))"

section \<open>The tables\<close>

text \<open>The indices of an address and the structure an entry points at.\<close>

definition pml4_index :: "u64 \<Rightarrow> u64" where "pml4_index vaddr = drop_bit 39 vaddr"
definition pdpt_index :: "u64 \<Rightarrow> u64" where "pdpt_index vaddr = drop_bit 30 vaddr AND 0x1FF"
definition pd_index :: "u64 \<Rightarrow> u64" where "pd_index vaddr = drop_bit 21 vaddr AND 0x1FF"

definition present :: "u64 \<Rightarrow> bool" where "present e \<longleftrightarrow> e AND F_PRESENT \<noteq> 0"
definition entry_addr :: "u64 \<Rightarrow> u64" where "entry_addr e = e AND NOT 0xFFF"
definition frame_addr :: "u64 \<Rightarrow> u64" where "frame_addr e = e AND NOT 0x1FFFFF"

text \<open>\<open>Pml4::Pml4()\<close>: an object of 512 zero entries at \<open>this\<close>.\<close>

definition pml4_init :: "pmst \<Rightarrow> u64 \<Rightarrow> pmst" where
  "pml4_init s this = s\<lparr>mem := memset (mem s) this 0 (512 * 8)\<rparr>"

definition pml4_map :: "pmst \<Rightarrow> u64 \<Rightarrow> u64 \<Rightarrow> u64 \<Rightarrow> u64 \<Rightarrow> pmst run" where
  "pml4_map s this vaddr paddr flags =
     assertR (vaddr AND 0x1FFFFF = 0) ''!(vaddr & 0x1FFFFF)''
     (assertR (paddr AND 0x1FFFFF = 0) ''!(paddr & 0x1FFFFF)''
     (let pml4i = pml4_index vaddr; pdpti = pdpt_index vaddr; pdi = pd_index vaddr in
      if present (at64 s this pml4i) then
        let pml4e = at64 s this pml4i; pdpt = entry_addr pml4e in
        if present (at64 s pdpt pdpti) then
          let pdpte = at64 s pdpt pdpti; pd = entry_addr pdpte in
          if present (at64 s pd pdi) then halt (Panic ''Entry is already present\<newline>'')
          else
            let s1 = put64 s pd pdi (paddr OR flags OR F_PRESENT OR F_PS) in
            bindR (pm_incRefs s1 pd) (\<lambda>(n, s2). ret s2)
        else
          bindR (pm_alloc s) (\<lambda>(r, s0).
          bindR (orPanic r ''Failed to allocate PD'') (\<lambda>pdaddr.
          let s1 = put64 s0 pdaddr pdi (paddr OR flags OR F_PRESENT OR F_PS);
              s2 = put64 s1 pdpt pdpti (pdaddr OR F_PRESENT OR F_RW) in
          bindR (pm_incRefs s2 pdaddr) (\<lambda>(n, s3).
          bindR (pm_incRefs s3 pdpt) (\<lambda>(n, s4). ret s4))))
      else
        bindR (pm_alloc s) (\<lambda>(r, s0).
        bindR (orPanic r ''Failed to allocate PDPT'') (\<lambda>pdptaddr.
        bindR (pm_alloc s0) (\<lambda>(r, s1).
        bindR (orPanic r ''Failed to allocate PD'') (\<lambda>pdaddr.
        let s2 = put64 s1 pdaddr pdi (paddr OR flags OR F_PRESENT OR F_PS);
            s3 = put64 s2 pdptaddr pdpti (pdaddr OR F_PRESENT OR F_RW);
            s4 = put64 s3 this pml4i (pdptaddr OR F_PRESENT OR F_RW) in
        bindR (pm_incRefs s4 pdaddr) (\<lambda>(n, s5).
        bindR (pm_incRefs s5 pdptaddr) (\<lambda>(n, s6). ret s6))))))))"

definition pml4_get :: "pmst \<Rightarrow> u64 \<Rightarrow> u64 \<Rightarrow> u64 option" where
  "pml4_get s this vaddrFull =
     (let vaddr = frame_addr vaddrFull; low = vaddrFull AND 0x1FFFFF;
          pml4i = pml4_index vaddr; pdpti = pdpt_index vaddr; pdi = pd_index vaddr in
      if present (at64 s this pml4i) then
        let pml4e = at64 s this pml4i; pdpt = entry_addr pml4e in
        if present (at64 s pdpt pdpti) then
          let pdpte = at64 s pdpt pdpti; pd = entry_addr pdpte in
          if present (at64 s pd pdi) then opt_some (frame_addr (at64 s pd pdi) OR low)
          else opt_none
        else opt_none
      else opt_none)"

definition pml4_unmap :: "pmst \<Rightarrow> u64 \<Rightarrow> u64 \<Rightarrow> (result \<times> pmst) run" where
  "pml4_unmap s this vaddr =
     assertR (vaddr AND 0x1FFFFF = 0) ''!(vaddr & 0x1FFFFF)''
     (let pml4i = pml4_index vaddr; pdpti = pdpt_index vaddr; pdi = pd_index vaddr in
      if present (at64 s this pml4i) then
        let pml4e = at64 s this pml4i; pdpt = entry_addr pml4e in
        if present (at64 s pdpt pdpti) then
          let pdpte = at64 s pdpt pdpti; pd = entry_addr pdpte in
          if present (at64 s pd pdi) then
            bindR (pm_decRefs s pd) (\<lambda>(n, s1).
              if n = 0 then
                bindR (pm_free s1 pd) (\<lambda>s2.
                bindR (pm_decRefs s2 pdpt) (\<lambda>(n, s3).
                  if n = 0 then bindR (pm_free s3 pdpt) (\<lambda>s4. ret (mk_result 0, s4))
                  else ret (mk_result 0, s3)))
              else ret (mk_result 0, s1))
          else ret (mk_result 1, s)
        else ret (mk_result 1, s)
      else ret (mk_result 1, s))"

end
