(* ===== verification/PagingInv.thy ===== *)
theory PagingInv
  imports Paging
begin

text \<open>
  The paging state seen as an algebra: which pages of the paging range are tracked as
  allocated, the reference count of a page, and the 512 entries of a page.  The lemmas say what
  one store of the code does to each of the three, so that the proofs about tables never look
  at bytes again; \<open>pm_alloc\<close>, \<open>pm_incRefs\<close>, \<open>pm_decRefs\<close> and \<open>pm_free\<close> are
  characterised over them.
\<close>

unbundle bit_operations_syntax

section \<open>Abstraction\<close>

definition inpage :: "pmst \<Rightarrow> u64 \<Rightarrow> bool" where
  "inpage s t \<longleftrightarrow> t AND 0xFFF = 0 \<and> rstart (pagingRange s) \<le> t \<and> t < rend (pagingRange s)"

definition tracked :: "pmst \<Rightarrow> u64 \<Rightarrow> bool" where
  "tracked s t \<longleftrightarrow>
     at64 s (trackingStructure s) (PM_TRACKING_INDEX (t - rstart (pagingRange s))) AND
       PM_TRACKING_BIT (t - rstart (pagingRange s)) \<noteq> 0"

definition refs :: "pmst \<Rightarrow> u64 \<Rightarrow> u16" where
  "refs s t = at16 s (refcountStructure s) (PM_REFCOUNT_INDEX (t - rstart (pagingRange s)))"

text \<open>
  The geometry the code relies on: the range is page-aligned and ends before the last page of
  the address space, and the bit field, the counters and the range do not overlap.
\<close>

definition range_size :: "pmst \<Rightarrow> nat" where
  "range_size s = unat (rend (pagingRange s) - rstart (pagingRange s))"

definition tracking_bytes :: "pmst \<Rightarrow> nat" where
  "tracking_bytes s = 8 * Suc (range_size s div 0x40000)"

definition refcount_bytes :: "pmst \<Rightarrow> nat" where
  "refcount_bytes s = 2 * Suc (range_size s div 0x1000)"

definition geom :: "pmst \<Rightarrow> bool" where
  "geom s \<longleftrightarrow>
     rstart (pagingRange s) AND 0xFFF = 0 \<and> rend (pagingRange s) AND 0xFFF = 0 \<and>
     rstart (pagingRange s) \<le> rend (pagingRange s) \<and>
     unat (rend (pagingRange s)) + 0x1000 \<le> 2 ^ 64 \<and>
     region (trackingStructure s) (tracking_bytes s) \<inter>
       region (rstart (pagingRange s)) (range_size s) = {} \<and>
     region (refcountStructure s) (refcount_bytes s) \<inter>
       region (rstart (pagingRange s)) (range_size s) = {} \<and>
     region (trackingStructure s) (tracking_bytes s) \<inter>
       region (refcountStructure s) (refcount_bytes s) = {}"

text \<open>Only the memory of the state changes.\<close>

definition only_mem :: "pmst \<Rightarrow> pmst \<Rightarrow> bool" where
  "only_mem s s' \<longleftrightarrow> s' = s\<lparr>mem := mem s'\<rparr>"

lemma only_mem_refl [simp]: "only_mem s s"
  by (simp add: only_mem_def)

lemma only_mem_trans: "only_mem s s' \<Longrightarrow> only_mem s' s'' \<Longrightarrow> only_mem s s''"
  unfolding only_mem_def by (metis pmst.select_convs(1) pmst.surjective pmst.update_convs(1))

lemma only_mem_upd [simp]:
  "only_mem s (s\<lparr>mem := m\<rparr>)" "only_mem s (put64 s p i v)" "only_mem s (put16 s p i w)"
  by (simp_all add: only_mem_def put64_def put16_def)

lemma only_mem_fields:
  assumes "only_mem s s'"
  shows "pagingRange s' = pagingRange s" "trackingStructure s' = trackingStructure s"
    "refcountStructure s' = refcountStructure s" "range_size s' = range_size s"
    "tracking_bytes s' = tracking_bytes s" "refcount_bytes s' = refcount_bytes s"
proof -
  from assms have e: "s' = s\<lparr>mem := mem s'\<rparr>" by (simp add: only_mem_def)
  show "pagingRange s' = pagingRange s" "trackingStructure s' = trackingStructure s"
    "refcountStructure s' = refcountStructure s" "range_size s' = range_size s"
    "tracking_bytes s' = tracking_bytes s" "refcount_bytes s' = refcount_bytes s"
    by (subst e; simp add: range_size_def tracking_bytes_def refcount_bytes_def)+
qed

lemma only_mem_inpage: "only_mem s s' \<Longrightarrow> inpage s' t = inpage s t"
  by (simp add: inpage_def only_mem_fields)

lemma only_mem_geom: "only_mem s s' \<Longrightarrow> geom s' = geom s"
  by (simp add: geom_def only_mem_fields)

lemma put_fields [simp]:
  "pagingRange (put64 s p i v) = pagingRange s" "trackingStructure (put64 s p i v) = trackingStructure s"
  "refcountStructure (put64 s p i v) = refcountStructure s" "mem (put64 s p i v) = st64 (mem s) (p + 8 * i) v"
  "pagingRange (put16 s p i w) = pagingRange s" "trackingStructure (put16 s p i w) = trackingStructure s"
  "refcountStructure (put16 s p i w) = refcountStructure s" "mem (put16 s p i w) = st16 (mem s) (p + 2 * i) w"
  by (simp_all add: put64_def put16_def)

section \<open>Pages and the arrays beside them\<close>

lemma elem_word: "p + 8 * i = elem p 8 (unat i)" "p + 2 * i = elem p 2 (unat i)"
  for p i :: u64
  by (simp_all add: elem_def)

lemma page_dvd_diff: "a AND 0xFFF = 0 \<Longrightarrow> b AND 0xFFF = 0 \<Longrightarrow> 4096 dvd unat (a - b)"
  for a b :: u64
proof -
  assume "a AND 0xFFF = 0" "b AND 0xFFF = 0"
  then have d: "4096 dvd unat a" "4096 dvd unat b" by (simp_all add: and_fff_0)
  have "unat (a - b) = (if unat b \<le> unat a then unat a - unat b else unat a + 2 ^ 64 - unat b)"
    by (simp add: unat_sub_if_size word_size word_le_nat_alt)
  moreover have "(4096::nat) dvd 2 ^ 64" by simp
  ultimately show ?thesis using d by (simp add: dvd_diff_nat)
qed

lemma pages_disjoint:
  fixes t t' :: u64
  assumes "t AND 0xFFF = 0" and "t' AND 0xFFF = 0" and "t \<noteq> t'"
  shows "region t 4096 \<inter> region t' 4096 = {}"
proof (rule region_disjoint)
  have "unat (t' - t) \<noteq> 0" "unat (t - t') \<noteq> 0" using assms(3) by (simp_all add: unat_eq_0)
  then show "4096 \<le> unat (t' - t)" "4096 \<le> unat (t - t')"
    using page_dvd_diff assms by (simp_all add: dvd_imp_le)
qed

lemma page_entry_sub:
  "i < 512 \<Longrightarrow> region (elem t 8 (unat i)) 8 \<subseteq> region t 4096"
  for t i :: u64
  by (intro region_elem_sub) (simp_all add: word_less_nat_alt)

lemma page_in_range:
  assumes "geom s" and "inpage s t"
  shows "region t 4096 \<subseteq> region (rstart (pagingRange s)) (range_size s)"
proof (rule region_sub)
  let ?a = "rstart (pagingRange s)" and ?e = "rend (pagingRange s)"
  have o: "unat (t - ?a) = unat t - unat ?a" "unat (?e - ?a) = unat ?e - unat ?a" "unat t < unat ?e"
    using assms by (auto simp: inpage_def geom_def word_le_nat_alt word_less_nat_alt intro!: unat_sub_ge)
  have "4096 dvd unat (?e - t)"
    using assms by (intro page_dvd_diff) (simp_all add: inpage_def geom_def)
  moreover have "unat (?e - t) = unat ?e - unat t" using o by (intro unat_sub_ge) simp
  ultimately have "4096 \<le> unat ?e - unat t" using o by (simp add: dvd_imp_le)
  then show "unat (t - ?a) + 4096 \<le> range_size s"
    using o assms by (simp add: range_size_def inpage_def word_le_nat_alt)
qed

lemma offset_less: "geom s \<Longrightarrow> inpage s t \<Longrightarrow> unat (t - rstart (pagingRange s)) < range_size s"
  using subsetD [OF page_in_range, of s t t] by (simp add: in_region_iff)

lemma range_size_bound: "range_size s < 18446744073709551616"
  by (simp add: range_size_def unat_lt_64)

lemma tracking_bytes_bound: "tracking_bytes s \<le> 18446744073709551616"
  using range_size_bound [of s] by (simp add: tracking_bytes_def)

lemma refcount_bytes_bound: "refcount_bytes s \<le> 18446744073709551616"
  using range_size_bound [of s] by (simp add: refcount_bytes_def)

lemma tracking_index_sub:
  fixes p :: u64
  assumes "geom s" and "inpage s t"
  shows "region (elem p 8 (unat (PM_TRACKING_INDEX (t - rstart (pagingRange s))))) 8
     \<subseteq> region p (tracking_bytes s)"
proof (rule region_elem_sub)
  have "unat (t - rstart (pagingRange s)) div 0x40000 \<le> range_size s div 0x40000"
    using offset_less [OF assms] by (intro div_le_mono) simp
  then show "8 * Suc (unat (PM_TRACKING_INDEX (t - rstart (pagingRange s)))) \<le> tracking_bytes s"
    by (simp add: PM_TRACKING_INDEX_def unat_shr tracking_bytes_def)
qed (use tracking_bytes_bound in simp_all)

lemma refcount_index_sub:
  fixes p :: u64
  assumes "geom s" and "inpage s t"
  shows "region (elem p 2 (unat (PM_REFCOUNT_INDEX (t - rstart (pagingRange s))))) 2
     \<subseteq> region p (refcount_bytes s)"
proof (rule region_elem_sub)
  have "unat (t - rstart (pagingRange s)) div 0x1000 \<le> range_size s div 0x1000"
    using offset_less [OF assms] by (intro div_le_mono) simp
  then show "2 * Suc (unat (PM_REFCOUNT_INDEX (t - rstart (pagingRange s)))) \<le> refcount_bytes s"
    by (simp add: PM_REFCOUNT_INDEX_def unat_shr refcount_bytes_def)
qed (use refcount_bytes_bound in simp_all)

section \<open>What one store does\<close>

lemma aligned_entry_store:
  assumes "t AND 0xFFF = 0" and "t' AND 0xFFF = 0" and "i < 512" and "i' < 512"
  shows "at64 (put64 s t i v) t' i' = (if t = t' \<and> i = i' then v else at64 s t' i')"
proof (cases "t = t'")
  case True
  have "8 * Suc (unat i) \<le> 2 ^ 64" "8 * Suc (unat i') \<le> 2 ^ 64"
    using assms by (simp_all add: word_less_nat_alt)
  then show ?thesis using True
    by (simp add: at64_def elem_word c64.ld_elem_st_elem word_unat_eq_iff [of i i'])
next
  case False
  have "region (elem t 8 (unat i)) 8 \<inter> region (elem t' 8 (unat i')) 8 = {}"
    using pages_disjoint [OF assms(1,2) False] page_entry_sub [OF assms(3), of t]
      page_entry_sub [OF assms(4), of t'] by blast
  then show ?thesis using False by (simp add: at64_def elem_word c64.ld_st_disjoint)
qed

text \<open>A page of tables and the two arrays do not see each other's stores.\<close>

lemma entry_frame:
  assumes "geom s" and "inpage s t" and "i < 512"
    and "\<And>x. x \<in> region (rstart (pagingRange s)) (range_size s) \<Longrightarrow> m x = m' x"
  shows "ld64 m (t + 8 * i) = ld64 m' (t + 8 * i)"
  using assms page_in_range [OF assms(1,2)] page_entry_sub [OF assms(3), of t]
  by (simp only: elem_word) (intro c64.ld_cong, blast)

lemma tracked_frame:
  assumes "geom s" and "inpage s t"
    and "\<And>x. x \<in> region (trackingStructure s) (tracking_bytes s) \<Longrightarrow> mem s x = mem s' x"
    and "only_mem s s'"
  shows "tracked s' t = tracked s t"
proof -
  have "ld64 (mem s') (trackingStructure s + 8 * PM_TRACKING_INDEX (t - rstart (pagingRange s))) =
      ld64 (mem s) (trackingStructure s + 8 * PM_TRACKING_INDEX (t - rstart (pagingRange s)))"
    by (simp only: elem_word)
      (intro c64.ld_cong assms(3) [symmetric] subsetD [OF tracking_index_sub [OF assms(1,2)]])
  then show ?thesis by (simp add: tracked_def at64_def only_mem_fields [OF assms(4)])
qed

lemma refs_frame:
  assumes "geom s" and "inpage s t"
    and "\<And>x. x \<in> region (refcountStructure s) (refcount_bytes s) \<Longrightarrow> mem s x = mem s' x"
    and "only_mem s s'"
  shows "refs s' t = refs s t"
proof -
  have "ld16 (mem s') (refcountStructure s + 2 * PM_REFCOUNT_INDEX (t - rstart (pagingRange s))) =
      ld16 (mem s) (refcountStructure s + 2 * PM_REFCOUNT_INDEX (t - rstart (pagingRange s)))"
    by (simp only: elem_word)
      (intro c16.ld_cong assms(3) [symmetric] subsetD [OF refcount_index_sub [OF assms(1,2)]])
  then show ?thesis by (simp add: refs_def at16_def only_mem_fields [OF assms(4)])
qed

text \<open>A store to an entry of a table.\<close>

lemma entry_store_frame:
  assumes "geom s" and "inpage s t" and "i < 512" and "x \<notin> region (rstart (pagingRange s)) (range_size s)"
  shows "mem (put64 s t i v) x = mem s x"
  using assms page_in_range [OF assms(1,2)] page_entry_sub [OF assms(3), of t]
  by (simp only: put_fields elem_word) (intro c64.st_frame, blast)

lemma put_entry:
  assumes "geom s" and "inpage s t" and "i < 512"
  shows "inpage s t' \<Longrightarrow> i' < 512 \<Longrightarrow>
      at64 (put64 s t i v) t' i' = (if t = t' \<and> i = i' then v else at64 s t' i')"
    and "inpage s a \<Longrightarrow> tracked (put64 s t i v) a = tracked s a"
    and "inpage s a \<Longrightarrow> refs (put64 s t i v) a = refs s a"
proof -
  show "at64 (put64 s t i v) t' i' = (if t = t' \<and> i = i' then v else at64 s t' i')"
    if "inpage s t'" "i' < 512"
    using assms that by (intro aligned_entry_store) (simp_all add: inpage_def)
  show "tracked (put64 s t i v) a = tracked s a" if "inpage s a"
    using assms that entry_store_frame [OF assms, of _ v, symmetric]
    by (intro tracked_frame) (auto simp: geom_def simp del: put_fields(4))
  show "refs (put64 s t i v) a = refs s a" if "inpage s a"
    using assms that entry_store_frame [OF assms, of _ v, symmetric]
    by (intro refs_frame) (auto simp: geom_def simp del: put_fields(4))
qed

text \<open>The bit of a page in the bit field.\<close>

definition tracking_shift :: "u64 \<Rightarrow> nat" where
  "tracking_shift addr = unat (drop_bit 12 addr AND 0x3F)"

lemma tracking_shift_eq: "tracking_shift addr = unat addr div 4096 mod 64"
  by (simp add: tracking_shift_def unat_and_lit unat_shr)

lemma tracking_bit_iff: "w AND PM_TRACKING_BIT addr \<noteq> 0 \<longleftrightarrow> bit w (tracking_shift addr)"
  unfolding PM_TRACKING_BIT_def tracking_shift_def [symmetric]
  by (intro and_one_bit_iff) (simp add: tracking_shift_eq less_le_trans [OF mod_less_divisor])

lemma tracking_key_inj:
  assumes "4096 dvd unat a" and "4096 dvd unat b"
    and "PM_TRACKING_INDEX a = PM_TRACKING_INDEX b" and "tracking_shift a = tracking_shift b"
  shows "a = b"
proof -
  obtain p q where pq: "unat a = 4096 * p" "unat b = 4096 * q" using assms(1,2) by (auto elim!: dvdE)
  have "unat a div 0x40000 = unat b div 0x40000"
    using assms(3) by (simp add: PM_TRACKING_INDEX_def word_unat_eq_iff unat_shr)
  moreover have "4096 * n div 0x40000 = n div 64" for n :: nat
    using div_mult_mult1 [of 4096 n 64] by simp
  ultimately have "p div 64 = q div 64" using pq by metis
  moreover have "p mod 64 = q mod 64" using assms(4) pq by (simp add: tracking_shift_eq)
  ultimately have "p = q" by (metis div_mult_mod_eq)
  then show ?thesis using pq by (simp add: word_unat_eq_iff)
qed

lemma bit_or_tracking: "bit (w OR PM_TRACKING_BIT a) n \<longleftrightarrow> bit w n \<or> n = tracking_shift a"
proof -
  have "tracking_shift a < 64" by (simp add: tracking_shift_eq)
  then show ?thesis
    by (auto simp: PM_TRACKING_BIT_def tracking_shift_def [symmetric] bit_simps)
qed

lemma bit_clear_tracking:
  "n < 64 \<Longrightarrow> bit (w AND NOT (PM_TRACKING_BIT a)) n \<longleftrightarrow> bit w n \<and> n \<noteq> tracking_shift a"
  by (auto simp: PM_TRACKING_BIT_def tracking_shift_def [symmetric] bit_simps)

text \<open>A store to the bit field.\<close>

definition tracking_cell :: "pmst \<Rightarrow> u64 \<Rightarrow> u64" where
  "tracking_cell s t =
     at64 s (trackingStructure s) (PM_TRACKING_INDEX (t - rstart (pagingRange s)))"

definition put_tracking :: "pmst \<Rightarrow> u64 \<Rightarrow> u64 \<Rightarrow> pmst" where
  "put_tracking s t v =
     put64 s (trackingStructure s) (PM_TRACKING_INDEX (t - rstart (pagingRange s))) v"

lemma only_mem_put_tracking [simp]: "only_mem s (put_tracking s t v)"
  by (simp add: put_tracking_def)

lemma put_tracking_fields [simp]: "pagingRange (put_tracking s t v) = pagingRange s"
  by (simp add: put_tracking_def)

lemma tracked_iff:
  "tracked s t \<longleftrightarrow> bit (tracking_cell s t) (tracking_shift (t - rstart (pagingRange s)))"
  by (simp add: tracked_def tracking_cell_def tracking_bit_iff)

lemma tracking_store_frame:
  assumes "geom s" and "inpage s t" and "x \<notin> region (trackingStructure s) (tracking_bytes s)"
  shows "mem (put_tracking s t v) x = mem s x"
  using assms tracking_index_sub [OF assms(1,2), of "trackingStructure s"]
  by (simp only: put_tracking_def put_fields elem_word) (intro c64.st_frame, blast)

lemma put_tracking_cell:
  assumes "geom s" and "inpage s t" and "inpage s a"
  shows "tracking_cell (put_tracking s t v) a =
     (if PM_TRACKING_INDEX (a - rstart (pagingRange s)) = PM_TRACKING_INDEX (t - rstart (pagingRange s))
      then v else tracking_cell s a)"
proof -
  have b: "8 * Suc (unat (PM_TRACKING_INDEX z)) \<le> 2 ^ 64" for z
  proof -
    have "unat z div 2 ^ 18 \<le> 2 ^ 46"
      using unat_lt_64 [of z] by simp
    then show ?thesis by (simp add: PM_TRACKING_INDEX_def unat_shr)
  qed
  show ?thesis
    using b [of "t - rstart (pagingRange s)"] b [of "a - rstart (pagingRange s)"]
    by (auto simp: put_tracking_def tracking_cell_def at64_def elem_word c64.ld_elem_st_elem word_unat_eq_iff
        [of "PM_TRACKING_INDEX _"])
qed

lemma put_tracking:
  assumes "geom s" and "inpage s t"
  shows "inpage s t' \<Longrightarrow> i' < 512 \<Longrightarrow> at64 (put_tracking s t v) t' i' = at64 s t' i'"
    and "inpage s a \<Longrightarrow> refs (put_tracking s t v) a = refs s a"
proof -
  note fr = tracking_store_frame [OF assms, of _ v]
  show "at64 (put_tracking s t v) t' i' = at64 s t' i'" if "inpage s t'" "i' < 512"
    unfolding at64_def using that assms
    by (intro entry_frame fr) (auto simp: geom_def)
  show "refs (put_tracking s t v) a = refs s a" if "inpage s a"
    using that assms by (intro refs_frame fr [symmetric]) (auto simp: geom_def)
qed

lemma key_inj_pages:
  assumes "geom s" and "inpage s t" and "inpage s a"
    and "PM_TRACKING_INDEX (a - rstart (pagingRange s)) = PM_TRACKING_INDEX (t - rstart (pagingRange s))"
    and "tracking_shift (a - rstart (pagingRange s)) = tracking_shift (t - rstart (pagingRange s))"
  shows "a = t"
proof -
  have "a - rstart (pagingRange s) = t - rstart (pagingRange s)"
    by (rule tracking_key_inj [OF page_dvd_diff page_dvd_diff assms(4,5)])
      (use assms(1-3) in \<open>simp_all add: inpage_def geom_def\<close>)
  then show ?thesis by simp
qed

lemma tracking_cell_cong:
  "PM_TRACKING_INDEX (a - rstart (pagingRange s)) = PM_TRACKING_INDEX (t - rstart (pagingRange s)) \<Longrightarrow>
   tracking_cell s a = tracking_cell s t"
  by (simp add: tracking_cell_def)

lemma tracked_set:
  assumes "geom s" and "inpage s t" and "inpage s a"
  shows "tracked (put_tracking s t (tracking_cell s t OR PM_TRACKING_BIT (t - rstart (pagingRange s)))) a
     \<longleftrightarrow> a = t \<or> tracked s a"
  using key_inj_pages [OF assms] tracking_cell_cong [of a s t]
  by (auto simp: tracked_iff put_tracking_cell [OF assms] bit_or_tracking)

lemma tracked_clear:
  assumes "geom s" and "inpage s t" and "inpage s a"
  shows "tracked (put_tracking s t (tracking_cell s t AND NOT (PM_TRACKING_BIT (t - rstart (pagingRange s))))) a
     \<longleftrightarrow> a \<noteq> t \<and> tracked s a"
proof -
  have "tracking_shift (a - rstart (pagingRange s)) < 64" by (simp add: tracking_shift_eq)
  then show ?thesis using key_inj_pages [OF assms] tracking_cell_cong [of a s t]
    by (auto simp: tracked_iff put_tracking_cell [OF assms] bit_clear_tracking)
qed

text \<open>A store to the counters.\<close>

definition put_refs :: "pmst \<Rightarrow> u64 \<Rightarrow> u16 \<Rightarrow> pmst" where
  "put_refs s t v =
     put16 s (refcountStructure s) (PM_REFCOUNT_INDEX (t - rstart (pagingRange s))) v"

lemma only_mem_put_refs [simp]: "only_mem s (put_refs s t v)"
  by (simp add: put_refs_def)

lemma put_refs_fields [simp]: "pagingRange (put_refs s t v) = pagingRange s"
  by (simp add: put_refs_def)

lemma refs_store_frame:
  assumes "geom s" and "inpage s t" and "x \<notin> region (refcountStructure s) (refcount_bytes s)"
  shows "mem (put_refs s t v) x = mem s x"
  using assms refcount_index_sub [OF assms(1,2), of "refcountStructure s"]
  by (simp only: put_refs_def put_fields elem_word) (intro c16.st_frame, blast)

lemma refs_index_inj:
  assumes "geom s" and "inpage s t" and "inpage s a"
    and "PM_REFCOUNT_INDEX (a - rstart (pagingRange s)) = PM_REFCOUNT_INDEX (t - rstart (pagingRange s))"
  shows "a = t"
proof -
  have d: "4096 dvd unat (a - rstart (pagingRange s))" "4096 dvd unat (t - rstart (pagingRange s))"
    using assms by (simp_all add: inpage_def geom_def page_dvd_diff)
  have "unat (a - rstart (pagingRange s)) div 4096 = unat (t - rstart (pagingRange s)) div 4096"
    using assms(4) by (simp add: PM_REFCOUNT_INDEX_def word_unat_eq_iff unat_shr)
  then have "unat (a - rstart (pagingRange s)) = unat (t - rstart (pagingRange s))"
    using d by (metis dvd_div_mult_self)
  then have "a - rstart (pagingRange s) = t - rstart (pagingRange s)" by (simp add: word_unat_eq_iff)
  then show ?thesis by simp
qed

lemma put_refs:
  assumes "geom s" and "inpage s t"
  shows "inpage s t' \<Longrightarrow> i' < 512 \<Longrightarrow> at64 (put_refs s t v) t' i' = at64 s t' i'"
    and "inpage s a \<Longrightarrow> tracked (put_refs s t v) a = tracked s a"
    and "inpage s a \<Longrightarrow> refs (put_refs s t v) a = (if a = t then v else refs s a)"
proof -
  note fr = refs_store_frame [OF assms, of _ v]
  show "at64 (put_refs s t v) t' i' = at64 s t' i'" if "inpage s t'" "i' < 512"
    unfolding at64_def using that assms
    by (intro entry_frame fr) (auto simp: geom_def)
  show "tracked (put_refs s t v) a = tracked s a" if "inpage s a"
    using that assms by (intro tracked_frame fr [symmetric]) (auto simp: geom_def)
  show "refs (put_refs s t v) a = (if a = t then v else refs s a)" if a: "inpage s a"
  proof -
    have b: "2 * Suc (unat (PM_REFCOUNT_INDEX z)) \<le> 2 ^ 64" for z
      using unat_lt_64 [of z] by (simp add: PM_REFCOUNT_INDEX_def unat_shr)
    show ?thesis
      using b [of "t - rstart (pagingRange s)"] b [of "a - rstart (pagingRange s)"]
        refs_index_inj [OF assms a]
      by (auto simp: put_refs_def refs_def at16_def elem_word c16.ld_elem_st_elem word_unat_eq_iff
          [of "PM_REFCOUNT_INDEX _"])
  qed
qed

text \<open>Clearing a page.\<close>

lemma clear_page:
  assumes "geom s" and "inpage s t"
  defines "s' \<equiv> s\<lparr>mem := memset (mem s) t 0 0x1000\<rparr>"
  shows "inpage s t' \<Longrightarrow> i' < 512 \<Longrightarrow> at64 s' t' i' = (if t' = t then 0 else at64 s t' i')"
    and "inpage s a \<Longrightarrow> tracked s' a = tracked s a"
    and "inpage s a \<Longrightarrow> refs s' a = refs s a"
proof -
  have fr: "mem s' x = mem s x" if "x \<notin> region (rstart (pagingRange s)) (range_size s)" for x
    using that page_in_range [OF assms(1,2)] by (auto simp: s'_def memset_apply)
  show "at64 s' t' i' = (if t' = t then 0 else at64 s t' i')" if t': "inpage s t'" "i' < 512"
  proof (cases "t' = t")
    case True
    have "region (t + 8 * i') 8 \<subseteq> region t (unat (0x1000 :: u64))"
      using page_entry_sub [OF t'(2), of t] by (simp add: elem_word)
    then show ?thesis using True by (simp add: s'_def at64_def ld64_memset_zero)
  next
    case False
    then have "region t' 4096 \<inter> region t 4096 = {}"
      using assms(2) t'(1) by (intro pages_disjoint) (simp_all add: inpage_def)
    then have "ld64 (mem s') (t' + 8 * i') = ld64 (mem s) (t' + 8 * i')"
      using page_entry_sub [OF t'(2), of t']
      by (simp only: elem_word) (intro c64.ld_cong, auto simp: s'_def memset_apply)
    then show ?thesis using False by (simp add: at64_def)
  qed
  show "tracked s' a = tracked s a" if "inpage s a"
    using that assms fr by (intro tracked_frame fr [symmetric]) (auto simp: geom_def s'_def)
  show "refs s' a = refs s a" if "inpage s a"
    using that assms fr by (intro refs_frame fr [symmetric]) (auto simp: geom_def s'_def)
qed

section \<open>The operations on pages\<close>

text \<open>The state after \<open>alloc\<close> has taken the page \<open>t\<close>.\<close>

definition alloc_at :: "pmst \<Rightarrow> u64 \<Rightarrow> pmst" where
  "alloc_at s t =
     (let s1 = put_tracking s t (tracking_cell s t OR PM_TRACKING_BIT (t - rstart (pagingRange s))) in
      s1\<lparr>mem := memset (mem s1) t 0 0x1000\<rparr>)"

lemma only_mem_alloc_at [simp]: "only_mem s (alloc_at s t)"
  by (simp add: alloc_at_def Let_def put_tracking_def only_mem_def put64_def)

lemma alloc_at:
  assumes "geom s" and "inpage s t"
  shows "inpage s t' \<Longrightarrow> i' < 512 \<Longrightarrow> at64 (alloc_at s t) t' i' = (if t' = t then 0 else at64 s t' i')"
    and "inpage s a \<Longrightarrow> tracked (alloc_at s t) a = (a = t \<or> tracked s a)"
    and "inpage s a \<Longrightarrow> refs (alloc_at s t) a = refs s a"
proof -
  let ?s1 = "put_tracking s t (tracking_cell s t OR PM_TRACKING_BIT (t - rstart (pagingRange s)))"
  have o: "only_mem s ?s1" by simp
  have g: "geom ?s1" "inpage ?s1 t" "\<And>a. inpage ?s1 a = inpage s a"
    using assms by (simp_all add: only_mem_geom [OF o] only_mem_inpage [OF o])
  note c = clear_page [OF g(1,2), folded alloc_at_def [unfolded Let_def]]
  show "at64 (alloc_at s t) t' i' = (if t' = t then 0 else at64 s t' i')" if "inpage s t'" "i' < 512"
    using that assms by (simp add: c g put_tracking del: put_fields)
  show "tracked (alloc_at s t) a = (a = t \<or> tracked s a)" if "inpage s a"
    using that assms by (simp add: c g tracked_set del: put_fields)
  show "refs (alloc_at s t) a = refs s a" if "inpage s a"
    using that assms by (simp add: c g put_tracking del: put_fields)
qed

lemma next_page:
  assumes "geom s" and "inpage s t"
  shows "unat (t + 0x1000) = unat t + 0x1000" and "inpage s (t + 0x1000) \<or> t + 0x1000 = rend (pagingRange s)"
    and "inpage s a \<Longrightarrow> t \<le> a \<Longrightarrow> a = t \<or> t + 0x1000 \<le> a"
proof -
  have b: "unat t < unat (rend (pagingRange s))" "unat (rend (pagingRange s)) + 0x1000 \<le> 2 ^ 64"
    "4096 dvd unat t" "4096 dvd unat (rend (pagingRange s))"
    using assms by (simp_all add: inpage_def geom_def word_less_nat_alt and_fff_0)
  then show u: "unat (t + 0x1000) = unat t + 0x1000" by (subst unat_add_small) simp_all
  have "unat t + 4096 \<le> unat (rend (pagingRange s))"
    using b by (auto elim!: dvdE)
  then show "inpage s (t + 0x1000) \<or> t + 0x1000 = rend (pagingRange s)"
    using u b assms
    by (auto simp: inpage_def and_fff_0 word_less_nat_alt word_le_nat_alt word_unat_eq_iff [of "t + 0x1000"])
  show "a = t \<or> t + 0x1000 \<le> a" if "inpage s a" "t \<le> a"
  proof -
    have "4096 dvd unat a" using that by (simp add: inpage_def and_fff_0)
    then show ?thesis using that b u
      by (auto elim!: dvdE simp: word_le_nat_alt word_unat_eq_iff)
  qed
qed

lemma pm_alloc_loop_cases:
  assumes "geom s" and "inpage s addr \<or> addr = rend (pagingRange s)"
  shows "(\<exists>t. inpage s t \<and> addr \<le> t \<and> \<not> tracked s t \<and>
            (\<forall>a. inpage s a \<and> addr \<le> a \<and> a < t \<longrightarrow> tracked s a) \<and>
            pm_alloc_loop s addr = ret (Some t, alloc_at s t)) \<or>
         ((\<forall>a. inpage s a \<and> addr \<le> a \<longrightarrow> tracked s a) \<and> pm_alloc_loop s addr = ret (None, s))"
  using assms
proof (induction "unat (rend (pagingRange s)) - unat addr" arbitrary: addr rule: less_induct)
  case less
  note unfold = pm_alloc_loop.simps [of s addr]
  show ?case
  proof (cases "inpage s addr")
    case False
    then have "pm_alloc_loop s addr = ret (None, s)" "\<forall>a. inpage s a \<longrightarrow> \<not> addr \<le> a"
      using less.prems by (auto simp: unfold opt_none_def inpage_def)
    then show ?thesis by blast
  next
    case True
    then have lt: "addr < rend (pagingRange s)" by (simp add: inpage_def)
    show ?thesis
    proof (cases "tracked s addr")
      case False
      then have "pm_alloc_loop s addr = ret (Some addr, alloc_at s addr)"
        using lt by (simp add: unfold tracked_def opt_some_def alloc_at_def tracking_cell_def put_tracking_def Let_def del: put_fields)
      then show ?thesis using True False by auto
    next
      case tr: True
      then have step: "pm_alloc_loop s addr = pm_alloc_loop s (addr + 0x1000)"
        using lt by (simp add: unfold tracked_def Let_def)
      note nx = next_page [OF assms(1) True]
      have "unat (rend (pagingRange s)) - unat (addr + 0x1000) < unat (rend (pagingRange s)) - unat addr"
        using nx(1) lt by (simp add: word_less_nat_alt)
      note IH = less.hyps [OF this assms(1) nx(2)]
      have ge: "addr \<le> a" if "addr + 0x1000 \<le> a" for a
        using that nx(1) by (simp add: word_le_nat_alt)
      from IH nx(3) tr show ?thesis
        unfolding step by (metis ge)
    qed
  qed
qed

text \<open>\<open>alloc\<close> takes the first page that is not tracked, and fails only when there is none.\<close>

lemma pm_alloc_cases:
  assumes "geom s"
  obtains (some) t where "inpage s t" "\<not> tracked s t" "\<And>a. inpage s a \<Longrightarrow> a < t \<Longrightarrow> tracked s a"
      "pm_alloc s = ret (Some t, alloc_at s t)"
    | (none) "\<And>a. inpage s a \<Longrightarrow> tracked s a" "pm_alloc s = ret (None, s)"
proof -
  have "inpage s (rstart (pagingRange s)) \<or> rstart (pagingRange s) = rend (pagingRange s)"
    using assms by (auto simp: geom_def inpage_def)
  from pm_alloc_loop_cases [OF assms this] show ?thesis
    using that by (auto simp: pm_alloc_def inpage_def)
qed

lemma inpage_contains: "inpage s t \<Longrightarrow> rng_contains (pagingRange s) t"
  by (auto simp: inpage_def rng_contains_def)

lemma pm_incRefs_eq: "inpage s t \<Longrightarrow> pm_incRefs s t = ret (refs s t + 1, put_refs s t (refs s t + 1))"
  by (simp add: pm_incRefs_def inpage_contains refs_def put_refs_def Let_def) (simp add: inpage_def)

lemma pm_decRefs_eq:
  "inpage s t \<Longrightarrow> pm_decRefs s t =
     (if refs s t = 0 then ret (0, s) else ret (refs s t - 1, put_refs s t (refs s t - 1)))"
  by (simp add: pm_decRefs_def inpage_contains refs_def put_refs_def Let_def) (simp add: inpage_def)

lemma pm_free_eq:
  "pm_free s t = (if tracked s t
     then ret (put_tracking s t (tracking_cell s t AND NOT (PM_TRACKING_BIT (t - rstart (pagingRange s)))))
     else halt (AssertFail ''m_pagingTrackingStructure[idx] & bit''))"
  by (simp add: pm_free_def tracked_def tracking_cell_def put_tracking_def Let_def)

lemma pm_setAlloc_eq:
  "inpage s t \<Longrightarrow> pm_setAlloc s t =
     ret (put_tracking s t (tracking_cell s t OR PM_TRACKING_BIT (t - rstart (pagingRange s))))"
  by (simp add: pm_setAlloc_def inpage_contains tracking_cell_def put_tracking_def Let_def) (simp add: inpage_def)

section \<open>Where the code stores\<close>

text \<open>The addresses that belong to the paging state, and the steps that store nowhere else.\<close>

definition pt_region :: "pmst \<Rightarrow> u64 set" where
  "pt_region s = region (rstart (pagingRange s)) (range_size s) \<union>
     region (trackingStructure s) (tracking_bytes s) \<union> region (refcountStructure s) (refcount_bytes s)"

definition pt_only :: "pmst \<Rightarrow> pmst \<Rightarrow> bool" where
  "pt_only s s' \<longleftrightarrow> only_mem s s' \<and> (\<forall>x. x \<notin> pt_region s \<longrightarrow> mem s' x = mem s x)"

lemma pt_only_mem: "pt_only s s' \<Longrightarrow> only_mem s s'"
  by (simp add: pt_only_def)

lemma pt_only_frame: "pt_only s s' \<Longrightarrow> x \<notin> pt_region s \<Longrightarrow> mem s' x = mem s x"
  by (simp add: pt_only_def)

lemma only_mem_region: "only_mem s s' \<Longrightarrow> pt_region s' = pt_region s"
  by (simp add: pt_region_def only_mem_fields)

lemma pt_only_refl [simp]: "pt_only s s"
  by (simp add: pt_only_def)

lemma pt_only_trans: "pt_only s s' \<Longrightarrow> pt_only s' s'' \<Longrightarrow> pt_only s s''"
  unfolding pt_only_def using only_mem_trans only_mem_region by metis

lemma pt_only_put64: "geom s \<Longrightarrow> inpage s t \<Longrightarrow> i < 512 \<Longrightarrow> pt_only s (put64 s t i v)"
  using entry_store_frame [of s t i] by (auto simp: pt_only_def pt_region_def simp del: put_fields(4))

lemma pt_only_put_refs: "geom s \<Longrightarrow> inpage s t \<Longrightarrow> pt_only s (put_refs s t v)"
  using refs_store_frame [of s t] by (auto simp: pt_only_def pt_region_def)

lemma pt_only_put_tracking: "geom s \<Longrightarrow> inpage s t \<Longrightarrow> pt_only s (put_tracking s t v)"
  using tracking_store_frame [of s t] by (auto simp: pt_only_def pt_region_def)

lemma pt_only_clear: "geom s \<Longrightarrow> inpage s t \<Longrightarrow> pt_only s (s\<lparr>mem := memset (mem s) t 0 0x1000\<rparr>)"
  using page_in_range [of s t] by (auto simp: pt_only_def pt_region_def memset_apply)

lemma pt_only_alloc_at: "geom s \<Longrightarrow> inpage s t \<Longrightarrow> pt_only s (alloc_at s t)"
  unfolding alloc_at_def Let_def
  by (intro pt_only_trans [OF pt_only_put_tracking pt_only_clear])
    (simp_all add: only_mem_geom [OF only_mem_put_tracking] only_mem_inpage [OF only_mem_put_tracking])

lemmas pt_only_stores = pt_only_put64 pt_only_put_refs pt_only_put_tracking pt_only_alloc_at

end
