(* ===== verification/PagingMap.thy ===== *)
theory PagingMap
  imports PagingInv
begin

text \<open>
  The four-level tables as a tree.  A ghost labelling gives every page of the tree its place
  (\<open>Root\<close>, the PDPT under entry \<open>i\<close>, the PD under entries \<open>i\<close> and \<open>j\<close>); because a page has
  one label, no two tables of a tree share a page.  \<open>Pml4::map\<close> extends the tree by one leaf
  and changes no other, which is the contract \<open>get\<close> shows to the callers; the reference
  counts are the numbers of present entries.
\<close>

unbundle bit_operations_syntax

section \<open>Trees of tables\<close>

datatype role = NoRole | Root | PdptOf u64 | PdOf u64 u64

definition link :: "pmst \<Rightarrow> u64 \<Rightarrow> u64 \<Rightarrow> u64 option" where
  "link s t i = (if present (at64 s t i) then Some (entry_addr (at64 s t i)) else None)"

definition tree :: "pmst \<Rightarrow> u64 \<Rightarrow> (u64 \<Rightarrow> role) \<Rightarrow> bool" where
  "tree s p \<rho> \<longleftrightarrow>
     (\<forall>t. \<rho> t \<noteq> NoRole \<longrightarrow> inpage s t \<and> tracked s t) \<and>
     (\<forall>t. \<rho> t = Root \<longleftrightarrow> t = p) \<and>
     (\<forall>t i. \<rho> t = PdptOf i \<longleftrightarrow> i < 512 \<and> link s p i = Some t) \<and>
     (\<forall>t i j. \<rho> t = PdOf i j \<longleftrightarrow> j < 512 \<and> (\<exists>q. \<rho> q = PdptOf i \<and> link s q j = Some t))"

text \<open>The entry of a page directory that decides an address, if the tables above it exist.\<close>

definition leaf :: "pmst \<Rightarrow> u64 \<Rightarrow> u64 \<Rightarrow> u64 \<Rightarrow> u64 \<Rightarrow> u64 option" where
  "leaf s p i j k =
     Option.bind (link s p i) (\<lambda>q. Option.bind (link s q j) (\<lambda>d.
       if present (at64 s d k) then Some (at64 s d k) else None))"

lemma frame_addr_frame [simp]: "frame_addr (frame_addr v) = frame_addr v"
  by (simp add: frame_addr_def)

lemma index_frame [simp]:
  "pml4_index (frame_addr v) = pml4_index v" "pdpt_index (frame_addr v) = pdpt_index v"
  "pd_index (frame_addr v) = pd_index v"
  by (rule bit_word_eqI;
      use bit_imp_le_length [of v] in \<open>fastforce simp: pml4_index_def pdpt_index_def pd_index_def
        frame_addr_def mask_literals bit_simps\<close>)+

lemma pml4_get_leaf:
  "pml4_get s p v =
     map_option (\<lambda>e. frame_addr e OR (v AND 0x1FFFFF)) (leaf s p (pml4_index v) (pdpt_index v) (pd_index v))"
  by (simp add: pml4_get_def leaf_def link_def opt_some_def opt_none_def Let_def)

lemma index_bounds [simp]: "pdpt_index v < 512" "pd_index v < 512"
  by (simp_all add: pdpt_index_def pd_index_def word_less_nat_alt unat_and_lit)

lemma pml4_index_bound: "v < 0x1000000000000 \<Longrightarrow> pml4_index v < 512"
  by (simp add: pml4_index_def word_less_nat_alt unat_shr)

section \<open>Entries\<close>

lemma present_iff: "present e \<longleftrightarrow> bit e 0"
  by (simp add: present_def F_PRESENT_def and_1_iff)

lemma present_leaf [simp]: "present (a OR f OR F_PRESENT OR F_PS)" "present (a OR F_PRESENT OR F_RW)"
  by (simp_all add: present_iff bit_simps F_PRESENT_def)

lemma not_present_0 [simp]: "\<not> present 0"
  by (simp add: present_iff)

lemma bit_low_zero: "a AND 0xFFF = 0 \<Longrightarrow> n < 12 \<Longrightarrow> \<not> bit a n"
  for a :: u64
  by (auto simp: mask_literals bit_simps dest: arg_cong [of "a AND mask 12" _ "\<lambda>w. bit w n"])

lemma entry_addr_table [simp]:
  assumes "a AND 0xFFF = 0"
  shows "entry_addr (a OR F_PRESENT OR F_RW) = a"
proof (rule bit_word_eqI)
  fix n assume n: "n < LENGTH(64)"
  have "F_PRESENT OR F_RW = mask 2" by (simp add: F_PRESENT_def F_RW_def mask_eq_exp_minus_1)
  then show "bit (entry_addr (a OR F_PRESENT OR F_RW)) n = bit a n"
    using n bit_low_zero [OF assms, of n] by (auto simp: entry_addr_def mask_literals bit_simps or.assoc)
qed

section \<open>Changes that keep a tree\<close>

lemma tree_inpage: "tree s p \<rho> \<Longrightarrow> \<rho> t \<noteq> NoRole \<Longrightarrow> inpage s t"
  by (simp add: tree_def)

lemma tree_inpage_pdpt: "tree s p \<rho> \<Longrightarrow> \<rho> q = PdptOf i \<Longrightarrow> inpage s q"
  by (rule tree_inpage, assumption, simp)

lemma tree_tracked: "tree s p \<rho> \<Longrightarrow> \<rho> t \<noteq> NoRole \<Longrightarrow> tracked s t"
  by (simp add: tree_def)

lemma tree_root: "tree s p \<rho> \<Longrightarrow> \<rho> p = Root"
  by (simp add: tree_def)

lemma tree_pdpt: "tree s p \<rho> \<Longrightarrow> i < 512 \<Longrightarrow> link s p i = Some q \<Longrightarrow> \<rho> q = PdptOf i"
  by (simp add: tree_def)

lemma tree_pd: "tree s p \<rho> \<Longrightarrow> \<rho> q = PdptOf i \<Longrightarrow> j < 512 \<Longrightarrow> link s q j = Some d \<Longrightarrow> \<rho> d = PdOf i j"
  unfolding tree_def by metis

lemma tree_pdpt_iff: "tree s p \<rho> \<Longrightarrow> \<rho> q = PdptOf i \<longleftrightarrow> i < 512 \<and> link s p i = Some q"
  by (simp add: tree_def)

lemma tree_pd_iff:
  "tree s p \<rho> \<Longrightarrow> \<rho> d = PdOf i j \<longleftrightarrow> j < 512 \<and> (\<exists>q. \<rho> q = PdptOf i \<and> link s q j = Some d)"
  unfolding tree_def by metis

text \<open>Stores outside the root and the PDPTs of a tree, with no page given back, keep it.\<close>

lemma tree_cong:
  assumes "tree s p \<rho>" and "only_mem s s'"
    and tr: "\<And>t. inpage s t \<Longrightarrow> tracked s t \<Longrightarrow> tracked s' t"
    and eq: "\<And>t i. i < 512 \<Longrightarrow> \<rho> t = Root \<or> (\<exists>j. \<rho> t = PdptOf j) \<Longrightarrow> at64 s' t i = at64 s t i"
  shows "tree s' p \<rho>"
proof -
  have l: "link s' t i = link s t i" if "i < 512" "\<rho> t = Root \<or> (\<exists>j. \<rho> t = PdptOf j)" for t i
    using eq [OF that] by (simp add: link_def)
  have r: "\<rho> p = Root" using assms(1) by (rule tree_root)
  show ?thesis unfolding tree_def
  proof (intro conjI allI impI)
    fix t assume "\<rho> t \<noteq> NoRole"
    then show "inpage s' t" "tracked s' t"
      using assms(1) by (simp_all add: tree_inpage tree_tracked tr only_mem_inpage [OF assms(2)])
  next
    fix t show "\<rho> t = Root \<longleftrightarrow> t = p" using assms(1) by (simp add: tree_def)
  next
    fix t i show "\<rho> t = PdptOf i \<longleftrightarrow> i < 512 \<and> link s' p i = Some t"
      using tree_pdpt_iff [OF assms(1), of t i] l [of i p] r by auto
  next
    fix t i j show "\<rho> t = PdOf i j \<longleftrightarrow> j < 512 \<and> (\<exists>q. \<rho> q = PdptOf i \<and> link s' q j = Some t)"
      using tree_pd_iff [OF assms(1), of t i j] l [of j] by auto
  qed
qed

text \<open>The pages a leaf is read from.\<close>

lemma leaf_eq:
  assumes "tree s p \<rho>" and "i < 512" and "j < 512"
  shows "leaf s p i j k = (case link s p i of None \<Rightarrow> None | Some q \<Rightarrow>
     (case link s q j of None \<Rightarrow> None | Some d \<Rightarrow> if present (at64 s d k) then Some (at64 s d k) else None))"
  by (auto simp: leaf_def split: option.splits)

lemma leaf_cong:
  assumes "tree s p \<rho>" and "i < 512" and "j < 512"
    and eq: "\<And>t i. i < 512 \<Longrightarrow> \<rho> t = Root \<or> (\<exists>j. \<rho> t = PdptOf j) \<Longrightarrow> at64 s' t i = at64 s t i"
    and pd: "\<And>d. \<rho> d = PdOf i j \<Longrightarrow> at64 s' d k = at64 s d k"
  shows "leaf s' p i j k = leaf s p i j k"
proof -
  have p: "link s' p i = link s p i"
    using eq [of i p] assms(2) tree_root [OF assms(1)] by (simp add: link_def)
  show ?thesis
  proof (cases "link s p i")
    case None then show ?thesis using p by (simp add: leaf_def)
  next
    case (Some q)
    then have q: "\<rho> q = PdptOf i" using tree_pdpt assms by blast
    then have l: "link s' q j = link s q j" using eq [of j q] assms(3) by (simp add: link_def)
    show ?thesis
    proof (cases "link s q j")
      case None then show ?thesis using p Some l by (simp add: leaf_def)
    next
      case (Some d)
      then have "\<rho> d = PdOf i j" using tree_pd [OF assms(1) q assms(3)] by blast
      then show ?thesis using p \<open>link s p i = Some q\<close> l Some pd by (simp add: leaf_def)
    qed
  qed
qed

text \<open>A store to a page that is not in the tree.\<close>

lemma tree_put_fresh:
  assumes "geom s" and "tree s p \<rho>" and "\<rho> a = NoRole" and "inpage s a" and "k < 512"
  shows "tree (put64 s a k e) p \<rho>"
    and "i < 512 \<Longrightarrow> j < 512 \<Longrightarrow> k' < 512 \<Longrightarrow> leaf (put64 s a k e) p i j k' = leaf s p i j k'"
proof -
  have eq: "at64 (put64 s a k e) t i = at64 s t i" if "i < 512" "\<rho> t \<noteq> NoRole" for t i
    using that assms tree_inpage [OF assms(2)] by (auto simp: put_entry(1))
  show "tree (put64 s a k e) p \<rho>"
    by (rule tree_cong [OF assms(2)]) (auto simp: put_entry(2) assms intro!: eq)
  show "leaf (put64 s a k e) p i j k' = leaf s p i j k'" if "i < 512" "j < 512" "k' < 512"
    by (rule leaf_cong [OF assms(2)]) (auto simp: that intro!: eq)
qed

lemma tree_alloc_at:
  assumes "geom s" and "tree s p \<rho>" and "inpage s a" and "\<not> tracked s a"
  shows "tree (alloc_at s a) p \<rho>" and "\<rho> a = NoRole"
    and "i < 512 \<Longrightarrow> j < 512 \<Longrightarrow> k < 512 \<Longrightarrow> leaf (alloc_at s a) p i j k = leaf s p i j k"
proof -
  show n: "\<rho> a = NoRole" using assms tree_tracked by blast
  then have eq: "at64 (alloc_at s a) t i = at64 s t i" if "i < 512" "\<rho> t \<noteq> NoRole" for t i
    using that assms tree_inpage [OF assms(2)] by (auto simp: alloc_at(1))
  show "tree (alloc_at s a) p \<rho>"
    by (rule tree_cong [OF assms(2)]) (auto simp: alloc_at(2) assms intro!: eq)
  show "leaf (alloc_at s a) p i j k = leaf s p i j k" if "i < 512" "j < 512" "k < 512"
    by (rule leaf_cong [OF assms(2)]) (auto simp: that intro!: eq)
qed

lemma tree_put_refs:
  assumes "geom s" and "tree s p \<rho>" and "inpage s a"
  shows "tree (put_refs s a n) p \<rho>"
    and "i < 512 \<Longrightarrow> j < 512 \<Longrightarrow> k < 512 \<Longrightarrow> leaf (put_refs s a n) p i j k = leaf s p i j k"
proof -
  have eq: "at64 (put_refs s a n) t i = at64 s t i" if "i < 512" "\<rho> t \<noteq> NoRole" for t i
    using that assms tree_inpage [OF assms(2)] by (auto simp: put_refs(1))
  show "tree (put_refs s a n) p \<rho>"
    by (rule tree_cong [OF assms(2)]) (auto simp: put_refs(2) assms intro!: eq)
  show "leaf (put_refs s a n) p i j k = leaf s p i j k" if "i < 512" "j < 512" "k < 512"
    by (rule leaf_cong [OF assms(2)]) (auto simp: that intro!: eq)
qed

text \<open>A store to a page directory of the tree sets one leaf.\<close>

lemma tree_put_pd:
  assumes "geom s" and "tree s p \<rho>" and d: "\<rho> d = PdOf i j" and "k < 512" and "present e"
  shows "tree (put64 s d k e) p \<rho>"
    and "i' < 512 \<Longrightarrow> j' < 512 \<Longrightarrow> k' < 512 \<Longrightarrow>
      leaf (put64 s d k e) p i' j' k' = (if i' = i \<and> j' = j \<and> k' = k then Some e else leaf s p i' j' k')"
proof -
  have dp: "inpage s d" using assms tree_inpage by fastforce
  have eq: "at64 (put64 s d k e) t i = (if t = d \<and> i = k then e else at64 s t i)"
    if "i < 512" "\<rho> t \<noteq> NoRole" for t i
    using that assms tree_inpage [OF assms(2)] dp by (auto simp: put_entry(1))
  show tr: "tree (put64 s d k e) p \<rho>"
    using d by (intro tree_cong [OF assms(2)]) (auto simp: put_entry(2) assms dp eq)
  assume b: "i' < 512" "j' < 512" "k' < 512"
  show "leaf (put64 s d k e) p i' j' k' = (if i' = i \<and> j' = j \<and> k' = k then Some e else leaf s p i' j' k')"
  proof (cases "i' = i \<and> j' = j \<and> k' = k")
    case False
    then show ?thesis using d b
      by (subst leaf_cong [OF assms(2)]) (auto simp: eq)
  next
    case True
    obtain q where q: "\<rho> q = PdptOf i" "link s q j = Some d" "j < 512"
      using d tree_pd_iff [OF assms(2)] by blast
    then have l: "link s p i = Some q" "i < 512" using tree_pdpt_iff [OF assms(2)] by blast+
    have "link (put64 s d k e) p i = Some q" "link (put64 s d k e) q j = Some d"
      using l q d tree_root [OF assms(2)] by (auto simp: link_def eq split: if_splits)
    then show ?thesis using True b d assms(5) by (simp add: leaf_def eq)
  qed
qed

text \<open>Linking a fresh page directory under an empty entry of a PDPT of the tree.\<close>

lemma link_None_iff: "link s t i = None \<longleftrightarrow> \<not> present (at64 s t i)"
  by (simp add: link_def)

lemma link_put:
  assumes "geom s" and "inpage s t" and "inpage s a" and "inpage s t'" and "i < 512" and "i' < 512"
  shows "link (put64 s t i (a OR F_PRESENT OR F_RW)) t' i' = (if t' = t \<and> i' = i then Some a else link s t' i')"
  using assms by (auto simp: link_def put_entry(1) inpage_def)

lemma tree_link_pd:
  assumes g: "geom s" and t: "tree s p \<rho>" and q: "\<rho> q = PdptOf i" and j: "j < 512"
    and np: "link s q j = None" and a: "inpage s a" "tracked s a" "\<rho> a = NoRole"
  defines "s' \<equiv> put64 s q j (a OR F_PRESENT OR F_RW)"
  shows "tree s' p (\<rho>(a := PdOf i j))"
    and "i' < 512 \<Longrightarrow> j' < 512 \<Longrightarrow> k' < 512 \<Longrightarrow>
      leaf s' p i' j' k' = (if i' = i \<and> j' = j
        then if present (at64 s a k') then Some (at64 s a k') else None else leaf s p i' j' k')"
proof -
  have qi: "inpage s q" using t q by (auto intro: tree_inpage)
  have pi: "inpage s p" using t by (auto intro: tree_inpage simp: tree_root)
  have ne: "p \<noteq> q" "p \<noteq> a" "q \<noteq> a" using q a(3) tree_root [OF t] by auto
  have lp: "link s' p i' = link s p i'" if "i' < 512" for i'
    using that ne link_put [OF g qi a(1) pi j] by (simp add: s'_def)
  have lq: "link s' q' j' = (if q' = q \<and> j' = j then Some a else link s q' j')"
    if "\<rho> q' = PdptOf i'" "j' < 512" for q' i' j'
    using that link_put [OF g qi a(1) tree_inpage_pdpt [OF t that(1)] j that(2)] by (simp add: s'_def)
  have no: "link s q' j' \<noteq> Some a" if "\<rho> q' = PdptOf i'" "j' < 512" for q' i' j'
    using tree_pd [OF t that] a(3) by auto
  show "tree s' p (\<rho>(a := PdOf i j))" unfolding tree_def
  proof (intro conjI allI impI)
    fix z assume "(\<rho>(a := PdOf i j)) z \<noteq> NoRole"
    then show "inpage s' z" "tracked s' z"
      using a t tree_inpage [OF t, of z] tree_tracked [OF t, of z]
      by (auto simp: s'_def only_mem_inpage [OF only_mem_upd(2)] put_entry(2) g qi j split: if_splits)
  next
    fix z show "(\<rho>(a := PdOf i j)) z = Root \<longleftrightarrow> z = p" using ne t by (simp add: tree_def)
  next
    fix z i' show "(\<rho>(a := PdOf i j)) z = PdptOf i' \<longleftrightarrow> i' < 512 \<and> link s' p i' = Some z"
      using tree_pdpt_iff [OF t, of z i'] tree_pdpt_iff [OF t, of a i'] lp a(3) by auto
  next
    fix z i' j'
    show "(\<rho>(a := PdOf i j)) z = PdOf i' j' \<longleftrightarrow>
        j' < 512 \<and> (\<exists>q. (\<rho>(a := PdOf i j)) q = PdptOf i' \<and> link s' q j' = Some z)"
    proof (cases "j' < 512")
      case True
      have "(\<exists>q. (\<rho>(a := PdOf i j)) q = PdptOf i' \<and> link s' q j' = Some z) \<longleftrightarrow>
          (\<exists>y. \<rho> y = PdptOf i' \<and> (if y = q \<and> j' = j then Some a else link s y j') = Some z)"
        using lq [OF _ True] a(3) by (intro ex_cong1) auto
      also have "\<dots> \<longleftrightarrow> (\<rho>(a := PdOf i j)) z = PdOf i' j'"
      proof (cases "z = a")
        case True
        then show ?thesis using no [OF _ \<open>j' < 512\<close>] q by auto
      next
        case False
        then have "(if y = q \<and> j' = j then Some a else link s y j') = Some z \<longleftrightarrow> link s y j' = Some z" for y
          using np by auto
        then show ?thesis using False True tree_pd_iff [OF t, of z i' j'] by simp
      qed
      finally show ?thesis using True by simp
    next
      case False
      then show ?thesis using tree_pd_iff [OF t, of z i' j'] j by auto
    qed
  qed
  assume b: "i' < 512" "j' < 512" "k' < 512"
  have at: "at64 s' d k' = at64 s d k'" if "\<rho> d = PdOf i' j' \<or> d = a" for d
    using that q b a(1) t ne tree_inpage [OF t, of d] by (auto simp: s'_def put_entry(1) g qi j)
  show "leaf s' p i' j' k' = (if i' = i \<and> j' = j
      then if present (at64 s a k') then Some (at64 s a k') else None else leaf s p i' j' k')"
  proof (cases "link s p i'")
    case None
    then show ?thesis using lp b q tree_pdpt_iff [OF t, of q i] by (auto simp: leaf_def)
  next
    case (Some q')
    then have q': "\<rho> q' = PdptOf i'" using tree_pdpt [OF t b(1)] by blast
    have qq: "q' = q \<longleftrightarrow> i' = i"
      using q q' Some tree_pdpt_iff [OF t, of q i] by auto
    show ?thesis
    proof (cases "i' = i \<and> j' = j")
      case True
      then show ?thesis using Some lp b lq [OF q' b(2)] qq by (simp add: leaf_def at)
    next
      case False
      have "at64 s' d k' = at64 s d k'" if "link s q' j' = Some d" for d
        using tree_pd [OF t q' b(2) that] by (simp add: at)
      then show ?thesis using Some lp b lq [OF q' b(2)] qq False
        by (cases "link s q' j'") (auto simp: leaf_def)
    qed
  qed
qed

text \<open>Linking a fresh PDPT, with one fresh page directory under it, under the root.\<close>

lemma tree_link_pdpt:
  assumes g: "geom s" and t: "tree s p \<rho>" and i: "i < 512" and np: "link s p i = None"
    and a: "inpage s a" "tracked s a" "\<rho> a = NoRole" and d: "inpage s d" "tracked s d" "\<rho> d = NoRole"
    and ad: "a \<noteq> d" and j: "j < 512" and la: "\<And>j'. j' < 512 \<Longrightarrow> link s a j' = (if j' = j then Some d else None)"
  defines "s' \<equiv> put64 s p i (a OR F_PRESENT OR F_RW)"
  shows "tree s' p (\<rho>(a := PdptOf i, d := PdOf i j))"
    and "i' < 512 \<Longrightarrow> j' < 512 \<Longrightarrow> k' < 512 \<Longrightarrow>
      leaf s' p i' j' k' = (if i' = i
        then if j' = j \<and> present (at64 s d k') then Some (at64 s d k') else None else leaf s p i' j' k')"
proof -
  have pi: "inpage s p" using t by (auto intro: tree_inpage simp: tree_root)
  have ne: "p \<noteq> a" "p \<noteq> d" using a(3) d(3) tree_root [OF t] by auto
  have lp: "link s' p i' = (if i' = i then Some a else link s p i')" if "i' < 512" for i'
    using that link_put [OF g pi a(1) pi i] by (simp add: s'_def)
  have lq: "link s' q j' = link s q j'" if "\<rho> q = PdptOf i' \<or> q = a" "j' < 512" for q i' j'
    using that ne tree_root [OF t] link_put [OF g pi a(1) _ i] a(1) tree_inpage_pdpt [OF t, of q i']
    by (auto simp: s'_def)
  have nop: "link s p i' \<noteq> Some z" if "\<rho> z = NoRole" "i' < 512" for z i'
    using tree_pdpt [OF t that(2)] that(1) by auto
  have noq: "link s q j' \<noteq> Some z" if "\<rho> q = PdptOf i'" "\<rho> z = NoRole" "j' < 512" for q z i' j'
    using tree_pd [OF t that(1,3)] that(2) by auto
  have nop': "\<rho> z \<noteq> PdptOf i" for z using tree_pdpt_iff [OF t, of z i] np by auto
  have nod': "\<rho> z \<noteq> PdOf i j'" for z j' using tree_pd_iff [OF t, of z i j'] nop' by auto
  let ?\<rho> = "\<rho>(a := PdptOf i, d := PdOf i j)"
  show "tree s' p ?\<rho>" unfolding tree_def
  proof (intro conjI allI impI)
    fix z assume "?\<rho> z \<noteq> NoRole"
    then show "inpage s' z" "tracked s' z"
      using a d t tree_inpage [OF t, of z] tree_tracked [OF t, of z]
      by (auto simp: s'_def only_mem_inpage [OF only_mem_upd(2)] put_entry(2) g pi i split: if_splits)
  next
    fix z show "?\<rho> z = Root \<longleftrightarrow> z = p" using ne t by (simp add: tree_def)
  next
    fix z i' show "?\<rho> z = PdptOf i' \<longleftrightarrow> i' < 512 \<and> link s' p i' = Some z"
      using tree_pdpt_iff [OF t, of z i'] lp i ad nop [OF a(3)] nop [OF d(3)] nop'
      by (auto split: if_splits)
  next
    fix z i' j'
    show "?\<rho> z = PdOf i' j' \<longleftrightarrow> j' < 512 \<and> (\<exists>q. ?\<rho> q = PdptOf i' \<and> link s' q j' = Some z)"
    proof (cases "i' = i")
      case True
      have "?\<rho> q = PdptOf i \<longleftrightarrow> q = a" for q using ad nop' by auto
      then show ?thesis using True lq la j ad nod' [of z j'] a(3) by (auto split: if_splits)
    next
      case False
      have "(\<exists>q. ?\<rho> q = PdptOf i' \<and> link s' q j' = Some z) \<longleftrightarrow>
          (\<exists>y. \<rho> y = PdptOf i' \<and> link s y j' = Some z)" if "j' < 512"
        using lq [OF _ that, where i' = i'] False a(3) d(3) by (intro ex_cong1) auto
      moreover have "?\<rho> z = PdOf i' j' \<longleftrightarrow> \<rho> z = PdOf i' j'"
        using False a(3) d(3) nod' by auto
      ultimately show ?thesis using tree_pd_iff [OF t, of z i' j'] by blast
    qed
  qed
  assume b: "i' < 512" "j' < 512" "k' < 512"
  have at: "at64 s' z k' = at64 s z k'" if "\<rho> z = PdOf i' j' \<or> z = d" for z
    using that b d(1) t ne tree_root [OF t] tree_inpage [OF t, of z] by (auto simp: s'_def put_entry(1) g pi i)
  show "leaf s' p i' j' k' = (if i' = i
      then if j' = j \<and> present (at64 s d k') then Some (at64 s d k') else None else leaf s p i' j' k')"
  proof (cases "i' = i")
    case True
    then show ?thesis using lp b lq la by (simp add: leaf_def at)
  next
    case False
    show ?thesis
    proof (cases "link s p i'")
      case None
      then show ?thesis using False lp b by (simp add: leaf_def)
    next
      case (Some q)
      then have q: "\<rho> q = PdptOf i'" using tree_pdpt [OF t b(1)] by blast
      have "at64 s' z k' = at64 s z k'" if "link s q j' = Some z" for z
        using tree_pd [OF t q b(2) that] by (simp add: at)
      moreover have "link s' q j' = link s q j'" using lq [of q i' j'] q b by simp
      ultimately show ?thesis using Some lp b False
        by (cases "link s q j'") (auto simp: leaf_def)
    qed
  qed
qed

section \<open>Reference counts\<close>

definition entries :: "pmst \<Rightarrow> u64 \<Rightarrow> nat" where
  "entries s t = card {k. k < 512 \<and> present (at64 s t k)}"

definition counted :: "pmst \<Rightarrow> (u64 \<Rightarrow> role) \<Rightarrow> bool" where
  "counted s \<rho> \<longleftrightarrow>
     (\<forall>t. \<rho> t \<noteq> NoRole \<and> \<rho> t \<noteq> Root \<longrightarrow> refs s t = of_nat (entries s t)) \<and>
     (\<forall>t. inpage s t \<and> \<not> tracked s t \<longrightarrow> refs s t = 0)"

lemma entries_cong: "(\<And>k. k < 512 \<Longrightarrow> at64 s' t k = at64 s t k) \<Longrightarrow> entries s' t = entries s t"
  unfolding entries_def by (metis (no_types, lifting))

lemma entries_put:
  assumes "geom s" and "inpage s t" and "k < 512" and "present e" and "inpage s t'"
    and "\<not> present (at64 s t k)"
  shows "entries (put64 s t k e) t' = (if t' = t then Suc (entries s t) else entries s t')"
proof (cases "t' = t")
  case True
  have "{k'. k' < 512 \<and> present (at64 (put64 s t k e) t k')} =
      insert k {k'. k' < 512 \<and> present (at64 s t k')}"
    using assms by (auto simp: put_entry(1))
  then show ?thesis using True assms by (simp add: entries_def)
next
  case False
  then show ?thesis using assms by (auto simp: put_entry(1) intro!: entries_cong)
qed

lemma entries_put_refs:
  "geom s \<Longrightarrow> inpage s t \<Longrightarrow> inpage s t' \<Longrightarrow> entries (put_refs s t n) t' = entries s t'"
  by (intro entries_cong) (simp add: put_refs(1))

lemma entries_alloc_at:
  "geom s \<Longrightarrow> inpage s t \<Longrightarrow> inpage s t' \<Longrightarrow>
   entries (alloc_at s t) t' = (if t' = t then 0 else entries s t')"
  by (auto simp: alloc_at(1) intro!: entries_cong) (simp add: entries_def alloc_at(1) cong: conj_cong)

lemma state_simps [simp]:
  "geom (put64 s p i v) = geom s" "inpage (put64 s p i v) t = inpage s t"
  "geom (put16 s p i w) = geom s" "inpage (put16 s p i w) t = inpage s t"
  "geom (alloc_at s a) = geom s" "inpage (alloc_at s a) t = inpage s t"
  "geom (put_refs s a w) = geom s" "inpage (put_refs s a w) t = inpage s t"
  "geom (put_tracking s a v) = geom s" "inpage (put_tracking s a v) t = inpage s t"
  by (rule only_mem_geom only_mem_inpage; simp)+

lemmas store_facts = put_entry put_refs alloc_at entries_put entries_put_refs entries_alloc_at

section \<open>What map does\<close>

definition free_pages :: "pmst \<Rightarrow> u64 set" where
  "free_pages s = {t. inpage s t \<and> \<not> tracked s t}"

definition extends ::
  "pmst \<Rightarrow> u64 \<Rightarrow> pmst \<Rightarrow> (u64 \<Rightarrow> role) \<Rightarrow> u64 \<Rightarrow> u64 \<Rightarrow> u64 \<Rightarrow> u64 \<Rightarrow> bool" where
  "extends s p s' \<rho>' i j k e \<longleftrightarrow>
     pt_only s s' \<and> tree s' p \<rho>' \<and> counted s' \<rho>' \<and>
     (\<exists>A. card A \<le> 2 \<and> finite A \<and> free_pages s' = free_pages s - A) \<and>
     (\<forall>i' j' k'. i' < 512 \<and> j' < 512 \<and> k' < 512 \<longrightarrow>
        leaf s' p i' j' k' = (if i' = i \<and> j' = j \<and> k' = k then Some e else leaf s p i' j' k'))"

text \<open>The entry goes into a page directory that is there.\<close>

lemma extends_in_pd:
  assumes g: "geom s" and t: "tree s p \<rho>" and c: "counted s \<rho>" and d: "\<rho> d = PdOf i j"
    and k: "k < 512" and e: "present e" and np: "\<not> present (at64 s d k)"
  shows "extends s p (put_refs (put64 s d k e) d (refs s d + 1)) \<rho> i j k e"
proof -
  define s1 where "s1 = put64 s d k e"
  define s2 where "s2 = put_refs s1 d (refs s d + 1)"
  have dp: "inpage s d" using t d by (auto intro: tree_inpage)
  have g1: "geom s1" "\<And>t. inpage s1 t = inpage s t" and g2: "\<And>t. inpage s2 t = inpage s t"
    using g by (simp_all add: s1_def s2_def)
  note t1 = tree_put_pd [OF g t d k e, folded s1_def]
  note t2 = tree_put_refs [where n = "refs s d + 1", OF g1(1) t1(1), unfolded g1(2), OF dp, folded s2_def]
  have o: "pt_only s s2" unfolding s2_def s1_def
    by (rule pt_only_trans [OF pt_only_put64 pt_only_put_refs]) (simp_all add: g dp k)
  have r: "refs s2 a = (if a = d then refs s d + 1 else refs s a)"
    "tracked s2 a = tracked s a" "entries s2 a = (if a = d then Suc (entries s d) else entries s a)"
    if "inpage s a" for a
    using that g dp k e np by (simp_all add: s2_def s1_def store_facts)
  have "counted s2 \<rho>" using c t tree_tracked [OF t, of d] d
    by (auto simp: counted_def g2 r tree_inpage d)
  moreover have "free_pages s2 = free_pages s - {}" by (auto simp: free_pages_def g2 r)
  ultimately show ?thesis using o t1 t2
    by (simp add: extends_def s2_def [symmetric] s1_def [symmetric]) (intro exI [of _ "{}"], simp)
qed

text \<open>A page directory is added under a PDPT that is there.\<close>

lemma extends_new_pd:
  assumes g: "geom s" and t: "tree s p \<rho>" and c: "counted s \<rho>" and q: "\<rho> q = PdptOf i"
    and j: "j < 512" and k: "k < 512" and e: "present e" and np: "link s q j = None"
    and a: "inpage s a" "\<not> tracked s a"
  defines "s2 \<equiv> put64 (put64 (alloc_at s a) a k e) q j (a OR F_PRESENT OR F_RW)"
  defines "s3 \<equiv> put_refs s2 a (refs s2 a + 1)"
  defines "s4 \<equiv> put_refs s3 q (refs s3 q + 1)"
  shows "extends s p s4 (\<rho>(a := PdOf i j)) i j k e"
proof -
  define s0 where "s0 = alloc_at s a"
  define s1 where "s1 = put64 s0 a k e"
  have s2: "s2 = put64 s1 q j (a OR F_PRESENT OR F_RW)" by (simp add: s2_def s1_def s0_def)
  have qp: "inpage s q" using t q by (rule tree_inpage_pdpt)
  have n: "\<rho> a = NoRole" using tree_alloc_at(2) [OF g t a] .
  have aq: "a \<noteq> q" using n q by auto
  have gs: "geom s0" "geom s1" "geom s2" "geom s3"
    and ps: "\<And>t. inpage s0 t = inpage s t" "\<And>t. inpage s1 t = inpage s t" "\<And>t. inpage s2 t = inpage s t"
      "\<And>t. inpage s3 t = inpage s t" "\<And>t. inpage s4 t = inpage s t"
    using g by (simp_all add: s0_def s1_def s2 s3_def s4_def)
  note t0 = tree_alloc_at [OF g t a, folded s0_def]
  note t1 = tree_put_fresh [where e = e, OF gs(1) t0(1) n, unfolded ps, OF a(1) k, folded s1_def]
  have np1: "link s1 q j = None"
    using np g a qp k j aq by (simp add: s1_def s0_def link_None_iff store_facts)
  have tr1: "tracked s1 a" using g a k by (simp add: s1_def s0_def store_facts)
  have at1: "at64 s1 a k' = (if k' = k then e else 0)" if "k' < 512" for k'
    using that g a k by (simp add: s1_def s0_def store_facts)
  note t2 = tree_link_pd [OF gs(2) t1(1) q j np1, unfolded ps, OF a(1) tr1 n, folded s2]
  note t3 = tree_put_refs [where n = "refs s2 a + 1", OF gs(3) t2(1), unfolded ps, OF a(1), folded s3_def]
  note t4 = tree_put_refs [where n = "refs s3 q + 1", OF gs(4) t3(1), unfolded ps, OF qp, folded s4_def]
  have np': "\<not> present (at64 s q j)" using np by (simp add: link_None_iff)
  have r: "refs s4 b = (if b = a \<or> b = q then refs s b + 1 else refs s b)"
    "tracked s4 b = (b = a \<or> tracked s b)"
    "entries s4 b = (if b = a then 1 else if b = q then Suc (entries s q) else entries s b)"
    if b: "inpage s b" for b
    using b g a qp k j e aq np'
    by (simp_all add: s4_def s3_def s2 s1_def s0_def store_facts)
  have "refs s a = 0" using c a by (simp add: counted_def)
  then have "counted s4 (\<rho>(a := PdOf i j))" using c t q a tree_tracked [OF t, of q]
    by (auto simp: counted_def ps r tree_inpage)
  moreover have "pt_only s s4" unfolding s4_def s3_def s2_def
    by (intro pt_only_trans [OF _ pt_only_put_refs] pt_only_trans [OF _ pt_only_put64] pt_only_alloc_at)
      (simp_all add: g qp a j k)
  moreover have "leaf s p i j k' = None" for k'
    using np tree_pdpt_iff [OF t, of q i] q by (simp add: leaf_def)
  moreover have "free_pages s4 = free_pages s - {a}" by (auto simp: free_pages_def ps r)
  then have "\<exists>A. card A \<le> 2 \<and> finite A \<and> free_pages s4 = free_pages s - A"
    by (intro exI [of _ "{a}"]) simp
  ultimately show ?thesis using t0 t1 t2 t3 t4 e k by (auto simp: extends_def at1)
qed

text \<open>A PDPT and a page directory are added under the root.\<close>

lemma extends_new_pdpt:
  assumes g: "geom s" and t: "tree s p \<rho>" and c: "counted s \<rho>" and i: "i < 512"
    and j: "j < 512" and k: "k < 512" and e: "present e" and np: "link s p i = None"
    and a: "inpage s a" "\<not> tracked s a" and d: "inpage s d" "\<not> tracked s d" and ad: "a \<noteq> d"
  defines "s0 \<equiv> alloc_at (alloc_at s a) d"
  defines "s4 \<equiv> put64 (put64 (put64 s0 d k e) a j (d OR F_PRESENT OR F_RW)) p i (a OR F_PRESENT OR F_RW)"
  defines "s5 \<equiv> put_refs s4 d (refs s4 d + 1)"
  defines "s6 \<equiv> put_refs s5 a (refs s5 a + 1)"
  shows "extends s p s6 (\<rho>(a := PdptOf i, d := PdOf i j)) i j k e"
proof -
  define sa where "sa = alloc_at s a"
  define s2 where "s2 = put64 s0 d k e"
  define s3 where "s3 = put64 s2 a j (d OR F_PRESENT OR F_RW)"
  have s0: "s0 = alloc_at sa d" and s4: "s4 = put64 s3 p i (a OR F_PRESENT OR F_RW)"
    by (simp_all add: s0_def sa_def s4_def s3_def s2_def)
  have pp: "inpage s p" using t by (auto intro: tree_inpage simp: tree_root)
  have n: "\<rho> a = NoRole" "\<rho> d = NoRole" using tree_tracked [OF t] a d by blast+
  have ne: "a \<noteq> p" "d \<noteq> p" using n tree_root [OF t] by auto
  have gs: "geom sa" "geom s0" "geom s2" "geom s3" "geom s4" "geom s5"
    and ps: "\<And>t. inpage sa t = inpage s t" "\<And>t. inpage s0 t = inpage s t" "\<And>t. inpage s2 t = inpage s t"
      "\<And>t. inpage s3 t = inpage s t" "\<And>t. inpage s4 t = inpage s t"
      "\<And>t. inpage s5 t = inpage s t" "\<And>t. inpage s6 t = inpage s t"
    using g by (simp_all add: sa_def s0 s2_def s3_def s4 s5_def s6_def)
  note u = sa_def s0 s2_def s3_def s4 s5_def s6_def store_facts
  note ta = tree_alloc_at [OF g t a, folded sa_def]
  have "\<not> tracked sa d" using g a d ad by (simp add: u)
  note t0 = tree_alloc_at [OF gs(1) ta(1), unfolded ps, OF d(1) this, folded s0]
  note t2 = tree_put_fresh [where e = e, OF gs(2) t0(1) n(2), unfolded ps, OF d(1) k, folded s2_def]
  note t3 = tree_put_fresh [where e = "d OR F_PRESENT OR F_RW", OF gs(3) t2(1) n(1), unfolded ps,
      OF a(1) j, folded s3_def]
  have np3: "link s3 p i = None" using np g a d pp k j i ne by (simp add: link_None_iff u)
  have tr3: "tracked s3 a" "tracked s3 d" using g a d k j by (simp_all add: u)
  have la: "link s3 a j' = (if j' = j then Some d else None)" if "j' < 512" for j'
    using that g a d k j ad by (auto simp: link_def u) (auto simp: inpage_def)
  have at3: "at64 s3 d k' = (if k' = k then e else 0)" if "k' < 512" for k'
    using that g a d k j ad by (simp add: u)
  have t4: "tree s4 p (\<rho>(a := PdptOf i, d := PdOf i j))" unfolding s4
    by (rule tree_link_pdpt(1) [OF gs(4) t3(1) i np3]) (simp_all add: i np3 ps a d tr3 n ad j la)
  have l4: "leaf s4 p i' j' k' = (if i' = i
      then if j' = j \<and> present (at64 s3 d k') then Some (at64 s3 d k') else None else leaf s3 p i' j' k')"
    if "i' < 512" "j' < 512" "k' < 512" for i' j' k' unfolding s4
    by (rule tree_link_pdpt(2) [OF gs(4) t3(1) i np3]) (simp_all add: i np3 ps a d tr3 n ad j la that)
  note t5 = tree_put_refs [where n = "refs s4 d + 1", OF gs(5) t4, unfolded ps, OF d(1), folded s5_def]
  note t6 = tree_put_refs [where n = "refs s5 a + 1", OF gs(6) t5(1), unfolded ps, OF a(1), folded s6_def]
  have np': "\<not> present (at64 s p i)" using np by (simp add: link_None_iff)
  have r: "refs s6 b = (if b = a \<or> b = d then refs s b + 1 else refs s b)"
    "tracked s6 b = (b = a \<or> b = d \<or> tracked s b)"
    "b \<noteq> p \<Longrightarrow> entries s6 b = (if b = a \<or> b = d then 1 else entries s b)"
    if b: "inpage s b" for b
    using b g a d pp k j i e ad ne np' by (auto simp: u)
  have "refs s a = 0" "refs s d = 0" using c a d by (simp_all add: counted_def)
  then have "counted s6 (\<rho>(a := PdptOf i, d := PdOf i j))" using c t n ne a d tree_root [OF t]
    by (auto simp: counted_def ps r tree_inpage) (metis r(3) tree_inpage tree_root)+
  moreover have "pt_only s s6" unfolding s6_def s5_def s4_def s0_def
    by (intro pt_only_trans [OF _ pt_only_put_refs] pt_only_trans [OF _ pt_only_put64]
      pt_only_trans [OF _ pt_only_alloc_at] pt_only_alloc_at) (simp_all add: g a d pp i j k)
  moreover have "leaf s p i j' k' = None" for j' k' using np by (simp add: leaf_def)
  moreover have "free_pages s6 = free_pages s - {a, d}" by (auto simp: free_pages_def ps r)
  then have "\<exists>A. card A \<le> 2 \<and> finite A \<and> free_pages s6 = free_pages s - A"
    using ad by (intro exI [of _ "{a, d}"]) simp
  ultimately show ?thesis using ta t0 t2 t3 l4 t5 t6 e k by (auto simp: extends_def at3)
qed

text \<open>
  The three ways a call of \<open>map\<close> on aligned addresses can end: the entry is already present, a
  page for a table cannot be had, or the tree has grown by exactly the new leaf.
\<close>

definition leaf_value :: "u64 \<Rightarrow> u64 \<Rightarrow> u64" where
  "leaf_value paddr flags = paddr OR flags OR F_PRESENT OR F_PS"

lemma present_leaf_value [simp]: "present (leaf_value paddr flags)"
  by (simp add: leaf_value_def)

lemma alloc_free_cases:
  assumes "geom s"
  obtains (some) t where "t \<in> free_pages s" "pm_alloc s = ret (Some t, alloc_at s t)"
    "free_pages (alloc_at s t) = free_pages s - {t}"
    | (none) "free_pages s = {}" "pm_alloc s = ret (None, s)"
proof (rule pm_alloc_cases [OF assms])
  fix t assume "inpage s t" "\<not> tracked s t" "pm_alloc s = ret (Some t, alloc_at s t)"
  moreover from this have "free_pages (alloc_at s t) = free_pages s - {t}"
    using assms by (auto simp: free_pages_def alloc_at)
  ultimately show thesis using some by (simp add: free_pages_def)
qed (auto intro: none simp: free_pages_def)

lemma pml4_map_cases:
  assumes g: "geom s" and t: "tree s p \<rho>" and c: "counted s \<rho>" and v: "v < 0x1000000000000"
    and al: "v AND 0x1FFFFF = 0" "paddr AND 0x1FFFFF = 0"
  defines "i \<equiv> pml4_index v" and "j \<equiv> pdpt_index v" and "k \<equiv> pd_index v"
  obtains (present) e where "leaf s p i j k = Some e" "pml4_map s p v paddr flags = halt (Panic ''Entry is already present\<newline>'')"
    | (extends) s' \<rho>' where "leaf s p i j k = None" "pml4_map s p v paddr flags = ret s'"
        "extends s p s' \<rho>' i j k (leaf_value paddr flags)"
    | (full) msg where "leaf s p i j k = None" "card (free_pages s) < 2"
        "pml4_map s p v paddr flags = halt (Panic msg)"
proof -
  have ijk: "i < 512" "j < 512" "k < 512" using v by (simp_all add: i_def j_def k_def pml4_index_bound)
  note un = pml4_map_def al i_def [symmetric] j_def [symmetric] k_def [symmetric] Let_def
  show ?thesis
  proof (cases "link s p i")
    case None
    then have np: "\<not> present (at64 s p i)" by (simp add: link_None_iff)
    have lf: "leaf s p i j k = None" using None by (simp add: leaf_def)
    show ?thesis
    proof (rule alloc_free_cases [OF g])
      assume "free_pages s = {}" "pm_alloc s = ret (None, s)"
      then show ?thesis using np lf by (intro full) (simp_all add: un)
    next
      fix a assume a: "a \<in> free_pages s" "pm_alloc s = ret (Some a, alloc_at s a)"
        "free_pages (alloc_at s a) = free_pages s - {a}"
      have ap: "inpage s a" "\<not> tracked s a" using a by (auto simp: free_pages_def)
      have ga: "geom (alloc_at s a)" using g by simp
      show ?thesis
      proof (rule alloc_free_cases [OF ga])
        assume n: "free_pages (alloc_at s a) = {}" "pm_alloc (alloc_at s a) = ret (None, alloc_at s a)"
        then have "free_pages s \<subseteq> {a}" using a by auto
        then have "card (free_pages s) \<le> card {a}" by (intro card_mono) auto
        then show ?thesis using n np lf a by (intro full) (simp_all add: un)
      next
        fix d assume d: "d \<in> free_pages (alloc_at s a)"
          "pm_alloc (alloc_at s a) = ret (Some d, alloc_at (alloc_at s a) d)"
        have dp: "inpage s d" "\<not> tracked s d" "a \<noteq> d" using d a by (auto simp: free_pages_def)
        note ex = extends_new_pdpt [OF g t c ijk present_leaf_value None ap dp, of paddr flags]
        show ?thesis
          by (rule extends [OF lf _ ex]) (simp add: un np a d pm_incRefs_eq ap dp leaf_value_def)
      qed
    qed
  next
    case (Some q)
    then have q: "\<rho> q = PdptOf i" using t ijk by (blast intro: tree_pdpt)
    have pq: "present (at64 s p i)" "entry_addr (at64 s p i) = q"
      using Some by (auto simp: link_def split: if_splits)
    have qp: "inpage s q" using t q by (rule tree_inpage_pdpt)
    show ?thesis
    proof (cases "link s q j")
      case None
      then have np: "\<not> present (at64 s q j)" by (simp add: link_None_iff)
      have lf: "leaf s p i j k = None" using Some None by (simp add: leaf_def)
      show ?thesis
      proof (rule alloc_free_cases [OF g])
        assume "free_pages s = {}" "pm_alloc s = ret (None, s)"
        then show ?thesis using np lf pq by (intro full) (simp_all add: un)
      next
        fix a assume a: "a \<in> free_pages s" "pm_alloc s = ret (Some a, alloc_at s a)"
        have ap: "inpage s a" "\<not> tracked s a" using a by (auto simp: free_pages_def)
        note ex = extends_new_pd [OF g t c q ijk(2,3) present_leaf_value None ap, of paddr flags]
        show ?thesis
          by (rule extends [OF lf _ ex]) (simp add: un np pq a pm_incRefs_eq ap qp leaf_value_def)
      qed
    next
      case (Some d)
      then have d: "\<rho> d = PdOf i j" using t q ijk by (blast intro: tree_pd)
      have pd: "present (at64 s q j)" "entry_addr (at64 s q j) = d"
        using Some by (auto simp: link_def split: if_splits)
      have dp: "inpage s d" using t d by (auto intro: tree_inpage)
      have lf: "leaf s p i j k = (if present (at64 s d k) then Some (at64 s d k) else None)"
        using Some \<open>link s p i = Some q\<close> by (simp add: leaf_def)
      show ?thesis
      proof (cases "present (at64 s d k)")
        case True
        then show ?thesis using lf pq pd by (intro present) (simp_all add: un)
      next
        case False
        note ex = extends_in_pd [OF g t c d ijk(3) present_leaf_value False, of paddr flags]
        have "refs (put64 s d k e) d = refs s d" for e using g dp ijk by (simp add: put_entry)
        then show ?thesis using False lf
          by (intro extends [OF _ _ ex]) (simp_all add: un pq pd pm_incRefs_eq dp leaf_value_def)
      qed
    qed
  qed
qed

end
