(* ===== verification/MemManager.thy ===== *)
theory MemManager
  imports PagingMap
begin

text \<open>
  The memory manager, kernel/mem/mm.cpp: \<open>findVirtualRange\<close> searches the tables for free
  addresses, \<open>allocPhysicalPages\<close> takes 2 MiB frames from the bit field
  \<open>m_physicalTrackingStructure\<close>, \<open>mm::alloc\<close> binds the ones to the others and \<open>mm::free\<close>
  unmaps.  The bit field is a list of its 4096 words.
\<close>

unbundle bit_operations_syntax

section \<open>State\<close>

record mmst =
  paging :: pmst
  physicalTracking :: "u64 list"

definition PHYS_SIZE :: u64 where "PHYS_SIZE = 0x1000000000"

definition virtualAllocRange :: "u64 rng" where
  "virtualAllocRange = \<lparr>rstart = 0x80000000, rend = 0xFFFF00000000\<rparr>"

definition AF_RW :: u32 where "AF_RW = 1"
definition AF_USER :: u32 where "AF_USER = 2"

section \<open>findVirtualRange\<close>

text \<open>The inner range-for: is some page of the candidate mapped?\<close>

partial_function (option) some_mapped ::
  "pmst \<Rightarrow> u64 \<Rightarrow> u64 rng_iterator \<Rightarrow> u64 rng_iterator \<Rightarrow> bool option" where
  "some_mapped s p it e =
     (if it_neq it e then
        if opt_bool (pml4_get s p (it_value it)) then Some True else some_mapped s p (it_next it) e
      else Some False)"

partial_function (option) findVirtualRange_loop ::
  "pmst \<Rightarrow> u64 \<Rightarrow> u64 \<Rightarrow> u64 rng_iterator \<Rightarrow> u64 rng_iterator \<Rightarrow> u64 option option" where
  "findVirtualRange_loop s p pageCount it e =
     (if it_neq it e then
        let rs = it_value it; r = \<lparr>rstart = rs, rend = rs + pageCount * 0x200000\<rparr>;
            ra = rng_iter r 0x200000 in
        Option.bind (some_mapped s p (rng_begin ra) (rng_end ra)) (\<lambda>res.
          if \<not> res then Some (opt_some rs)
          else findVirtualRange_loop s p pageCount (it_next it) e)
      else Some opt_none)"

definition findVirtualRange :: "pmst \<Rightarrow> u64 \<Rightarrow> u64 \<Rightarrow> u64 option option" where
  "findVirtualRange s p pageCount =
     (let ra = rng_iter virtualAllocRange 0x200000 in
      findVirtualRange_loop s p pageCount (rng_begin ra) (rng_end ra))"

section \<open>allocPhysicalPages\<close>

text \<open>
  The source shifts the \<open>int\<close> 1 by up to 63.  C++ leaves a count of 32 or more open; the model
  takes what the target does (the build uses no optimisation, and the \<open>shl\<close> of an x86
  processor takes the count modulo 32), and widens the \<open>int\<close> to \<open>size_t\<close> with its sign.
\<close>

definition int_one_shl :: "u64 \<Rightarrow> u32" where
  "int_one_shl n = push_bit (unat (n AND 0x1F)) 1"

definition phys_index :: "u64 \<Rightarrow> nat" where
  "phys_index addr = unat (drop_bit 27 addr)"

definition phys_bit :: "u64 \<Rightarrow> u64" where
  "phys_bit addr = scast (int_one_shl (drop_bit 21 addr AND 0x3F))"

lemma unat_next_frame: "addr < PHYS_SIZE \<Longrightarrow> unat (addr + 0x200000) = unat addr + 0x200000"
  by (subst unat_add_small) (simp_all add: PHYS_SIZE_def word_less_nat_alt)

text \<open>The first loop: the bit field, the pages taken so far and their number.\<close>

function allocPhysicalPages_loop ::
  "u64 list \<Rightarrow> u64 list \<Rightarrow> u64 \<Rightarrow> u64 \<Rightarrow> u64 \<Rightarrow> u64 list \<times> u64 list \<times> u64" where
  "allocPhysicalPages_loop tracking pages allocd count addr =
     (if addr < PHYS_SIZE then
        if allocd = count then (tracking, pages, allocd)
        else if tracking ! phys_index addr AND phys_bit addr = 0 then
          allocPhysicalPages_loop
            (tracking[phys_index addr := tracking ! phys_index addr OR phys_bit addr])
            (pages @ [addr]) (allocd + 1) count (addr + 0x200000)
        else allocPhysicalPages_loop tracking pages allocd count (addr + 0x200000)
      else (tracking, pages, allocd))"
  by pat_completeness auto

termination
  by (relation "measure (\<lambda>(tracking, pages, allocd, count, addr). unat PHYS_SIZE - unat addr)")
    (auto simp: unat_next_frame word_less_nat_alt)

declare allocPhysicalPages_loop.simps [simp del]

text \<open>The second loop gives pages back; it clears the bits of the number of the page.\<close>

definition revert_mask :: "u64 \<Rightarrow> u64" where
  "revert_mask addr = drop_bit 21 addr AND 0x3F"

fun revert_loop :: "u64 list \<Rightarrow> u64 list \<Rightarrow> u64 list" where
  "revert_loop tracking [] = tracking"
| "revert_loop tracking (addr # pages) =
     revert_loop (tracking[phys_index addr := tracking ! phys_index addr AND NOT (revert_mask addr)]) pages"

definition allocPhysicalPages :: "u64 list \<Rightarrow> u64 \<Rightarrow> result \<times> u64 list \<times> u64 list" where
  "allocPhysicalPages tracking count =
     (case allocPhysicalPages_loop tracking [] 0 count 0x600000 of (tracking', pages, allocd) \<Rightarrow>
        if allocd \<noteq> count then (mk_result 1, pages, revert_loop tracking' pages)
        else (mk_result 0, pages, tracking'))"

section \<open>The interface\<close>

definition mm_init :: "mmst \<Rightarrow> mmst" where
  "mm_init s = s\<lparr>physicalTracking := replicate (unat (drop_bit 24 PHYS_SIZE)) 0\<rparr>"

fun bind_loop :: "pmst \<Rightarrow> u64 \<Rightarrow> u64 \<Rightarrow> u64 \<Rightarrow> u64 \<Rightarrow> u64 list \<Rightarrow> pmst run" where
  "bind_loop s p vstart flags i [] = ret s"
| "bind_loop s p vstart flags i (paddr # pages) =
     bindR (pml4_map s p (vstart + i * 0x200000) paddr flags)
       (\<lambda>s'. bind_loop s' p vstart flags (i + 1) pages)"

definition mm_alloc :: "mmst \<Rightarrow> u64 \<Rightarrow> u64 \<Rightarrow> u32 \<Rightarrow> (u64 option \<times> mmst) run" where
  "mm_alloc s p pageCount flags =
     (if pageCount = 0 then ret (opt_none, s)
      else
        let pmflags = ucast flags in
        assertR (pageCount \<le> 32) ''pageCount <= 32''
        (case findVirtualRange (paging s) p pageCount of
           None \<Rightarrow> None
         | Some vr \<Rightarrow>
             (case vr of
                None \<Rightarrow> ret (opt_none, s)
              | Some vstart \<Rightarrow>
                  (case allocPhysicalPages (physicalTracking s) pageCount of (pr, physPages, tracking') \<Rightarrow>
                     let s1 = s\<lparr>physicalTracking := tracking'\<rparr> in
                     if \<not> result_bool pr then ret (opt_none, s1)
                     else
                       bindR (bind_loop (paging s1) p vstart pmflags 0 physPages) (\<lambda>pg.
                         ret (opt_some vstart, s1\<lparr>paging := pg\<rparr>))))))"

function mm_free_loop :: "pmst \<Rightarrow> u64 \<Rightarrow> u64 \<Rightarrow> u64 \<Rightarrow> u64 \<Rightarrow> pmst run" where
  "mm_free_loop s p start count i =
     (if i < count then
        let vaddr = start + i * 0x200000 in
        if \<not> opt_bool (pml4_get s p vaddr) then
          halt (Panic ''Possible double-free detected: tried to free non-allocated page\<newline>'')
        else bindR (pml4_unmap s p vaddr) (\<lambda>(r, s'). mm_free_loop s' p start count (i + 1))
      else ret s)"
  by pat_completeness auto
termination
  by (relation "measure (\<lambda>(s, p, start, count, i). unat count - unat i)") (simp_all add: loop_measure)

declare mm_free_loop.simps [simp del]

definition mm_free :: "mmst \<Rightarrow> u64 \<Rightarrow> u64 \<Rightarrow> u64 \<Rightarrow> mmst run" where
  "mm_free s p start count =
     bindR (mm_free_loop (paging s) p start count 0) (\<lambda>pg. ret (s\<lparr>paging := pg\<rparr>))"

end
