(* ===== verification/Frames.thy ===== *)
theory Frames
  imports MemManager
begin

text \<open>
  The physical frame allocator of kernel/mem/mm.cpp.  The locale \<open>frame_source\<close> is what
  \<open>mm::alloc\<close> needs of it: frames that were not taken, are taken afterwards and stay taken.
  \<open>allocPhysicalPages\<close> provides it on its success path; the failure path does not.
\<close>

unbundle bit_operations_syntax

section \<open>The contract of a frame allocator\<close>

locale frame_source =
  fixes alloc :: "'t \<Rightarrow> u64 \<Rightarrow> result \<times> u64 list \<times> 't"
    and taken :: "'t \<Rightarrow> u64 \<Rightarrow> bool"
    and inv :: "'t \<Rightarrow> bool"
  assumes alloc_inv: "inv t \<Longrightarrow> alloc t n = (r, ps, t') \<Longrightarrow> result_bool r \<Longrightarrow> inv t'"
    and alloc_count: "inv t \<Longrightarrow> alloc t n = (r, ps, t') \<Longrightarrow> result_bool r \<Longrightarrow> length ps = unat n"
    and alloc_distinct: "inv t \<Longrightarrow> alloc t n = (r, ps, t') \<Longrightarrow> result_bool r \<Longrightarrow> distinct ps"
    and alloc_fresh: "inv t \<Longrightarrow> alloc t n = (r, ps, t') \<Longrightarrow> result_bool r \<Longrightarrow> a \<in> set ps \<Longrightarrow> \<not> taken t a"
    and alloc_takes: "inv t \<Longrightarrow> alloc t n = (r, ps, t') \<Longrightarrow> result_bool r \<Longrightarrow> a \<in> set ps \<Longrightarrow> taken t' a"
    and alloc_keeps: "inv t \<Longrightarrow> alloc t n = (r, ps, t') \<Longrightarrow> result_bool r \<Longrightarrow> taken t a \<Longrightarrow> taken t' a"
begin

text \<open>The frames of a run of successful requests, in order.\<close>

inductive grants :: "'t \<Rightarrow> u64 list \<Rightarrow> 't \<Rightarrow> bool" where
  grants_none: "grants t [] t"
| grants_more: "grants t as t' \<Longrightarrow> alloc t' n = (r, ps, t'') \<Longrightarrow> result_bool r \<Longrightarrow> grants t (as @ ps) t''"

lemma grants_facts:
  "grants t as t' \<Longrightarrow> inv t \<Longrightarrow>
   inv t' \<and> distinct as \<and> (\<forall>a\<in>set as. \<not> taken t a \<and> taken t' a) \<and> (\<forall>a. taken t a \<longrightarrow> taken t' a)"
proof (induction rule: grants.induct)
  case (grants_none t)
  then show ?case by simp
next
  case (grants_more t as t' n r ps t'')
  then have i: "inv t'" and IH: "distinct as" "\<And>a. a \<in> set as \<Longrightarrow> \<not> taken t a \<and> taken t' a"
    "\<And>a. taken t a \<Longrightarrow> taken t' a" by blast+
  note al = i grants_more.hyps(2,3)
  have "set as \<inter> set ps = {}" using IH(2) alloc_fresh [OF al] by blast
  then show ?case
    using IH alloc_inv [OF al] alloc_distinct [OF al] alloc_fresh [OF al] alloc_takes [OF al] alloc_keeps [OF al]
    by auto
qed

end

section \<open>Bits of frames\<close>

definition taken :: "u64 list \<Rightarrow> u64 \<Rightarrow> bool" where
  "taken tr a \<longleftrightarrow> tr ! phys_index a AND phys_bit a \<noteq> 0"

definition frame :: "u64 \<Rightarrow> bool" where
  "frame a \<longleftrightarrow> a AND 0x1FFFFF = 0 \<and> 0x600000 \<le> a \<and> a < PHYS_SIZE"

lemma phys_index_bound: "a < PHYS_SIZE \<Longrightarrow> phys_index a < 512"
  by (simp add: phys_index_def unat_shr PHYS_SIZE_def word_less_nat_alt)

definition shift_count :: "u64 \<Rightarrow> nat" where
  "shift_count a = unat a div 0x200000 mod 32"

lemma and_1f: "unat (n AND 0x1F) = unat n mod 32"
  for n :: u64
proof -
  have "(0x1F :: u64) = mask 5" by (simp add: mask_eq_exp_minus_1)
  then show ?thesis by (simp only: unat_and_mask) simp
qed

lemma int_one_shl_eq: "int_one_shl (drop_bit 21 a AND 0x3F) = push_bit (shift_count a) 1"
proof -
  have "unat ((drop_bit 21 a AND 0x3F) AND 0x1F) = shift_count a"
    by (simp only: and_1f unat_and_lit unat_shr shift_count_def) (simp add: mod_mod_cancel)
  then show ?thesis by (simp add: int_one_shl_def)
qed

lemma bit_phys_bit:
  "bit (phys_bit a) n \<longleftrightarrow> n < 64 \<and> (n = shift_count a \<or> shift_count a = 31 \<and> 31 < n)"
proof -
  have "shift_count a < 32" by (simp add: shift_count_def)
  then show ?thesis
    unfolding phys_bit_def int_one_shl_eq by (auto simp: bit_simps min_def)
qed

lemma and_phys_bit_iff: "phys_bit a AND phys_bit b \<noteq> 0 \<longleftrightarrow> shift_count a = shift_count b"
proof -
  have l: "shift_count a < 32" "shift_count b < 32" by (simp_all add: shift_count_def)
  show ?thesis
  proof
    assume "shift_count a = shift_count b"
    then have "bit (phys_bit a AND phys_bit b) (shift_count a)"
      using l by (simp add: bit_simps bit_phys_bit)
    then show "phys_bit a AND phys_bit b \<noteq> 0" by (metis bit_0_eq bot_apply bot_bool_def)
  next
    assume "phys_bit a AND phys_bit b \<noteq> 0"
    then obtain n where "bit (phys_bit a AND phys_bit b) n" by (metis bit_word_eqI bit_0_eq bot_apply bot_bool_def)
    then show "shift_count a = shift_count b" using l by (auto simp: bit_simps bit_phys_bit)
  qed
qed

lemma phys_bit_nonzero [simp]: "phys_bit a \<noteq> 0"
  using and_phys_bit_iff [of a a] by auto

definition mark :: "u64 list \<Rightarrow> u64 \<Rightarrow> u64 list" where
  "mark tr a = tr[phys_index a := tr ! phys_index a OR phys_bit a]"

lemma or_zero_left: "u OR v = 0 \<Longrightarrow> u = 0"
  for u v :: u64
proof (rule bit_word_eqI)
  fix n assume "u OR v = 0"
  then have "\<not> bit (u OR v) n" by simp
  then show "bit u n = bit 0 n" by (simp add: bit_or_iff)
qed

lemma or_and_nonzero: "(w OR x) AND y \<noteq> 0 \<longleftrightarrow> w AND y \<noteq> 0 \<or> x AND y \<noteq> 0"
  for w x y :: u64
  unfolding bit.conj_disj_distrib2
  using or_zero_left [of "w AND y" "x AND y"] or_zero_left [of "x AND y" "w AND y"]
  by (auto simp: or.commute)

lemma taken_mark:
  assumes "phys_index a < length tr"
  shows "taken (mark tr a) b \<longleftrightarrow>
     taken tr b \<or> phys_index a = phys_index b \<and> shift_count a = shift_count b"
proof (cases "phys_index a = phys_index b")
  case True
  then show ?thesis using assms
    by (simp add: taken_def mark_def or_and_nonzero and_phys_bit_iff)
next
  case False
  then show ?thesis by (simp add: taken_def mark_def)
qed

lemma length_mark [simp]: "length (mark tr a) = length tr"
  by (simp add: mark_def)

section \<open>The first loop\<close>

lemma next_frame:
  assumes "frame a"
  shows "unat (a + 0x200000) = unat a + 0x200000" and "frame (a + 0x200000) \<or> \<not> a + 0x200000 < PHYS_SIZE"
    and "frame b \<Longrightarrow> a \<le> b \<Longrightarrow> b = a \<or> a + 0x200000 \<le> b"
proof -
  show u: "unat (a + 0x200000) = unat a + 0x200000" using assms by (intro unat_next_frame) (simp add: frame_def)
  show "frame (a + 0x200000) \<or> \<not> a + 0x200000 < PHYS_SIZE"
    using assms u by (auto simp: frame_def and_1fffff_0 word_le_nat_alt)
  show "b = a \<or> a + 0x200000 \<le> b" if "frame b" "a \<le> b"
    using that assms u by (auto elim!: dvdE simp: frame_def and_1fffff_0 word_le_nat_alt word_unat_eq_iff [of b])
qed

text \<open>What the loop has added when it stops.\<close>

definition loop_result :: "u64 list \<Rightarrow> u64 \<Rightarrow> u64 \<Rightarrow> u64 \<Rightarrow> u64 list \<Rightarrow> u64 list \<Rightarrow> u64 \<Rightarrow> bool" where
  "loop_result tr addr n count tr' ps n' \<longleftrightarrow>
     length tr' = length tr \<and> unat n' = unat n + length ps \<and> unat n' \<le> unat count \<and>
     sorted_wrt (<) ps \<and>
     (\<forall>a\<in>set ps. frame a \<and> addr \<le> a \<and> \<not> taken tr a \<and> taken tr' a) \<and>
     (\<forall>b. taken tr' b \<longleftrightarrow> taken tr b \<or>
        (\<exists>a\<in>set ps. phys_index a = phys_index b \<and> shift_count a = shift_count b)) \<and>
     (n' \<noteq> count \<longrightarrow> (\<forall>b. frame b \<and> addr \<le> b \<longrightarrow> taken tr' b))"

lemma allocPhysicalPages_loop_result:
  assumes "512 \<le> length tr" and "n \<le> count" and "frame addr \<or> \<not> addr < PHYS_SIZE"
  shows "\<exists>ps tr' n'. allocPhysicalPages_loop tr pages n count addr = (tr', pages @ ps, n') \<and>
     loop_result tr addr n count tr' ps n'"
  using assms
proof (induction tr pages n count addr rule: allocPhysicalPages_loop.induct)
  case (1 tr pages n count addr)
  note unfold = allocPhysicalPages_loop.simps [of tr pages n count addr]
  show ?case
  proof (cases "addr < PHYS_SIZE \<and> n \<noteq> count")
    case False
    then have "allocPhysicalPages_loop tr pages n count addr = (tr, pages @ [], n)" by (auto simp: unfold)
    moreover have "loop_result tr addr n count tr [] n"
      using False "1.prems" by (auto simp: loop_result_def word_le_nat_alt word_less_nat_alt frame_def)
    ultimately show ?thesis by blast
  next
    case True
    then have f: "frame addr" using "1.prems" by blast
    note nx = next_frame [OF f]
    have ge: "addr \<le> b" if "addr + 0x200000 \<le> b" for b
      using that nx(1) by (simp add: word_le_nat_alt)
    show ?thesis
    proof (cases "taken tr addr")
      case tk: True
      then have st: "\<not> tr ! phys_index addr AND phys_bit addr = 0" by (simp add: taken_def)
      from "1.IH"(2) [OF _ _ st "1.prems"(1,2) nx(2)] True
      obtain ps tr' n' where r: "allocPhysicalPages_loop tr pages n count (addr + 0x200000) = (tr', pages @ ps, n')"
        "loop_result tr (addr + 0x200000) n count tr' ps n'" by blast
      have "loop_result tr addr n count tr' ps n'"
        using r(2) ge nx(3) tk unfolding loop_result_def by metis
      then show ?thesis using r(1) True st by (auto simp: unfold)
    next
      case nt: False
      let ?tr = "mark tr addr"
      have st: "tr ! phys_index addr AND phys_bit addr = 0" using nt by (simp add: taken_def)
      have lt: "unat n < unat count" using True "1.prems"(2)
        by (simp add: word_le_nat_alt word_unat_eq_iff)
      then have n1: "unat (n + 1) = Suc (unat n)" by (intro unat_suc_less) (simp add: word_less_nat_alt)
      have i: "phys_index addr < length tr" using True "1.prems"(1) phys_index_bound [of addr] by simp
      have "512 \<le> length ?tr" "n + 1 \<le> count" using "1.prems"(1) lt n1 by (simp_all add: word_le_nat_alt)
      from "1.IH"(1) [OF _ _ st, folded mark_def, OF _ _ this nx(2)] True
      obtain ps tr' n' where r: "allocPhysicalPages_loop ?tr (pages @ [addr]) (n + 1) count (addr + 0x200000)
          = (tr', (pages @ [addr]) @ ps, n')" "loop_result ?tr (addr + 0x200000) (n + 1) count tr' ps n'" by blast
      have later: "addr < a" if "a \<in> set ps" for a
        using that r(2) nx(1) by (auto simp: loop_result_def word_le_nat_alt word_less_nat_alt)
      have tk: "taken ?tr b \<longleftrightarrow> taken tr b \<or> phys_index addr = phys_index b \<and> shift_count addr = shift_count b"
        for b using taken_mark [OF i] .
      have full: "taken tr' b" if "n' \<noteq> count" "frame b" "addr \<le> b" for b
      proof (cases "b = addr")
        case True
        then show ?thesis using r(2) tk by (simp add: loop_result_def)
      next
        case False
        then have "addr + 0x200000 \<le> b" using that nx(3) by blast
        then show ?thesis using that r(2) unfolding loop_result_def by blast
      qed
      have "(\<forall>b. taken tr' b \<longleftrightarrow> taken tr b \<or>
          (\<exists>a\<in>set (addr # ps). phys_index a = phys_index b \<and> shift_count a = shift_count b))"
        using r(2) tk by (auto simp: loop_result_def)
      moreover have "\<forall>a\<in>set (addr # ps). frame a \<and> addr \<le> a \<and> \<not> taken tr a \<and> taken tr' a"
        using r(2) tk f nt ge by (auto simp: loop_result_def)
      moreover have "length tr' = length tr" "unat n' = unat n + length (addr # ps)" "unat n' \<le> unat count"
        "sorted_wrt (<) (addr # ps)"
        using r(2) n1 later by (simp_all add: loop_result_def)
      ultimately have "loop_result tr addr n count tr' (addr # ps) n'"
        using full unfolding loop_result_def by blast
      then show ?thesis using r(1) True st by (auto simp: unfold mark_def)
    qed
  qed
qed

section \<open>The allocator meets the contract\<close>

lemma first_frame: "frame 0x600000"
  by (simp add: frame_def PHYS_SIZE_def)

lemma revert_length: "length (revert_loop tr ps) = length tr"
  by (induction ps arbitrary: tr) simp_all

lemma mk_result_bools [simp]: "result_bool (mk_result 0)" "\<not> result_bool (mk_result 1)"
  by simp_all

lemma allocPhysicalPages_cases:
  assumes "512 \<le> length tr"
  obtains (ok) ps tr' where "allocPhysicalPages tr count = (mk_result 0, ps, tr')"
      "loop_result tr 0x600000 0 count tr' ps count"
    | (fail) ps tr' n where "allocPhysicalPages tr count = (mk_result 1, ps, revert_loop tr' ps)"
      "loop_result tr 0x600000 0 count tr' ps n" "n \<noteq> count"
proof -
  obtain ps tr' n where r: "allocPhysicalPages_loop tr [] 0 count 0x600000 = (tr', ps, n)"
      "loop_result tr 0x600000 0 count tr' ps n"
    using allocPhysicalPages_loop_result [of tr 0 count "0x600000" "[]"] assms first_frame by auto
  show ?thesis
  proof (cases "n = count")
    case True
    then show ?thesis using r by (intro ok) (simp_all add: allocPhysicalPages_def)
  next
    case False
    then show ?thesis using r by (intro fail) (simp_all add: allocPhysicalPages_def)
  qed
qed

lemma allocPhysicalPages_ok:
  assumes "512 \<le> length tr" and "allocPhysicalPages tr count = (r, ps, tr')" and "result_bool r"
  shows "loop_result tr 0x600000 0 count tr' ps count"
  using assms(2,3) by (cases rule: allocPhysicalPages_cases [OF assms(1), of count]) auto

interpretation fr: frame_source allocPhysicalPages taken "\<lambda>tr. 512 \<le> length tr"
proof unfold_locales
  fix t n r ps t' a
  assume i: "512 \<le> length t" and al: "allocPhysicalPages t n = (r, ps, t')" and ok: "result_bool r"
  note res = allocPhysicalPages_ok [OF i al ok, unfolded loop_result_def]
  show "512 \<le> length t'" using res i by simp
  show "length ps = unat n" using res by simp
  show "distinct ps" using res by (simp add: strict_sorted_iff)
  show "\<not> taken t a" "taken t' a" if "a \<in> set ps" using res that by blast+
  show "taken t' a" if "taken t a" using res that by blast
qed

end
