(* ===== verification/AddressSpace.thy ===== *)
theory AddressSpace
  imports Frames
begin

text \<open>
  The interface between the memory manager and the page tables: the locale \<open>address_space\<close> is a
  lookup and an insertion of one page with the law that an insertion changes the translation of
  that page and of no other; \<open>bounded_space\<close> adds when an insertion succeeds.  The client's
  lemmas are about inserting a list of pages, as \<open>mm::alloc\<close> does; the provider is
  \<open>Pml4::map\<close> with \<open>Pml4::get\<close>.
\<close>

unbundle bit_operations_syntax

section \<open>The interface\<close>

fun insert_all :: "('s \<Rightarrow> u64 \<Rightarrow> u64 \<Rightarrow> 's run) \<Rightarrow> 's \<Rightarrow> (u64 \<times> u64) list \<Rightarrow> 's run" where
  "insert_all ins s [] = ret s"
| "insert_all ins s ((v, pa) # xs) = bindR (ins s v pa) (\<lambda>s'. insert_all ins s' xs)"

locale address_space =
  fixes lookup :: "'s \<Rightarrow> u64 \<Rightarrow> u64 option"
    and ins :: "'s \<Rightarrow> u64 \<Rightarrow> u64 \<Rightarrow> 's run"
    and inv :: "'s \<Rightarrow> bool"
    and vpage :: "u64 \<Rightarrow> bool"
    and ppage :: "u64 \<Rightarrow> bool"
    and valid :: "u64 \<Rightarrow> bool"
    and result :: "u64 \<Rightarrow> u64 \<Rightarrow> u64"
  assumes ins_inv: "inv s \<Longrightarrow> vpage v \<Longrightarrow> ppage pa \<Longrightarrow> ins s v pa = ret s' \<Longrightarrow> inv s'"
    and ins_lookup: "inv s \<Longrightarrow> vpage v \<Longrightarrow> ppage pa \<Longrightarrow> ins s v pa = ret s' \<Longrightarrow> valid x \<Longrightarrow>
      lookup s' x = (if frame_addr x = v then Some (result pa x) else lookup s x)"
    and ins_total: "inv s \<Longrightarrow> vpage v \<Longrightarrow> ppage pa \<Longrightarrow> ins s v pa \<noteq> None"
begin

lemma insert_all_total:
  assumes "inv s" and "\<And>v pa. (v, pa) \<in> set xs \<Longrightarrow> vpage v \<and> ppage pa"
  shows "insert_all ins s xs \<noteq> None"
  using assms
proof (induction xs arbitrary: s)
  case Nil
  then show ?case by simp
next
  case (Cons y xs)
  obtain v pa where y: "y = (v, pa)" by (cases y)
  have ok: "vpage v" "ppage pa" using Cons.prems(2) y by auto
  have "insert_all ins s' xs \<noteq> None" if "ins s v pa = ret s'" for s'
    using that Cons.prems(2) y by (intro Cons.IH ins_inv [OF Cons.prems(1) ok]) auto
  then show ?case using y ins_total [OF Cons.prems(1) ok] by (auto simp: bindR_eq_None)
qed

lemma insert_all_spec:
  assumes "inv s" and "\<And>v pa. (v, pa) \<in> set xs \<Longrightarrow> vpage v \<and> ppage pa"
    and "distinct (map fst xs)" and "insert_all ins s xs = ret s'"
  shows "inv s'" and "valid x \<Longrightarrow> lookup s' x =
     (case map_of xs (frame_addr x) of Some pa \<Rightarrow> Some (result pa x) | None \<Rightarrow> lookup s x)"
proof -
  have "inv s' \<and> (valid x \<longrightarrow> lookup s' x =
     (case map_of xs (frame_addr x) of Some pa \<Rightarrow> Some (result pa x) | None \<Rightarrow> lookup s x))"
    using assms
  proof (induction xs arbitrary: s)
    case Nil
    then show ?case by simp
  next
    case (Cons y xs)
    obtain v pa where y: "y = (v, pa)" by (cases y)
    with Cons.prems(4) obtain s1 where s1: "ins s v pa = ret s1" "insert_all ins s1 xs = ret s'"
      by (auto simp: bindR_eq_ret)
    have ok: "vpage v" "ppage pa" using Cons.prems(2) y by auto
    note one = ins_inv [OF Cons.prems(1) ok s1(1)] ins_lookup [OF Cons.prems(1) ok s1(1)]
    have "inv s' \<and> (valid x \<longrightarrow> lookup s' x =
        (case map_of xs (frame_addr x) of Some pa \<Rightarrow> Some (result pa x) | None \<Rightarrow> lookup s1 x))"
      using Cons.prems y by (intro Cons.IH [OF one(1) _ _ s1(2)]) auto
    moreover have "map_of xs v = None" using Cons.prems(3) y by (auto simp: map_of_eq_None_iff)
    ultimately show ?case using one(2) [of x] y by (auto split: option.splits)
  qed
  then show "inv s'" and "valid x \<Longrightarrow> lookup s' x =
     (case map_of xs (frame_addr x) of Some pa \<Rightarrow> Some (result pa x) | None \<Rightarrow> lookup s x)" by blast+
qed

end

text \<open>With a bound on the pages an insertion may use, insertions of unmapped pages succeed.\<close>

locale bounded_space = address_space +
  fixes room :: "'s \<Rightarrow> nat"
  assumes ins_ok: "inv s \<Longrightarrow> vpage v \<Longrightarrow> ppage pa \<Longrightarrow> 2 \<le> room s \<Longrightarrow> lookup s v = None \<Longrightarrow>
      \<exists>s'. ins s v pa = ret s' \<and> room s \<le> room s' + 2"
    and vpage_valid: "vpage v \<Longrightarrow> valid v \<and> frame_addr v = v"
begin

lemma insert_all_ok:
  assumes "inv s" and "\<And>v pa. (v, pa) \<in> set xs \<Longrightarrow> vpage v \<and> ppage pa \<and> lookup s v = None"
    and "distinct (map fst xs)" and "2 * length xs \<le> room s"
  shows "\<exists>s'. insert_all ins s xs = ret s' \<and> room s \<le> room s' + 2 * length xs"
  using assms
proof (induction xs arbitrary: s)
  case Nil
  then show ?case by simp
next
  case (Cons y xs)
  obtain v pa where y: "y = (v, pa)" by (cases y)
  have ok: "vpage v" "ppage pa" "lookup s v = None" using Cons.prems(2) y by auto
  then obtain s1 where s1: "ins s v pa = ret s1" "room s \<le> room s1 + 2"
    using ins_ok [OF Cons.prems(1), of v pa] Cons.prems(4) by auto
  have "lookup s1 w = None" if "(w, pb) \<in> set xs" for w pb
  proof -
    have w: "vpage w" "lookup s w = None" "w \<noteq> v" using Cons.prems(2,3) y that by force+
    then show ?thesis
      using ins_lookup [OF Cons.prems(1) ok(1,2) s1(1), of w] vpage_valid [of w] by simp
  qed
  then have "\<exists>s'. insert_all ins s1 xs = ret s' \<and> room s1 \<le> room s' + 2 * length xs"
    using Cons.prems y s1(2) ins_inv [OF Cons.prems(1) ok(1,2) s1(1)] by (intro Cons.IH) auto
  then show ?case using s1 y by fastforce
qed

end

section \<open>The page tables provide it\<close>

definition pt_ok :: "pmst \<Rightarrow> u64 \<Rightarrow> bool" where
  "pt_ok s p \<longleftrightarrow> geom s \<and> (\<exists>\<rho>. tree s p \<rho> \<and> counted s \<rho>)"

definition canonical :: "u64 \<Rightarrow> bool" where "canonical v \<longleftrightarrow> v < 0x1000000000000"

definition vpage :: "u64 \<Rightarrow> bool" where "vpage v \<longleftrightarrow> canonical v \<and> v AND 0x1FFFFF = 0"

definition ppage :: "u64 \<Rightarrow> bool" where "ppage pa \<longleftrightarrow> pa AND 0x1FFFFF = 0"

text \<open>What an address of a page mapped to \<open>pa\<close> with \<open>flags\<close> translates to.\<close>

definition mapped_to :: "u64 \<Rightarrow> u64 \<Rightarrow> u64 \<Rightarrow> u64" where
  "mapped_to flags pa x = frame_addr (leaf_value pa flags) OR (x AND 0x1FFFFF)"

lemma unat_frame_addr: "unat (frame_addr v) = unat v div 0x200000 * 0x200000"
  by (simp only: frame_addr_def mask_literals unat_and_not_mask) simp

lemma frame_addr_aligned: "v AND 0x1FFFFF = 0 \<Longrightarrow> frame_addr v = v"
proof -
  assume "v AND 0x1FFFFF = 0"
  then have "2097152 dvd unat v" by (simp only: and_1fffff_0)
  then have "unat (frame_addr v) = unat v" by (simp only: unat_frame_addr dvd_div_mult_self)
  then show ?thesis by (simp only: word_unat_eq_iff)
qed

lemma page_key:
  "pml4_index x = pml4_index v \<and> pdpt_index x = pdpt_index v \<and> pd_index x = pd_index v \<longleftrightarrow>
   frame_addr x = frame_addr v"
proof
  assume "frame_addr x = frame_addr v"
  then show "pml4_index x = pml4_index v \<and> pdpt_index x = pdpt_index v \<and> pd_index x = pd_index v"
    by (metis index_frame)
next
  assume a: "pml4_index x = pml4_index v \<and> pdpt_index x = pdpt_index v \<and> pd_index x = pd_index v"
  define f where "f = (\<lambda>y :: u64. unat y div 0x200000)"
  have i: "unat (pml4_index y) = f y div 512 div 512" "unat (pdpt_index y) = f y div 512 mod 512"
    "unat (pd_index y) = f y mod 512" for y
    by (simp_all add: pml4_index_def pdpt_index_def pd_index_def unat_and_lit unat_shr f_def
        div_mult2_eq [symmetric])
  from a i have "f x div 512 div 512 = f v div 512 div 512" "f x div 512 mod 512 = f v div 512 mod 512"
    "f x mod 512 = f v mod 512" by metis+
  then have "f x = f v" by (metis div_mult_mod_eq)
  then show "frame_addr x = frame_addr v" by (simp add: word_unat_eq_iff unat_frame_addr f_def)
qed

lemma extends_pt_ok: "pt_ok s p \<Longrightarrow> extends s p s' \<rho> i j k e \<Longrightarrow> pt_ok s' p"
  by (auto simp: pt_ok_def extends_def only_mem_geom [OF pt_only_mem])

lemma extends_get:
  assumes "extends s p s' \<rho> (pml4_index v) (pdpt_index v) (pd_index v) (leaf_value pa flags)"
    and "canonical x"
  shows "pml4_get s' p x = (if frame_addr x = frame_addr v then Some (mapped_to flags pa x) else pml4_get s p x)"
proof -
  have "leaf s' p (pml4_index x) (pdpt_index x) (pd_index x) =
    (if frame_addr x = frame_addr v then Some (leaf_value pa flags)
     else leaf s p (pml4_index x) (pdpt_index x) (pd_index x))"
    using assms page_key [of x v] by (simp add: extends_def canonical_def pml4_index_bound)
  then show ?thesis by (simp add: pml4_get_leaf mapped_to_def)
qed

lemma extends_room:
  assumes "extends s p s' \<rho> i j k e"
  shows "card (free_pages s) \<le> card (free_pages s') + 2"
proof -
  obtain A where A: "card A \<le> 2" "finite A" "free_pages s' = free_pages s - A"
    using assms by (auto simp: extends_def)
  have "card (free_pages s) \<le> card ((free_pages s - A) \<union> A)" using A by (intro card_mono) auto
  also have "\<dots> \<le> card (free_pages s - A) + card A" by (rule card_Un_le)
  finally show ?thesis using A by simp
qed

lemma leaf_None_iff_get:
  "leaf s p (pml4_index v) (pdpt_index v) (pd_index v) = None \<longleftrightarrow> pml4_get s p v = None"
  by (simp add: pml4_get_leaf)

text \<open>Every way a call of \<open>map\<close> can end, in terms of the translation.\<close>

lemma pml4_map_outcomes:
  assumes "pt_ok s p" and "vpage v" and "ppage pa"
  obtains (present) "pml4_get s p v \<noteq> None" "pml4_map s p v pa flags = halt (Panic ''Entry is already present\<newline>'')"
    | (mapped) s' where "pml4_get s p v = None" "pml4_map s p v pa flags = ret s'" "pt_ok s' p"
        "\<And>x. canonical x \<Longrightarrow>
           pml4_get s' p x = (if frame_addr x = v then Some (mapped_to flags pa x) else pml4_get s p x)"
        "card (free_pages s) \<le> card (free_pages s') + 2"
    | (full) msg where "pml4_get s p v = None" "card (free_pages s) < 2" "pml4_map s p v pa flags = halt (Panic msg)"
proof -
  obtain \<rho> where t: "geom s" "tree s p \<rho>" "counted s \<rho>" using assms(1) by (auto simp: pt_ok_def)
  have v: "v < 0x1000000000000" "v AND 0x1FFFFF = 0" "pa AND 0x1FFFFF = 0"
    using assms by (simp_all add: vpage_def ppage_def canonical_def)
  show ?thesis
  proof (rule pml4_map_cases [OF t v, of flags])
    fix e assume "leaf s p (pml4_index v) (pdpt_index v) (pd_index v) = Some e"
      "pml4_map s p v pa flags = halt (Panic ''Entry is already present\<newline>'')"
    then show ?thesis by (intro present) (simp_all add: pml4_get_leaf)
  next
    fix s' \<rho>' assume ex: "leaf s p (pml4_index v) (pdpt_index v) (pd_index v) = None"
      "pml4_map s p v pa flags = ret s'"
      "extends s p s' \<rho>' (pml4_index v) (pdpt_index v) (pd_index v) (leaf_value pa flags)"
    then show ?thesis
      using extends_get [OF ex(3)] extends_pt_ok [OF assms(1) ex(3)] extends_room [OF ex(3)] v
      by (intro mapped [of s']) (simp_all add: leaf_None_iff_get frame_addr_aligned)
  next
    fix msg assume "leaf s p (pml4_index v) (pdpt_index v) (pd_index v) = None" "card (free_pages s) < 2"
      "pml4_map s p v pa flags = halt (Panic msg)"
    then show ?thesis by (intro full) (simp_all add: leaf_None_iff_get)
  qed
qed

interpretation pt: bounded_space
  "\<lambda>s. pml4_get s p" "\<lambda>s v pa. pml4_map s p v pa flags" "\<lambda>s. pt_ok s p" vpage ppage canonical
  "mapped_to flags" "\<lambda>s. card (free_pages s)"
  for p flags
proof unfold_locales
  fix s v pa s' x
  assume a: "pt_ok s p" "vpage v" "ppage pa" "pml4_map s p v pa flags = ret s'"
  show "pt_ok s' p" using a(4) by (cases rule: pml4_map_outcomes [OF a(1-3), of flags]) auto
  show "pml4_get s' p x = (if frame_addr x = v then Some (mapped_to flags pa x) else pml4_get s p x)"
    if "canonical x" using a(4) that by (cases rule: pml4_map_outcomes [OF a(1-3), of flags]) auto
next
  fix s v pa
  assume a: "pt_ok s p" "vpage v" "ppage pa"
  show "pml4_map s p v pa flags \<noteq> None" by (cases rule: pml4_map_outcomes [OF a, of flags]) auto
next
  fix s v pa
  assume a: "pt_ok s p" "vpage v" "ppage pa" and "2 \<le> card (free_pages s)" "pml4_get s p v = None"
  then show "\<exists>s'. pml4_map s p v pa flags = ret s' \<and> card (free_pages s) \<le> card (free_pages s') + 2"
    by (cases rule: pml4_map_outcomes [OF a(1-3), of flags]) auto
next
  fix v assume "vpage v"
  then show "canonical v \<and> frame_addr v = v" by (simp add: vpage_def frame_addr_aligned)
qed

section \<open>Stores away from the structures\<close>

lemma pt_ok_frame:
  assumes ok: "pt_ok s p" and om: "only_mem s s'" and eq: "\<And>x. x \<in> pt_region s \<Longrightarrow> mem s' x = mem s x"
  shows "pt_ok s' p" and "canonical v \<Longrightarrow> pml4_get s' p v = pml4_get s p v" and "free_pages s' = free_pages s"
proof -
  obtain \<rho> where t: "geom s" "tree s p \<rho>" "counted s \<rho>" using ok by (auto simp: pt_ok_def)
  have at: "at64 s' a i = at64 s a i" if "inpage s a" "i < 512" for a i
    unfolding at64_def using that eq by (intro entry_frame [OF t(1)]) (auto simp: pt_region_def)
  have tr: "tracked s' a = tracked s a" and rf: "refs s' a = refs s a" if "inpage s a" for a
    using that eq by (auto intro!: tracked_frame [OF t(1) _ _ om] refs_frame [OF t(1) _ _ om] simp: pt_region_def)
  have tree': "tree s' p \<rho>"
    by (rule tree_cong [OF t(2) om]) (use tr at tree_inpage [OF t(2)] in auto)
  have "entries s' a = entries s a" if "inpage s a" for a using that at by (intro entries_cong) auto
  then have "counted s' \<rho>"
    using t(3) tree_inpage [OF t(2)] tr rf by (auto simp: counted_def only_mem_inpage [OF om])
  then show "pt_ok s' p" using t(1) tree' by (auto simp: pt_ok_def only_mem_geom [OF om])
  show "free_pages s' = free_pages s" using tr by (auto simp: free_pages_def only_mem_inpage [OF om])
  show "pml4_get s' p v = pml4_get s p v" if "canonical v"
    using that at tree_inpage [OF t(2)]
    by (simp add: pml4_get_leaf, subst leaf_cong [OF t(2), where s' = s']) (auto simp: canonical_def pml4_index_bound)
qed

lemma pml4_map_pt_only:
  assumes "pt_ok s p" and "vpage v" and "ppage pa" and "pml4_map s p v pa fl = ret s'"
  shows "pt_only s s'"
proof -
  obtain \<rho> where t: "geom s" "tree s p \<rho>" "counted s \<rho>" using assms(1) by (auto simp: pt_ok_def)
  have v: "v < 0x1000000000000" "v AND 0x1FFFFF = 0" "pa AND 0x1FFFFF = 0"
    using assms by (simp_all add: vpage_def ppage_def canonical_def)
  show ?thesis by (rule pml4_map_cases [OF t v, of fl]) (use assms(4) in \<open>auto simp: extends_def\<close>)
qed

lemma insert_all_pt_only:
  assumes "pt_ok s p" and "\<And>w pa. (w, pa) \<in> set xs \<Longrightarrow> vpage w \<and> ppage pa"
    and "insert_all (\<lambda>s w pa. pml4_map s p w pa fl) s xs = ret s'"
  shows "pt_only s s'"
  using assms
proof (induction xs arbitrary: s)
  case (Cons x xs)
  obtain w pa where x: "x = (w, pa)" by (cases x)
  then have w: "vpage w" "ppage pa" using Cons.prems(2) by auto
  obtain s1 where s1: "pml4_map s p w pa fl = ret s1" "insert_all (\<lambda>s w pa. pml4_map s p w pa fl) s1 xs = ret s'"
    using Cons.prems(3) x by (auto simp: bindR_eq_ret)
  have "pt_ok s1 p" using s1(1) by (cases rule: pml4_map_outcomes [OF Cons.prems(1) w, of fl]) auto
  then have "pt_only s1 s'" using Cons.prems(2) s1(2) by (intro Cons.IH) auto
  with pml4_map_pt_only [OF Cons.prems(1) w s1(1)] show ?case by (rule pt_only_trans)
qed simp

end
