(* ===== verification/PagingUnmap.thy ===== *)
theory PagingUnmap
  imports AddressSpace
begin

text \<open>
  What \<open>Pml4::unmap\<close> does to a well-formed tree: it counts the page directory down, gives the
  directory (and then the PDPT) back when the count reaches zero, and stores nothing to any
  table.
\<close>

unbundle bit_operations_syntax

section \<open>States with the same tables\<close>

definition same_tables :: "pmst \<Rightarrow> pmst \<Rightarrow> bool" where
  "same_tables s s' \<longleftrightarrow>
     only_mem s s' \<and> (\<forall>t i. inpage s t \<and> i < 512 \<longrightarrow> at64 s' t i = at64 s t i)"

lemma same_tables_refl [simp]: "same_tables s s"
  by (simp add: same_tables_def)

lemma same_tables_trans: "same_tables s s' \<Longrightarrow> same_tables s' s'' \<Longrightarrow> same_tables s s''"
  unfolding same_tables_def using only_mem_trans only_mem_inpage by metis

lemma same_tables_put:
  assumes "geom s" and "inpage s t"
  shows "same_tables s (put_refs s t n)" and "same_tables s (put_tracking s t v)"
  using assms by (simp_all add: same_tables_def put_refs put_tracking)

lemma same_tables_at:
  assumes "same_tables s s'" and "inpage s t" and "i < 512"
  shows "at64 s' t i = at64 s t i" and "link s' t i = link s t i"
  using assms by (simp_all add: same_tables_def link_def)

lemma same_tables_leaf:
  assumes "tree s p \<rho>" and "same_tables s s'" and "i < 512" and "j < 512" and "k < 512"
  shows "leaf s' p i j k = leaf s p i j k"
proof (rule leaf_cong [OF assms(1,3,4)])
  note same = assms(2) [unfolded same_tables_def]
  fix t and i :: u64 assume "i < 512" "\<rho> t = Root \<or> (\<exists>j. \<rho> t = PdptOf j)"
  then show "at64 s' t i = at64 s t i" using same tree_inpage [OF assms(1), of t] by auto
next
  fix d assume "\<rho> d = PdOf i j"
  then show "at64 s' d k = at64 s d k"
    using assms(2,5) tree_inpage [OF assms(1), of d] by (auto simp: same_tables_def)
qed

lemma same_tables_get:
  assumes "tree s p \<rho>" and "same_tables s s'" and "canonical x"
  shows "pml4_get s' p x = pml4_get s p x"
  using same_tables_leaf [OF assms(1,2)] assms(3)
  by (simp add: pml4_get_leaf canonical_def pml4_index_bound)

section \<open>Counts\<close>

lemma entries_bound: "entries s t \<le> 512"
proof -
  have "entries s t \<le> card {k :: u64. k < 512}"
    unfolding entries_def by (intro card_mono) auto
  also have "{k :: u64. k < 512} = of_nat ` {..<512}"
  proof (intro set_eqI iffI)
    fix k :: u64 assume "k \<in> {k. k < 512}"
    then have "k = of_nat (unat k)" "unat k < 512" by (simp_all add: word_less_nat_alt)
    then show "k \<in> of_nat ` {..<512}" by blast
  qed (auto simp: word_less_nat_alt unat_of_nat_small)
  also have "card (of_nat ` {..<512} :: u64 set) \<le> 512"
    using card_image_le [of "{..<512 :: nat}" "of_nat :: nat \<Rightarrow> u64"] by simp
  finally show ?thesis .
qed

lemma entries_pos: "k < 512 \<Longrightarrow> present (at64 s t k) \<Longrightarrow> 0 < entries s t"
  by (auto simp: entries_def card_gt_0_iff)

lemma unat_entries: "unat (of_nat (entries s t) :: u16) = entries s t"
  using entries_bound [of s t] by (intro unat_of_nat_small) simp

text \<open>The counter of a table holds its number of present entries.\<close>

lemma counted_refs:
  assumes "counted s \<rho>" and "\<rho> t \<noteq> NoRole" and "\<rho> t \<noteq> Root" and "0 < entries s t"
  shows "refs s t \<noteq> 0" and "refs s t - 1 = 0 \<longleftrightarrow> entries s t = 1"
proof -
  have r: "unat (refs s t) = entries s t" using assms by (simp add: counted_def unat_entries)
  then show "refs s t \<noteq> 0" using assms(4) by auto
  have "refs s t = 1 \<longleftrightarrow> entries s t = 1" using r by (auto simp: word_unat_eq_iff)
  then show "refs s t - 1 = 0 \<longleftrightarrow> entries s t = 1" by simp
qed

section \<open>The outcomes\<close>

definition released :: "pmst \<Rightarrow> u64 \<Rightarrow> pmst" where
  "released s t =
     put_tracking s t (tracking_cell s t AND NOT (PM_TRACKING_BIT (t - rstart (pagingRange s))))"

lemma released_tracked:
  "geom s \<Longrightarrow> inpage s t \<Longrightarrow> inpage s a \<Longrightarrow> tracked (released s t) a \<longleftrightarrow> a \<noteq> t \<and> tracked s a"
  unfolding released_def by (rule tracked_clear)

lemma released_facts [simp]:
  "geom (released s t) = geom s" "inpage (released s t) a = inpage s a"
  by (simp_all add: released_def)

lemma released_refs: "geom s \<Longrightarrow> inpage s t \<Longrightarrow> inpage s a \<Longrightarrow> refs (released s t) a = refs s a"
  by (simp add: released_def put_tracking)

lemma same_tables_released: "geom s \<Longrightarrow> inpage s t \<Longrightarrow> same_tables s (released s t)"
  unfolding released_def by (rule same_tables_put)

lemma pm_free_released: "tracked s t \<Longrightarrow> pm_free s t = ret (released s t)"
  by (simp add: pm_free_eq released_def)

text \<open>The page directory goes, and the PDPT with it when it held nothing else.\<close>

definition after_last :: "pmst \<Rightarrow> u64 \<Rightarrow> u64 \<Rightarrow> pmst" where
  "after_last s q d =
     (let s3 = put_refs (released (put_refs s d 0) d) q (refs s q - 1) in
      if refs s q - 1 = 0 then released s3 q else s3)"

lemma after_last_facts:
  assumes g: "geom s" and d: "inpage s d" and q: "inpage s q" and ne: "d \<noteq> q"
  shows "same_tables s (after_last s q d)"
    and "inpage s a \<Longrightarrow> tracked (after_last s q d) a \<longleftrightarrow>
           a \<noteq> d \<and> (refs s q - 1 = 0 \<longrightarrow> a \<noteq> q) \<and> tracked s a"
proof -
  have "same_tables s (put_refs s d 0)" using g d by (rule same_tables_put)
  moreover have "same_tables (put_refs s d 0) (released (put_refs s d 0) d)"
    using g d by (intro same_tables_released) simp_all
  moreover have "same_tables (released (put_refs s d 0) d)
      (put_refs (released (put_refs s d 0) d) q n)" for n
    using g q by (intro same_tables_put) simp_all
  ultimately have "same_tables s (put_refs (released (put_refs s d 0) d) q n)" for n
    using same_tables_trans by blast
  then show "same_tables s (after_last s q d)"
    using g q same_tables_trans [OF _ same_tables_released] by (simp add: after_last_def Let_def)
  show "tracked (after_last s q d) a \<longleftrightarrow>
      a \<noteq> d \<and> (refs s q - 1 = 0 \<longrightarrow> a \<noteq> q) \<and> tracked s a" if "inpage s a"
    using that g d q by (auto simp: after_last_def Let_def released_tracked put_refs)
qed

text \<open>The tables a walk for \<open>v\<close> passes, and what \<open>unmap\<close> does at its end.\<close>

definition walk :: "pmst \<Rightarrow> u64 \<Rightarrow> u64 \<Rightarrow> u64 \<Rightarrow> u64 \<Rightarrow> bool" where
  "walk s p v q d \<longleftrightarrow> v AND 0x1FFFFF = 0 \<and> link s p (pml4_index v) = Some q \<and>
     link s q (pdpt_index v) = Some d \<and> present (at64 s d (pd_index v))"

lemma walk_present:
  assumes "walk s p v q d"
  shows "v AND 0x1FFFFF = 0" and "present (at64 s p (pml4_index v))"
    and "entry_addr (at64 s p (pml4_index v)) = q" and "present (at64 s q (pdpt_index v))"
    and "entry_addr (at64 s q (pdpt_index v)) = d" and "present (at64 s d (pd_index v))"
  using assms by (auto simp: walk_def link_def split: if_splits)

lemma walk_get: "walk s p v q d \<Longrightarrow> pml4_get s p v \<noteq> None"
  by (simp add: walk_def pml4_get_leaf leaf_def)

lemma unmap_walk_shared:
  assumes "walk s p v q d" and "inpage s d" and "refs s d \<noteq> 0" and "refs s d \<noteq> 1"
  shows "pml4_unmap s p v = ret (mk_result 0, put_refs s d (refs s d - 1))"
  using assms(2-4) by (simp add: pml4_unmap_def walk_present [OF assms(1)] Let_def pm_decRefs_eq)

lemma unmap_walk_last:
  assumes w: "walk s p v q d" and g: "geom s" and ip: "inpage s q" "inpage s d" "tracked s d" "tracked s q" "d \<noteq> q"
    and r: "refs s d = 1" "refs s q \<noteq> 0"
  shows "pml4_unmap s p v = ret (mk_result 0, after_last s q d)"
proof -
  let ?s2 = "released (put_refs s d 0) d"
  have tr: "tracked (put_refs s d 0) d" using g ip by (simp add: put_refs)
  have "refs ?s2 q = refs s q" using g ip by (simp add: released_refs put_refs)
  moreover have "tracked (put_refs ?s2 q n) q" for n
    using g ip by (simp add: put_refs released_tracked)
  ultimately show ?thesis
    using r ip pm_free_released [OF tr]
    by (simp add: pml4_unmap_def walk_present [OF w] Let_def pm_decRefs_eq after_last_def pm_free_released)
qed

lemma pml4_unmap_outcomes:
  assumes g: "geom s" and t: "tree s p \<rho>" and c: "counted s \<rho>" and v: "vpage v"
  obtains (unmapped) "pml4_get s p v = None" "pml4_unmap s p v = ret (mk_result 1, s)"
    | (shared) q d where "walk s p v q d" "\<rho> q = PdptOf (pml4_index v)"
        "\<rho> d = PdOf (pml4_index v) (pdpt_index v)" "1 < entries s d"
        "pml4_unmap s p v = ret (mk_result 0, put_refs s d (refs s d - 1))"
    | (last) q d where "walk s p v q d" "\<rho> q = PdptOf (pml4_index v)"
        "\<rho> d = PdOf (pml4_index v) (pdpt_index v)" "entries s d = 1"
        "pml4_unmap s p v = ret (mk_result 0, after_last s q d)"
proof -
  have i: "pml4_index v < 512" using v by (simp add: vpage_def canonical_def pml4_index_bound)
  show ?thesis
  proof (cases "leaf s p (pml4_index v) (pdpt_index v) (pd_index v)")
    case None
    then have "pml4_unmap s p v = ret (mk_result 1, s)"
      using v by (auto simp: pml4_unmap_def vpage_def Let_def leaf_def link_def split: if_splits)
    then show ?thesis using None by (intro unmapped) (simp_all add: pml4_get_leaf)
  next
    case (Some e)
    then obtain q d where w: "walk s p v q d"
      using v by (auto simp: walk_def vpage_def leaf_def bind_eq_Some_conv split: if_splits)
    have r: "\<rho> q = PdptOf (pml4_index v)" "\<rho> d = PdOf (pml4_index v) (pdpt_index v)"
      using w t i index_bounds by (auto simp: walk_def intro: tree_pdpt tree_pd)
    have ip: "inpage s q" "inpage s d" "tracked s d" "tracked s q" "d \<noteq> q"
      using t r by (auto intro: tree_inpage tree_tracked)
    have e: "0 < entries s d" "0 < entries s q"
      by (rule entries_pos [OF index_bounds(2) walk_present(6) [OF w]],
          rule entries_pos [OF index_bounds(1) walk_present(4) [OF w]])
    note rd = counted_refs [OF c, of d, simplified r, simplified, OF e(1)]
      and rq = counted_refs [OF c, of q, simplified r, simplified, OF e(2)]
    show ?thesis
    proof (cases "entries s d = 1")
      case False
      then have "1 < entries s d" using e by simp
      then show ?thesis using shared [OF w r] rd unmap_walk_shared [OF w ip(2)] by simp
    next
      case True
      then have "refs s d = 1" using rd by simp
      then show ?thesis using last [OF w r True] unmap_walk_last [OF w g ip] rq(1) by simp
    qed
  qed
qed

lemma pml4_unmap_same_tables:
  assumes "pt_ok s p" and "vpage v"
  obtains r s' where "pml4_unmap s p v = ret (r, s')" "same_tables s s'"
    "r = mk_result (if pml4_get s p v = None then 1 else 0)"
proof -
  obtain \<rho> where t: "geom s" "tree s p \<rho>" "counted s \<rho>" using assms(1) by (auto simp: pt_ok_def)
  show ?thesis
  proof (rule pml4_unmap_outcomes [OF t assms(2)])
    fix q d assume "walk s p v q d" "\<rho> d = PdOf (pml4_index v) (pdpt_index v)"
      "pml4_unmap s p v = ret (mk_result 0, put_refs s d (refs s d - 1))"
    moreover from this have "inpage s d" using t by (auto intro: tree_inpage)
    ultimately show ?thesis using t same_tables_put walk_get [of s p v q d] by (intro that [of "mk_result 0"]) auto
  next
    fix q d assume a: "walk s p v q d" "\<rho> q = PdptOf (pml4_index v)"
      "\<rho> d = PdOf (pml4_index v) (pdpt_index v)" "pml4_unmap s p v = ret (mk_result 0, after_last s q d)"
    then have "inpage s q" "inpage s d" "d \<noteq> q" using t by (auto intro: tree_inpage)
    then show ?thesis using a after_last_facts(1) [OF t(1)] walk_get [OF a(1)] by (intro that [of "mk_result 0"]) auto
  qed (simp add: that)
qed

end
