(* ===== verification/PagingProps.thy ===== *)
theory PagingProps
  imports PagingUnmap
begin

text \<open>
  The properties of kernel/mem/pm.cpp: what \<open>alloc\<close> and \<open>free\<close> do to the set of pages, what
  \<open>map\<close> does to the translation and to the reference counts, for one call and for every state
  that calls of \<open>map\<close> reach, and what \<open>unmap\<close> really does.  The witnesses use the state
  \<open>fresh_tables\<close>, with the layout that \<open>retainLoaderPaging\<close> computes and an empty root.
\<close>

unbundle bit_operations_syntax

section \<open>A concrete state\<close>

definition fresh_tables :: pmst where
  "fresh_tables =
     \<lparr>mem = (\<lambda>_. 0)(0x3FF000 := 1), pagingRange = \<lparr>rstart = 0x100000, rend = 0x3FF000\<rparr>,
      trackingStructure = 0x3FF000, refcountStructure = 0x3FF060, refcountSize = 1536,
      kernelPml4 = 0x100000, currentPml4 = 0x100000\<rparr>"

lemma fresh_tables_fields [simp]:
  "pagingRange fresh_tables = \<lparr>rstart = 0x100000, rend = 0x3FF000\<rparr>"
  "trackingStructure fresh_tables = 0x3FF000" "refcountStructure fresh_tables = 0x3FF060"
  by (simp_all add: fresh_tables_def)

lemma fresh_tables_sizes:
  "range_size fresh_tables = 0x2FF000" "tracking_bytes fresh_tables = 96" "refcount_bytes fresh_tables = 1536"
  by (simp_all add: range_size_def tracking_bytes_def refcount_bytes_def)

lemma fresh_tables_geom: "geom fresh_tables"
proof -
  have "region (0x3FF000 :: u64) 96 \<inter> region 0x100000 0x2FF000 = {}"
    "region (0x3FF060 :: u64) 1536 \<inter> region 0x100000 0x2FF000 = {}"
    "region (0x3FF000 :: u64) 96 \<inter> region 0x3FF060 1536 = {}"
    by (intro region_disjoint; simp)+
  then show ?thesis by (simp add: geom_def fresh_tables_sizes)
qed

lemma fresh_tables_zero: "x \<noteq> 0x3FF000 \<Longrightarrow> mem fresh_tables x = 0"
  by (simp add: fresh_tables_def)

lemma fresh_tables_entry: "inpage fresh_tables t \<Longrightarrow> i < 512 \<Longrightarrow> at64 fresh_tables t i = 0"
proof -
  assume a: "inpage fresh_tables t" "i < 512"
  have "region (elem t 8 (unat i)) 8 \<subseteq> region 0x100000 0x2FF000"
    using page_entry_sub [OF a(2), of t] page_in_range [OF fresh_tables_geom a(1)]
    by (auto simp: fresh_tables_sizes)
  moreover have "(0x3FF000 :: u64) \<notin> region 0x100000 0x2FF000" by (simp add: in_region_iff)
  ultimately show ?thesis
    unfolding at64_def elem_word ld64_def
    by (intro rd_zero fresh_tables_zero) auto
qed

lemma fresh_tables_refs: "inpage fresh_tables t \<Longrightarrow> refs fresh_tables t = 0"
proof -
  assume a: "inpage fresh_tables t"
  note r = refcount_index_sub [OF fresh_tables_geom a, of "0x3FF060"]
  have "(0x3FF000 :: u64) \<notin> region 0x3FF060 1536" by (simp add: in_region_iff)
  then show ?thesis
    using r unfolding refs_def at16_def elem_word ld16_def
    by (intro rd_zero fresh_tables_zero) (auto simp: fresh_tables_sizes)
qed

lemma fresh_tables_cell: "ld64 (mem fresh_tables) 0x3FF000 = 1"
  by (simp add: fresh_tables_def ld64_def rd_numeral)

lemma fresh_tables_tracked: "tracked fresh_tables 0x100000"
  by (simp add: tracked_def at64_def PM_TRACKING_INDEX_def PM_TRACKING_BIT_def fresh_tables_cell)

lemma fresh_tables_free: "{0x101000, 0x102000} \<subseteq> free_pages fresh_tables"
  by (auto simp: free_pages_def inpage_def tracked_def at64_def PM_TRACKING_INDEX_def
      PM_TRACKING_BIT_def fresh_tables_cell)

lemma fresh_tables_pt_ok: "pt_ok fresh_tables 0x100000"
  unfolding pt_ok_def
proof (intro conjI exI [of _ "\<lambda>t. if t = 0x100000 then Root else NoRole"] fresh_tables_geom)
  have root: "inpage fresh_tables 0x100000" by (simp add: inpage_def)
  have "link fresh_tables 0x100000 i = None" if "i < 512" for i
    using that root by (simp add: link_def fresh_tables_entry)
  then show "tree fresh_tables 0x100000 (\<lambda>t. if t = 0x100000 then Root else NoRole)"
    using root by (auto simp: tree_def fresh_tables_tracked)
  show "counted fresh_tables (\<lambda>t. if t = 0x100000 then Root else NoRole)"
    by (auto simp: counted_def fresh_tables_refs)
qed

lemma free_pages_finite: "finite (free_pages s)"
  by simp

lemma fresh_tables_room: "2 \<le> card (free_pages fresh_tables)"
proof -
  have "card {0x101000 :: u64, 0x102000} \<le> card (free_pages fresh_tables)"
    by (intro card_mono free_pages_finite fresh_tables_free)
  then show ?thesis by simp
qed

lemma fresh_tables_get: "canonical v \<Longrightarrow> pml4_get fresh_tables 0x100000 v = None"
proof -
  assume "canonical v"
  then have "link fresh_tables 0x100000 (pml4_index v) = None"
    by (simp add: link_def fresh_tables_entry pml4_index_bound canonical_def inpage_def)
  then show ?thesis by (simp add: pml4_get_leaf leaf_def)
qed


lemma fresh_tables_map:
  obtains s' where "pml4_map fresh_tables 0x100000 0x80000000 0x600000 1 = ret s'" "pt_ok s' 0x100000"
    "\<And>x. canonical x \<Longrightarrow> pml4_get s' 0x100000 x =
       (if frame_addr x = 0x80000000 then Some (mapped_to 1 0x600000 x) else None)"
proof -
  have "vpage 0x80000000" "ppage 0x600000" by (simp_all add: vpage_def ppage_def canonical_def)
  then show ?thesis
  proof (rule pml4_map_outcomes [OF fresh_tables_pt_ok, where flags = 1])
    fix s' assume "pml4_map fresh_tables 0x100000 0x80000000 0x600000 1 = ret s'" "pt_ok s' 0x100000"
      "\<And>x. canonical x \<Longrightarrow> pml4_get s' 0x100000 x =
        (if frame_addr x = 0x80000000 then Some (mapped_to 1 0x600000 x) else pml4_get fresh_tables 0x100000 x)"
    then show ?thesis by (intro that [of s']) (simp_all add: fresh_tables_get)
  qed (use fresh_tables_get [of "0x80000000"] fresh_tables_room in \<open>simp_all add: canonical_def\<close>)
qed

lemma minus_1_u16: "(- 1 :: u16) = 0xFFFF"
  by simp

section \<open>Pages of paging structures\<close>

text \<open>
  C21. \<open>pm::alloc\<close> returns for every state with the layout of the kernel: it takes the lowest
  page of the range whose tracking bit is clear, sets that bit and no other, clears the page and
  leaves the entries of every other page and all reference counts alone; it returns \<open>none\<close>
  exactly when every page is taken.
\<close>

theorem alloc_first_fit:
  assumes "geom s"
  shows "\<exists>r s'. pm_alloc s = ret (r, s') \<and>
     (case r of
        None \<Rightarrow> s' = s \<and> free_pages s = {}
      | Some t \<Rightarrow>
          t \<in> free_pages s \<and> (\<forall>a\<in>free_pages s. t \<le> a) \<and> free_pages s' = free_pages s - {t} \<and>
          (\<forall>a i. inpage s a \<and> i < 512 \<longrightarrow> at64 s' a i = (if a = t then 0 else at64 s a i)) \<and>
          (\<forall>a. inpage s a \<longrightarrow> refs s' a = refs s a))"
proof (cases rule: pm_alloc_cases [OF assms, case_names some none])
  case (some t)
  have f: "free_pages (alloc_at s t) = free_pages s - {t}"
    using some assms by (auto simp: free_pages_def alloc_at)
  have "t \<in> free_pages s" "\<forall>a\<in>free_pages s. t \<le> a"
    using some by (auto simp: free_pages_def not_less [symmetric])
  then show ?thesis using some(1,4) f assms by (simp add: alloc_at)
next
  case none
  then show ?thesis by (auto simp: free_pages_def)
qed

theorem alloc_first_fit_witness:
  "\<exists>r s'. pm_alloc fresh_tables = ret (r, s') \<and> r \<noteq> None"
  using alloc_first_fit [OF fresh_tables_geom] fresh_tables_free by (auto split: option.splits)

text \<open>
  C22. \<open>pm::free\<close> undoes \<open>pm::alloc\<close> on the tracking bits: freeing the page that was just
  allocated succeeds and restores the set of free pages, and freeing it a second time fails
  the assertion.
\<close>

theorem alloc_free_roundtrip:
  assumes "geom s" and "pm_alloc s = ret (Some t, s1)"
  shows "\<exists>s2. pm_free s1 t = ret s2 \<and> free_pages s2 = free_pages s \<and>
     pm_free s2 t = halt (AssertFail ''m_pagingTrackingStructure[idx] & bit'')"
proof -
  have t: "inpage s t" "\<not> tracked s t" "s1 = alloc_at s t"
    using assms(2) by (auto intro: pm_alloc_cases [OF assms(1)])
  have "pm_free s1 t = ret (released s1 t)"
    using t assms(1) by (simp add: pm_free_released alloc_at)
  moreover have "free_pages (released s1 t) = free_pages s"
    using t assms(1) by (auto simp: free_pages_def released_tracked alloc_at)
  moreover have "\<not> tracked (released s1 t) t" using t assms(1) by (simp add: released_tracked)
  ultimately show ?thesis by (simp add: pm_free_eq)
qed

theorem alloc_free_roundtrip_witness:
  "\<exists>t s1 s2. pm_alloc fresh_tables = ret (Some t, s1) \<and> pm_free s1 t = ret s2 \<and>
     free_pages s2 = free_pages fresh_tables"
proof (rule alloc_free_cases [OF fresh_tables_geom])
  fix t assume a: "pm_alloc fresh_tables = ret (Some t, alloc_at fresh_tables t)"
  show ?thesis using a alloc_free_roundtrip [OF fresh_tables_geom a] by blast
qed (use fresh_tables_free in auto)

text \<open>
  Counting a page up and down again restores the reference counts of all pages, unless the
  count was 65535: then \<open>incRefs\<close> wraps to 0 and \<open>decRefs\<close> leaves it there.
\<close>

lemma incRefs_decRefs:
  assumes "geom s" and "inpage s t"
  shows "\<exists>s1 s2 n. pm_incRefs s t = ret (refs s t + 1, s1) \<and> pm_decRefs s1 t = ret (n, s2) \<and>
     n = (if refs s t = 0xFFFF then 0 else refs s t) \<and>
     (\<forall>a. inpage s a \<longrightarrow> refs s2 a = (if a = t then n else refs s a))"
proof -
  have w: "refs s t + 1 = 0 \<longleftrightarrow> refs s t = 0xFFFF"
    by (metis diff_eq_eq diff_0 minus_1_u16)
  have "refs (put_refs s t (refs s t + 1)) t = refs s t + 1" using assms by (simp add: put_refs)
  then show ?thesis
    using assms w by (auto simp: pm_incRefs_eq pm_decRefs_eq put_refs)
qed

section \<open>Mapping\<close>

text \<open>
  C13. A successful \<open>Pml4::map\<close> of a 2 MiB page changes the translation \<open>get\<close> computes at the
  addresses of that page, to the frame with the offset kept, and at no other address; the
  tables are a well-formed tree with correct reference counts again.
\<close>

theorem map_translation:
  assumes "pt_ok s p" and "vpage v" and "ppage pa" and "pml4_map s p v pa flags = ret s'"
  shows "pt_ok s' p \<and> (\<forall>x. canonical x \<longrightarrow>
     pml4_get s' p x = (if frame_addr x = v then Some (mapped_to flags pa x) else pml4_get s p x))"
  using assms(4) by (cases rule: pml4_map_outcomes [OF assms(1-3), of flags]) auto

theorem map_translation_witness:
  "\<exists>s'. pml4_map fresh_tables 0x100000 0x80000000 0x600000 1 = ret s' \<and>
     pml4_get s' 0x100000 0x80012345 = Some 0x612345 \<and> pml4_get s' 0x100000 0x80200000 = None"
proof (rule fresh_tables_map)
  fix s' assume m: "pml4_map fresh_tables 0x100000 0x80000000 0x600000 1 = ret s'"
  have "vpage 0x80000000" "ppage 0x600000" by (simp_all add: vpage_def ppage_def canonical_def)
  note t = map_translation [OF fresh_tables_pt_ok this m]
  have "pml4_get s' 0x100000 0x80012345 = Some 0x612345"
    using t by (simp add: canonical_def frame_addr_def mapped_to_def leaf_value_def F_PRESENT_def F_PS_def)
  moreover have "pml4_get s' 0x100000 0x80200000 = None"
    using t by (simp add: canonical_def frame_addr_def fresh_tables_get)
  ultimately show ?thesis using m by blast
qed

text \<open>
  C14. \<open>Pml4::map\<close> always returns or halts: a mapped page panics with the message of the code; an unmapped page is
  mapped when two pages are free (one call takes at most two), and otherwise either mapped or
  refused with a panic of \<open>alloc\<close>.
\<close>

theorem map_outcome:
  assumes "pt_ok s p" and "vpage v" and "ppage pa"
  shows "if pml4_get s p v \<noteq> None
     then pml4_map s p v pa flags = halt (Panic ''Entry is already present\<newline>'')
     else (\<exists>s'. pml4_map s p v pa flags = ret s' \<and> card (free_pages s) \<le> card (free_pages s') + 2) \<or>
       card (free_pages s) < 2 \<and> (\<exists>msg. pml4_map s p v pa flags = halt (Panic msg))"
  by (cases rule: pml4_map_outcomes [OF assms, of flags]) auto

theorem map_outcome_witness:
  "\<exists>s'. pml4_map fresh_tables 0x100000 0x80000000 0x600000 0 = ret s'"
proof -
  have "vpage 0x80000000" "ppage 0x600000" by (simp_all add: vpage_def ppage_def canonical_def)
  from map_outcome [OF fresh_tables_pt_ok this] show ?thesis
    using fresh_tables_room fresh_tables_get [of "0x80000000"] by (auto simp: canonical_def)
qed

text \<open>The states that successful calls of \<open>map\<close> reach, with the calls made.\<close>

inductive map_run :: "u64 \<Rightarrow> pmst \<Rightarrow> (u64 \<times> u64 \<times> u64) list \<Rightarrow> pmst \<Rightarrow> bool" for p where
  map_run_none: "map_run p s [] s"
| map_run_step: "map_run p s cs s' \<Longrightarrow> vpage v \<Longrightarrow> ppage pa \<Longrightarrow> pml4_map s' p v pa flags = ret s'' \<Longrightarrow>
    map_run p s (cs @ [(v, pa, flags)]) s''"

inductive_cases map_run_NilE: "map_run p s [] s'"

lemma map_run_facts:
  "map_run p s cs s' \<Longrightarrow> pt_ok s p \<Longrightarrow>
   pt_ok s' p \<and> distinct (map fst cs) \<and> (\<forall>v\<in>set (map fst cs). vpage v \<and> pml4_get s p v = None) \<and>
   (\<forall>x. canonical x \<longrightarrow> pml4_get s' p x = (case map_of cs (frame_addr x) of
      Some (pa, flags) \<Rightarrow> Some (mapped_to flags pa x) | None \<Rightarrow> pml4_get s p x))"
proof (induction rule: map_run.induct)
  case (map_run_none s)
  then show ?case by simp
next
  case (map_run_step s cs s' v pa flags s'')
  note IH = map_run_step.IH [OF map_run_step.prems]
  have cv: "canonical v" "frame_addr v = v"
    using map_run_step.hyps(2) by (simp_all add: vpage_def frame_addr_aligned)
  show ?case
  proof (cases rule: pml4_map_outcomes [OF conjunct1 [OF IH] map_run_step.hyps(2,3), of flags, case_names present mapped full])
    case (mapped u)
    then have u: "u = s''" using map_run_step.hyps(4) by simp
    have new: "map_of cs v = None" "pml4_get s p v = None"
      using IH mapped(1) cv by (auto split: option.splits)
    have "pml4_get s'' p x = (case map_of (cs @ [(v, pa, flags)]) (frame_addr x) of
        Some (pa, flags) \<Rightarrow> Some (mapped_to flags pa x) | None \<Rightarrow> pml4_get s p x)" if "canonical x" for x
      using that mapped(4) IH new u by (auto simp: map_add_def split: option.splits)
    then show ?thesis
      using IH mapped(3) new u map_run_step.hyps(2) by (auto simp: map_of_eq_None_iff)
  qed (use IH map_run_step.hyps in auto)
qed

text \<open>
  C3. Over any sequence of successful calls of \<open>map\<close> the tables stay a well-formed tree, no
  page is mapped twice, and the final translation is exactly the calls made on top of the
  first: each mapped page at its own frame, every other address as before.
\<close>

theorem map_run_refines:
  assumes "map_run p s cs s'" and "pt_ok s p"
  shows "pt_ok s' p \<and> distinct (map fst cs) \<and>
    (\<forall>x. canonical x \<longrightarrow> pml4_get s' p x = (case map_of cs (frame_addr x) of
       Some (pa, flags) \<Rightarrow> Some (mapped_to flags pa x) | None \<Rightarrow> pml4_get s p x))"
  using map_run_facts [OF assms] by simp

theorem map_run_refines_witness:
  "\<exists>s'. map_run 0x100000 fresh_tables [(0x80000000, 0x600000, 1)] s' \<and> pt_ok s' 0x100000 \<and>
     pml4_get s' 0x100000 0x80000000 = Some 0x600000"
proof (rule fresh_tables_map)
  fix s' assume m: "pml4_map fresh_tables 0x100000 0x80000000 0x600000 1 = ret s'"
  have "map_run 0x100000 fresh_tables ([] @ [(0x80000000, 0x600000, 1)]) s'"
    by (rule map_run_step [OF map_run_none _ _ m]) (simp_all add: vpage_def ppage_def canonical_def)
  then have r: "map_run 0x100000 fresh_tables [(0x80000000, 0x600000, 1)] s'" by simp
  show ?thesis using r map_run_refines [OF r fresh_tables_pt_ok]
    by (auto simp: canonical_def frame_addr_def mapped_to_def leaf_value_def F_PRESENT_def F_PS_def)
qed

section \<open>Unmapping\<close>

lemma get_blocks_map:
  assumes "pml4_get s p v \<noteq> None" and "vpage v" and "ppage pa"
  shows "pml4_map s p v pa flags = halt (Panic ''Entry is already present\<newline>'')"
proof -
  have "frame_addr v = v" using assms(2) by (simp add: vpage_def frame_addr_aligned)
  then show ?thesis using assms
    by (auto simp: pml4_get_def pml4_map_def vpage_def ppage_def Let_def opt_none_def split: if_splits)
qed

text \<open>
  C19. \<open>Pml4::unmap\<close> of a 2 MiB page never halts and reports success exactly for a mapped page,
  but it removes no translation: afterwards \<open>get\<close> answers as before at every address, the
  unmapped page included.
\<close>

theorem unmap_keeps_translation:
  assumes "pt_ok s p" and "vpage v"
  shows "\<exists>r s'. pml4_unmap s p v = ret (r, s') \<and> (result_bool r \<longleftrightarrow> pml4_get s p v \<noteq> None) \<and>
     (\<forall>x. canonical x \<longrightarrow> pml4_get s' p x = pml4_get s p x)"
proof (rule pml4_unmap_same_tables [OF assms])
  fix r s' assume "pml4_unmap s p v = ret (r, s')" "same_tables s s'"
    "r = mk_result (if pml4_get s p v = None then 1 else 0)"
  moreover obtain \<rho> where "tree s p \<rho>" using assms(1) by (auto simp: pt_ok_def)
  ultimately show ?thesis using same_tables_get [of s p \<rho> s'] by simp
qed

theorem unmap_keeps_translation_witness:
  "\<exists>s1 r s2. pml4_map fresh_tables 0x100000 0x80000000 0x600000 1 = ret s1 \<and>
     pml4_unmap s1 0x100000 0x80000000 = ret (r, s2) \<and> result_bool r \<and>
     pml4_get s2 0x100000 0x80000000 = Some 0x600000"
proof (rule fresh_tables_map)
  fix s1 assume m: "pml4_map fresh_tables 0x100000 0x80000000 0x600000 1 = ret s1" "pt_ok s1 0x100000"
    "\<And>x. canonical x \<Longrightarrow> pml4_get s1 0x100000 x =
       (if frame_addr x = 0x80000000 then Some (mapped_to 1 0x600000 x) else None)"
  have g: "canonical 0x80000000" "vpage 0x80000000" by (simp_all add: vpage_def canonical_def)
  have "pml4_get s1 0x100000 0x80000000 = Some 0x600000"
    using m(3) [OF g(1)]
    by (simp add: frame_addr_def mapped_to_def leaf_value_def F_PRESENT_def F_PS_def)
  then show ?thesis using m(1) unmap_keeps_translation [OF m(2) g(2)] g(1) by auto
qed

text \<open>
  C20. A page that was unmapped can never be mapped again: \<open>map\<close> panics because the entry is
  still present.
\<close>

theorem remap_after_unmap_panics:
  assumes "pt_ok s p" and "vpage v" and "pml4_get s p v \<noteq> None"
    and "pml4_unmap s p v = ret (r, s')" and "ppage pa"
  shows "pml4_map s' p v pa flags = halt (Panic ''Entry is already present\<newline>'')"
proof (rule pml4_unmap_same_tables [OF assms(1,2)])
  fix r1 s1 assume "pml4_unmap s p v = ret (r1, s1)" "same_tables s s1"
  then have "pml4_get s' p v = pml4_get s p v"
    using assms same_tables_get [of s p _ s1 v] by (auto simp: pt_ok_def vpage_def)
  then show ?thesis using assms by (intro get_blocks_map) simp_all
qed

theorem remap_after_unmap_panics_witness:
  "\<exists>s1 r s2. pml4_map fresh_tables 0x100000 0x80000000 0x600000 1 = ret s1 \<and>
     pml4_unmap s1 0x100000 0x80000000 = ret (r, s2) \<and>
     pml4_map s2 0x100000 0x80000000 0x600000 1 = halt (Panic ''Entry is already present\<newline>'')"
proof (rule fresh_tables_map)
  fix s1 assume m: "pml4_map fresh_tables 0x100000 0x80000000 0x600000 1 = ret s1" "pt_ok s1 0x100000"
    "\<And>x. canonical x \<Longrightarrow> pml4_get s1 0x100000 x =
       (if frame_addr x = 0x80000000 then Some (mapped_to 1 0x600000 x) else None)"
  have g: "canonical 0x80000000" "vpage 0x80000000" "ppage 0x600000"
    by (simp_all add: vpage_def canonical_def ppage_def)
  have "pml4_get s1 0x100000 0x80000000 \<noteq> None" using m(3) [OF g(1)] by (simp add: frame_addr_def)
  note r = remap_after_unmap_panics [OF m(2) g(2) this _ g(3)]
  show ?thesis
  proof (rule pml4_unmap_same_tables [OF m(2) g(2)])
    fix r s2 assume "pml4_unmap s1 0x100000 0x80000000 = ret (r, s2)"
    then show ?thesis using m(1) r by blast
  qed
qed

text \<open>
  C18. Unmapping the last page of a page directory gives the directory back to \<open>pm::alloc\<close> while
  the PDPT still points at it: the directory is free, the address still translates through it,
  and no labelling makes the tables a tree over allocated pages any more.
\<close>

theorem unmap_last_dangles:
  assumes "geom s" and "tree s p \<rho>" and "counted s \<rho>" and "vpage v" and "pml4_get s p v \<noteq> None"
    and "\<rho> d = PdOf (pml4_index v) (pdpt_index v)" and "entries s d = 1"
  shows "\<exists>s'. pml4_unmap s p v = ret (mk_result 0, s') \<and> d \<in> free_pages s' \<and>
     pml4_get s' p v = pml4_get s p v \<and> \<not> pt_ok s' p"
proof (rule pml4_unmap_outcomes [OF assms(1-4)])
  have one: "d' = d" if "\<rho> d' = PdOf (pml4_index v) (pdpt_index v)" for d'
    using tree_pd_iff [OF assms(2), of d "pml4_index v" "pdpt_index v"] that assms(6)
      tree_pd_iff [OF assms(2), of d' "pml4_index v" "pdpt_index v"]
      tree_pdpt_iff [OF assms(2)] by auto
  fix d' assume "\<rho> d' = PdOf (pml4_index v) (pdpt_index v)" "1 < entries s d'"
  then show ?thesis using one assms(7) by fastforce
next
  fix q d' assume w: "walk s p v q d'" and a: "\<rho> q = PdptOf (pml4_index v)"
    "\<rho> d' = PdOf (pml4_index v) (pdpt_index v)" "pml4_unmap s p v = ret (mk_result 0, after_last s q d')"
  have lq: "link s q (pdpt_index v) = Some d'" using w by (simp add: walk_def)
  have d: "d' = d" using a lq assms(6) tree_pd_iff [OF assms(2), of d] tree_pdpt_iff [OF assms(2)] by auto
  have ip: "inpage s q" "inpage s d" "d \<noteq> q" "inpage s p"
    using a assms(2,6) tree_root [OF assms(2)] by (auto intro: tree_inpage)
  note f = after_last_facts [OF assms(1) ip(2,1,3)]
  have same: "inpage s t \<Longrightarrow> i < 512 \<Longrightarrow> link (after_last s q d) t i = link s t i" for t i
    using f(1) by (simp add: same_tables_def link_def)
  have o: "only_mem s (after_last s q d)" using f(1) by (simp add: same_tables_def)
  have i: "pml4_index v < 512" using assms(4) by (simp add: vpage_def canonical_def pml4_index_bound)
  have fr: "d \<in> free_pages (after_last s q d)" "\<not> tracked (after_last s q d) d"
    using f(2) [OF ip(2)] ip by (simp_all add: free_pages_def only_mem_inpage [OF o])
  have "\<not> tree (after_last s q d) p \<rho>'" for \<rho>'
  proof
    assume t: "tree (after_last s q d) p \<rho>'"
    have "link (after_last s q d) p (pml4_index v) = Some q"
      using a(1) i ip same tree_pdpt_iff [OF assms(2)] by simp
    then have "\<rho>' q = PdptOf (pml4_index v)" using t i by (blast intro: tree_pdpt)
    moreover have "link (after_last s q d) q (pdpt_index v) = Some d"
      using same [OF ip(1) index_bounds(1), of v] lq d by metis
    ultimately have "\<rho>' d = PdOf (pml4_index v) (pdpt_index v)"
      using index_bounds(1) by (blast intro: tree_pd [OF t])
    then show False using t fr(2) by (metis tree_tracked role.distinct(5))
  qed
  moreover have "pml4_get (after_last s q d) p v = pml4_get s p v"
    using same_tables_get [OF assms(2) f(1)] assms(4) by (simp add: vpage_def)
  ultimately show ?thesis using a(3) fr(1) d by (auto simp: pt_ok_def)
qed (use assms(5) in simp)

lemma entries_one_leaf:
  assumes "\<And>k'. k' < 512 \<Longrightarrow> present (at64 s d k') \<longleftrightarrow> k' = k" and "k < 512"
  shows "entries s d = 1"
proof -
  have "{k'. k' < 512 \<and> present (at64 s d k')} = {k}" using assms by auto
  then show ?thesis by (simp add: entries_def)
qed

lemma fresh_tables_tree:
  obtains s' \<rho> d where "pml4_map fresh_tables 0x100000 0x80000000 0x600000 1 = ret s'" "geom s'"
    "tree s' 0x100000 \<rho>" "counted s' \<rho>" "\<rho> d = PdOf 0 2" "entries s' d = 1"
    "pml4_get s' 0x100000 0x80000000 \<noteq> None"
proof -
  have p: "pml4_index 0x80000000 = 0" "pdpt_index 0x80000000 = 2" "pd_index 0x80000000 = 0"
    by (simp_all add: pml4_index_def pdpt_index_def pd_index_def)
  obtain \<rho>0 where t0: "geom fresh_tables" "tree fresh_tables 0x100000 \<rho>0" "counted fresh_tables \<rho>0"
    using fresh_tables_pt_ok by (auto simp: pt_ok_def)
  have none: "leaf fresh_tables 0x100000 0 j k = None" for j k
    using fresh_tables_entry [of "0x100000" 0] by (simp add: leaf_def link_def inpage_def)
  show ?thesis
  proof (rule pml4_map_cases [OF t0, of "0x80000000" "0x600000" 1, unfolded p])
    fix s' \<rho> assume m: "pml4_map fresh_tables 0x100000 0x80000000 0x600000 1 = ret s'"
      "extends fresh_tables 0x100000 s' \<rho> 0 2 0 (leaf_value 0x600000 1)"
    have t: "tree s' 0x100000 \<rho>" "counted s' \<rho>" "geom s'"
      using m(2) t0(1) by (auto simp: extends_def only_mem_geom [OF pt_only_mem])
    have lf: "leaf s' 0x100000 0 2 k = (if k = 0 then Some (leaf_value 0x600000 1) else None)" if "k < 512" for k
      using m(2) that none by (simp add: extends_def)
    obtain q d where l: "link s' 0x100000 0 = Some q" "link s' q 2 = Some d"
      using lf [of 0] by (auto simp: leaf_def bind_eq_Some_conv)
    have "\<rho> q = PdptOf 0" using l(1) by (intro tree_pdpt [OF t(1)]) simp_all
    then have d: "\<rho> d = PdOf 0 2" using l(2) by (intro tree_pd [OF t(1)]) simp_all
    have "present (at64 s' d k) \<longleftrightarrow> k = 0" if "k < 512" for k
      using lf [OF that] l by (auto simp: leaf_def split: if_splits)
    then have "entries s' d = 1" by (intro entries_one_leaf [of _ _ 0]) simp_all
    moreover have "pml4_get s' 0x100000 0x80000000 \<noteq> None"
      using lf [of 0] by (simp add: pml4_get_leaf p)
    ultimately show ?thesis using that m(1) t d by blast
  qed (use fresh_tables_room none in simp_all)
qed

theorem unmap_last_dangles_witness:
  "\<exists>s1 s2 d. pml4_map fresh_tables 0x100000 0x80000000 0x600000 1 = ret s1 \<and>
     pml4_unmap s1 0x100000 0x80000000 = ret (mk_result 0, s2) \<and> d \<in> free_pages s2 \<and>
     pml4_get s2 0x100000 0x80000000 \<noteq> None \<and> \<not> pt_ok s2 0x100000"
proof (rule fresh_tables_tree)
  fix s1 \<rho> d assume m: "pml4_map fresh_tables 0x100000 0x80000000 0x600000 1 = ret s1" "geom s1"
    "tree s1 0x100000 \<rho>" "counted s1 \<rho>" "\<rho> d = PdOf 0 2" "entries s1 d = 1"
    "pml4_get s1 0x100000 0x80000000 \<noteq> None"
  have "vpage 0x80000000" "pml4_index 0x80000000 = 0" "pdpt_index 0x80000000 = 2"
    by (simp_all add: vpage_def canonical_def pml4_index_def pdpt_index_def)
  then show ?thesis
    using unmap_last_dangles [OF m(2-4), of "0x80000000" d] m by auto
qed

end
