(* ===== verification/VirtualRange.thy ===== *)
theory VirtualRange
  imports AddressSpace
begin

text \<open>
  The search of \<open>findVirtualRange\<close> and the binding loop of \<open>mm::alloc\<close>, related to functions on
  lists: the search is a first-fit \<open>find\<close> over the candidate addresses, the binding loop an
  \<open>insert_all\<close> of the pages of the range.
\<close>

unbundle bit_operations_syntax

section \<open>The pages of a range\<close>

definition page_at :: "u64 \<Rightarrow> nat \<Rightarrow> u64" where
  "page_at v i = v + of_nat i * 0x200000"

lemma unat_page_at:
  assumes "unat v + i * 0x200000 < 2 ^ 64"
  shows "unat (page_at v i) = unat v + i * 0x200000"
proof -
  have "unat (of_nat i * 0x200000 :: u64) = i * 0x200000"
    using assms by (simp add: unat_word_ariths unat_of_nat_small)
  then show ?thesis using assms by (simp add: page_at_def unat_add_small)
qed

lemma page_at_word: "i < 2 ^ 64 \<Longrightarrow> v + of_nat i * 0x200000 = page_at v i"
  by (simp add: page_at_def)

definition range_free :: "pmst \<Rightarrow> u64 \<Rightarrow> nat \<Rightarrow> u64 \<Rightarrow> bool" where
  "range_free s p n v \<longleftrightarrow> (\<forall>i<n. pml4_get s p (page_at v i) = None)"

definition candidate_count :: nat where "candidate_count = 134214656"

definition candidates :: "u64 list" where
  "candidates = map (page_at 0x80000000) [0..<candidate_count]"

lemma unat_candidate:
  "i < candidate_count \<Longrightarrow> unat (page_at 0x80000000 i) = 0x80000000 + i * 0x200000"
  by (subst unat_page_at) (simp_all add: candidate_count_def)

lemma candidate_facts:
  assumes "c \<in> set candidates"
  shows "2097152 dvd unat c" and "0x80000000 \<le> unat c" and "unat c < 0xFFFF00000000"
proof -
  obtain i where i: "i < candidate_count" "c = page_at 0x80000000 i"
    using assms by (auto simp: candidates_def)
  then have u: "unat c = 0x80000000 + i * 0x200000" by (simp add: unat_candidate)
  have "0x80000000 = 1024 * (2097152 :: nat)" by simp
  then have "unat c = (1024 + i) * 2097152" using u by simp
  then show "2097152 dvd unat c" by simp
  show "0x80000000 \<le> unat c" "unat c < 0xFFFF00000000"
    using u i(1) by (simp_all add: candidate_count_def)
qed

text \<open>The pages of a candidate are canonical, aligned and different.\<close>

lemma candidate_pages:
  assumes "c \<in> set candidates" and "n \<le> 32" and "i < n"
  shows "unat (page_at c i) = unat c + i * 0x200000" and "vpage (page_at c i)"
proof -
  have "i * 0x200000 \<le> 31 * 0x200000" using assms by (intro mult_le_mono1) simp
  then show u: "unat (page_at c i) = unat c + i * 0x200000"
    using candidate_facts [OF assms(1)] by (intro unat_page_at) simp
  have "i * 0x200000 < 32 * 0x200000" using assms(2,3) by simp
  then show "vpage (page_at c i)"
    using candidate_facts [OF assms(1)] u
    by (simp add: vpage_def canonical_def and_1fffff_0 word_less_nat_alt)
qed

lemma candidate_pages_inj:
  assumes "c \<in> set candidates" and "n \<le> 32" and "i < n" and "j < n" and "page_at c i = page_at c j"
  shows "i = j"
proof -
  have "unat c + i * 0x200000 = unat c + j * 0x200000"
    using candidate_pages(1) [OF assms(1,2,3)] candidate_pages(1) [OF assms(1,2,4)] assms(5) by metis
  then show ?thesis by simp
qed

section \<open>The search\<close>

lemma some_mapped_values:
  "rng_values it e = Some vs \<Longrightarrow> some_mapped s p it e = Some (\<exists>v\<in>set vs. pml4_get s p v \<noteq> None)"
proof (induction vs arbitrary: it)
  case Nil
  then have "\<not> it_neq it e"
    by (subst (asm) rng_values.simps) (auto simp: bind_eq_Some_conv split: if_splits)
  then show ?case by (simp add: some_mapped.simps [of s p it e])
next
  case (Cons v vs)
  then have "it_neq it e" "it_value it = v" "rng_values (it_next it) e = Some vs"
    by (subst (asm) (2) rng_values.simps, auto simp: bind_eq_Some_conv split: if_splits)+
  then show ?case using Cons.IH [of "it_next it"]
    by (auto simp: some_mapped.simps [of s p it e] opt_bool_def)
qed

lemma range_values:
  assumes "c \<in> set candidates" and "unat pageCount \<le> 32"
  defines "r \<equiv> rng_iter \<lparr>rstart = c, rend = c + pageCount * 0x200000\<rparr> 0x200000"
  shows "rng_values (rng_begin r) (rng_end r) = Some (map (page_at c) [0..<unat pageCount])"
proof -
  have m: "unat pageCount * 0x200000 \<le> 32 * 0x200000" using assms(2) by (intro mult_le_mono1)
  have e: "c + pageCount * 0x200000 = page_at c (unat pageCount)" by (simp add: page_at_def)
  have u: "unat (page_at c (unat pageCount)) = unat c + unat pageCount * 0x200000"
    using candidate_facts(3) [OF assms(1)] m by (intro unat_page_at) simp
  have "rng_values (rng_begin r) (rng_end r) =
    Some (map (\<lambda>i. it_value (rng_begin r) + of_nat i * it_step (rng_begin r)) [0..<unat pageCount])"
    using u m candidate_facts(3) [OF assms(1)]
    by (intro rng_values_upt) (simp_all add: r_def rng_iter_def rng_begin_def rng_end_def e)
  then show ?thesis by (simp add: r_def rng_iter_def rng_begin_def page_at_def)
qed

lemma findVirtualRange_loop_values:
  assumes "unat pageCount \<le> 32"
  shows "rng_values it e = Some cs \<Longrightarrow> set cs \<subseteq> set candidates \<Longrightarrow>
    findVirtualRange_loop s p pageCount it e = Some (List.find (range_free s p (unat pageCount)) cs)"
proof (induction cs arbitrary: it)
  case Nil
  then have "\<not> it_neq it e"
    by (subst (asm) rng_values.simps) (auto simp: bind_eq_Some_conv split: if_splits)
  then show ?case by (simp add: findVirtualRange_loop.simps [of s p pageCount it e] opt_none_def)
next
  case (Cons c cs)
  have st: "it_neq it e" "it_value it = c" "rng_values (it_next it) e = Some cs"
    using Cons.prems(1)
    by (subst (asm) rng_values.simps, auto simp: bind_eq_Some_conv split: if_splits)+
  have c: "c \<in> set candidates" using Cons.prems(2) by simp
  have "(\<exists>v\<in>set (map (page_at c) [0..<unat pageCount]). pml4_get s p v \<noteq> None)
      \<longleftrightarrow> \<not> range_free s p (unat pageCount) c"
    by (auto simp: range_free_def)
  then show ?case
    using st Cons.IH [OF st(3)] Cons.prems(2) some_mapped_values [OF range_values [OF c assms]]
    by (simp add: findVirtualRange_loop.simps [of s p pageCount it e] Let_def opt_some_def)
qed

lemma findVirtualRange_first:
  assumes "unat pageCount \<le> 32"
  shows "findVirtualRange s p pageCount = Some (List.find (range_free s p (unat pageCount)) candidates)"
proof -
  let ?it = "rng_begin (rng_iter virtualAllocRange 0x200000)"
  let ?e = "rng_end (rng_iter virtualAllocRange 0x200000)"
  have "rng_values ?it ?e = Some (map (\<lambda>i. it_value ?it + of_nat i * it_step ?it) [0..<candidate_count])"
    by (intro rng_values_upt)
      (simp_all add: rng_iter_def rng_begin_def rng_end_def virtualAllocRange_def candidate_count_def)
  then have "rng_values ?it ?e = Some candidates"
    by (simp add: rng_iter_def rng_begin_def virtualAllocRange_def candidates_def page_at_def [abs_def])
  then show ?thesis
    using findVirtualRange_loop_values [OF assms] by (simp add: findVirtualRange_def Let_def)
qed

section \<open>The binding loop\<close>

lemma bind_loop_insert_all:
  "bind_loop s p v flags (of_nat k) ps =
     insert_all (\<lambda>s w pa. pml4_map s p w pa flags) s (zip (map (page_at v) [k..<k + length ps]) ps)"
proof (induction ps arbitrary: s k)
  case Nil
  then show ?case by simp
next
  case (Cons pa ps)
  have "[k..<k + length (pa # ps)] = k # [Suc k..<Suc k + length ps]"
    by (simp add: upt_conv_Cons del: upt_Suc)
  moreover have "(of_nat k + 1 :: u64) = of_nat (Suc k)" by simp
  ultimately show ?case
    using Cons.IH [of _ "Suc k"] by (simp add: page_at_def [of v k] del: of_nat_Suc upt_Suc cong del: bindR_cong)
qed

lemma map_of_pages:
  assumes "length ps = n" and "inj_on (page_at v) {..<n}"
  shows "i < n \<Longrightarrow> map_of (zip (map (page_at v) [0..<n]) ps) (page_at v i) = Some (ps ! i)"
    and "(\<And>i. i < n \<Longrightarrow> x \<noteq> page_at v i) \<Longrightarrow> map_of (zip (map (page_at v) [0..<n]) ps) x = None"
proof -
  have d: "distinct (map (page_at v) [0..<n])" using assms(2) by (simp add: distinct_map lessThan_atLeast0)
  show "i < n \<Longrightarrow> map_of (zip (map (page_at v) [0..<n]) ps) (page_at v i) = Some (ps ! i)"
    using d assms(1) map_of_zip_nth [of "map (page_at v) [0..<n]" ps i] by simp
  assume "\<And>i. i < n \<Longrightarrow> x \<noteq> page_at v i"
  then have "x \<notin> page_at v ` {..<n}" by blast
  then show "map_of (zip (map (page_at v) [0..<n]) ps) x = None"
    using assms(1) by (simp add: map_of_zip_is_None lessThan_atLeast0)
qed

end
