(* ===== verification/MemManagerProps.thy ===== *)
theory MemManagerProps
  imports VirtualRange PagingProps
begin

text \<open>
  The properties of kernel/mem/mm.cpp: the contract of \<open>mm::alloc\<close> on the translation and on the
  frames, the frames a run of requests is granted, and the ways \<open>mm::free\<close> and the failure path
  of \<open>allocPhysicalPages\<close> differ from what they are for.
\<close>

unbundle bit_operations_syntax

section \<open>The cases of alloc\<close>

definition mm_ok :: "mmst \<Rightarrow> u64 \<Rightarrow> bool" where
  "mm_ok s p \<longleftrightarrow> pt_ok (paging s) p \<and> 512 \<le> length (physicalTracking s)"

lemma frame_ppage: "frame a \<Longrightarrow> ppage a"
  by (simp add: frame_def ppage_def)

lemma candidates_sorted: "sorted_wrt (<) candidates"
  unfolding candidates_def sorted_wrt_map
proof (rule sorted_wrt_mono_rel [where P = "(<)"])
  fix i j assume "i \<in> set [0..<candidate_count]" "j \<in> set [0..<candidate_count]" "i < j"
  then show "page_at 0x80000000 i < page_at 0x80000000 j"
    by (simp add: word_less_nat_alt unat_candidate)
qed simp

lemma find_least:
  fixes xs :: "u64 list"
  assumes "List.find P xs = Some v" and "sorted_wrt (<) xs"
  shows "v \<in> set xs" and "P v" and "\<And>c. c \<in> set xs \<Longrightarrow> c < v \<Longrightarrow> \<not> P c"
  using assms by (induction xs) (auto split: if_splits dest: order.asym)

text \<open>The pages of the range paired with the frames they are bound to.\<close>

definition bindings :: "u64 \<Rightarrow> u64 list \<Rightarrow> (u64 \<times> u64) list" where
  "bindings v ps = zip (map (page_at v) [0..<length ps]) ps"

lemma bindings_facts:
  assumes "c \<in> set candidates" and "length ps \<le> 32" and "\<forall>a\<in>set ps. frame a"
  shows "distinct (map fst (bindings c ps))"
    and "(w, pa) \<in> set (bindings c ps) \<Longrightarrow> vpage w \<and> ppage pa \<and> (\<exists>i<length ps. w = page_at c i)"
    and "i < length ps \<Longrightarrow> map_of (bindings c ps) (page_at c i) = Some (ps ! i)"
    and "(\<And>i. i < length ps \<Longrightarrow> x \<noteq> page_at c i) \<Longrightarrow> map_of (bindings c ps) x = None"
proof -
  have inj: "inj_on (page_at c) {..<length ps}"
    using candidate_pages_inj [OF assms(1,2)] by (auto simp: inj_on_def)
  show "distinct (map fst (bindings c ps))"
    using inj by (simp add: bindings_def distinct_map lessThan_atLeast0)
  show "i < length ps \<Longrightarrow> map_of (bindings c ps) (page_at c i) = Some (ps ! i)"
    using map_of_pages(1) [OF refl inj] by (simp add: bindings_def)
  show "(\<And>i. i < length ps \<Longrightarrow> x \<noteq> page_at c i) \<Longrightarrow> map_of (bindings c ps) x = None"
    using map_of_pages(2) [OF refl inj, of x] by (simp add: bindings_def)
  assume m: "(w, pa) \<in> set (bindings c ps)"
  then obtain i where i: "i < length ps" "w = page_at c i"
    by (auto simp: bindings_def dest!: set_zip_leftD)
  have "pa \<in> set ps" using m by (auto simp: bindings_def dest: set_zip_rightD)
  then show "vpage w \<and> ppage pa \<and> (\<exists>i<length ps. w = page_at c i)"
    using i assms(3) candidate_pages(2) [OF assms(1,2)] by (auto simp: frame_ppage)
qed

definition bind_pages :: "pmst \<Rightarrow> u64 \<Rightarrow> u64 \<Rightarrow> u64 \<Rightarrow> u64 list \<Rightarrow> pmst run" where
  "bind_pages s p flags v ps = insert_all (\<lambda>s w pa. pml4_map s p w pa flags) s (bindings v ps)"

lemma bind_loop_pages: "bind_loop s p v flags 0 ps = bind_pages s p flags v ps"
  using bind_loop_insert_all [of s p v flags 0 ps] by (simp add: bind_pages_def bindings_def)

lemma mm_alloc_cases:
  assumes ok: "mm_ok s p" and n: "0 < unat pageCount" "unat pageCount \<le> 32"
  obtains (no_range) "List.find (range_free (paging s) p (unat pageCount)) candidates = None"
      "mm_alloc s p pageCount flags = ret (None, s)"
    | (no_frames) ps tr' where "allocPhysicalPages (physicalTracking s) pageCount = (mk_result 1, ps, tr')"
      "mm_alloc s p pageCount flags = ret (None, s\<lparr>physicalTracking := tr'\<rparr>)"
    | (bind) v ps tr' where
      "List.find (range_free (paging s) p (unat pageCount)) candidates = Some v"
      "allocPhysicalPages (physicalTracking s) pageCount = (mk_result 0, ps, tr')"
      "loop_result (physicalTracking s) 0x600000 0 pageCount tr' ps pageCount"
      "mm_alloc s p pageCount flags = bindR (bind_pages (paging s) p (ucast flags) v ps)
         (\<lambda>pg. ret (Some v, s\<lparr>physicalTracking := tr', paging := pg\<rparr>))"
proof -
  have pc: "pageCount \<noteq> 0" "pageCount \<le> 32" using n by (auto simp: word_le_nat_alt)
  have tr: "512 \<le> length (physicalTracking s)" using ok by (simp add: mm_ok_def)
  note un = mm_alloc_def pc findVirtualRange_first [OF n(2)] opt_none_def opt_some_def bind_loop_pages
  show ?thesis
  proof (cases "List.find (range_free (paging s) p (unat pageCount)) candidates")
    case None
    then show ?thesis by (intro no_range) (simp_all add: un)
  next
    case (Some v)
    show ?thesis
    proof (rule allocPhysicalPages_cases [OF tr, of pageCount])
      fix ps tr' assume "allocPhysicalPages (physicalTracking s) pageCount = (mk_result 0, ps, tr')"
        "loop_result (physicalTracking s) 0x600000 0 pageCount tr' ps pageCount"
      then show ?thesis using Some by (intro bind) (simp_all add: un cong del: bindR_cong)
    next
      fix ps tr' n assume "allocPhysicalPages (physicalTracking s) pageCount = (mk_result 1, ps, revert_loop tr' ps)"
      then show ?thesis using Some by (intro no_frames) (simp_all add: un)
    qed
  qed
qed

lemma bind_pages_outcome:
  assumes "pt_ok s p" and "v \<in> set candidates" and "length ps \<le> 32" and "\<forall>a\<in>set ps. frame a"
  shows "bind_pages s p fl v ps \<noteq> None"
    and "bind_pages s p fl v ps = ret s' \<Longrightarrow> pt_ok s' p"
    and "bind_pages s p fl v ps = ret s' \<Longrightarrow> i < length ps \<Longrightarrow> frame_addr x = page_at v i \<Longrightarrow> canonical x \<Longrightarrow>
           pml4_get s' p x = Some (mapped_to fl (ps ! i) x)"
    and "bind_pages s p fl v ps = ret s' \<Longrightarrow> (\<And>i. i < length ps \<Longrightarrow> frame_addr x \<noteq> page_at v i) \<Longrightarrow> canonical x \<Longrightarrow>
           pml4_get s' p x = pml4_get s p x"
    and "range_free s p (length ps) v \<Longrightarrow> 2 * length ps \<le> card (free_pages s) \<Longrightarrow>
           \<exists>s'. bind_pages s p fl v ps = ret s' \<and> card (free_pages s) \<le> card (free_pages s') + 2 * length ps"
proof -
  note b = bindings_facts [OF assms(2-4)]
  have pages: "\<And>w pa. (w, pa) \<in> set (bindings v ps) \<Longrightarrow> vpage w \<and> ppage pa"
    by (drule b(2)) simp
  show "bind_pages s p fl v ps \<noteq> None"
    unfolding bind_pages_def by (rule pt.insert_all_total [OF assms(1) pages])
  have len: "length (bindings v ps) = length ps" by (simp add: bindings_def)
  show "\<exists>s'. bind_pages s p fl v ps = ret s' \<and> card (free_pages s) \<le> card (free_pages s') + 2 * length ps"
    if "range_free s p (length ps) v" "2 * length ps \<le> card (free_pages s)"
    unfolding bind_pages_def len [symmetric]
  proof (rule pt.insert_all_ok [OF assms(1) _ b(1)])
    fix w pa assume "(w, pa) \<in> set (bindings v ps)"
    from b(2) [OF this] show "vpage w \<and> ppage pa \<and> pml4_get s p w = None"
      using that(1) by (auto simp: range_free_def)
  next
    show "2 * length (bindings v ps) \<le> card (free_pages s)" using that(2) by (simp add: len)
  qed
  assume s': "bind_pages s p fl v ps = ret s'"
  note spec = pt.insert_all_spec [OF assms(1) _ b(1) s' [unfolded bind_pages_def]]
  show "pt_ok s' p" by (rule spec(1)) (rule pages)
  have get: "pml4_get s' p x = (case map_of (bindings v ps) (frame_addr x) of
      Some pa \<Rightarrow> Some (mapped_to fl pa x) | None \<Rightarrow> pml4_get s p x)" if "canonical x"
    by (rule spec(2) [OF _ that]) (rule pages)
  show "pml4_get s' p x = Some (mapped_to fl (ps ! i) x)"
    if "i < length ps" "frame_addr x = page_at v i" "canonical x"
    unfolding get [OF that(3)] that(2) b(3) [OF that(1)] by simp
  show "pml4_get s' p x = pml4_get s p x"
    if "\<And>i. i < length ps \<Longrightarrow> frame_addr x \<noteq> page_at v i" "canonical x"
  proof -
    have "map_of (bindings v ps) (frame_addr x) = None" by (rule b(4)) (rule that(1))
    then show ?thesis using get [OF that(2)] by simp
  qed
qed

section \<open>The contract of alloc\<close>

lemma mm_alloc_granted:
  assumes "mm_ok s p" and "0 < unat pageCount" and "unat pageCount \<le> 32"
    and "mm_alloc s p pageCount flags = ret (Some v, s')"
  shows "(\<forall>a. taken (physicalTracking s) a \<longrightarrow> taken (physicalTracking s') a) \<and> mm_ok s' p \<and> v \<in> set candidates \<and> range_free (paging s) p (unat pageCount) v \<and>
     (\<forall>c\<in>set candidates. c < v \<longrightarrow> \<not> range_free (paging s) p (unat pageCount) c) \<and>
     (\<exists>ps. length ps = unat pageCount \<and> distinct ps \<and>
        (\<forall>a\<in>set ps. frame a \<and> \<not> taken (physicalTracking s) a \<and> taken (physicalTracking s') a) \<and>
        (\<forall>x. canonical x \<longrightarrow>
           (\<forall>i<unat pageCount. frame_addr x = page_at v i \<longrightarrow>
              pml4_get (paging s') p x = Some (mapped_to (ucast flags) (ps ! i) x)) \<and>
           ((\<forall>i<unat pageCount. frame_addr x \<noteq> page_at v i) \<longrightarrow>
              pml4_get (paging s') p x = pml4_get (paging s) p x)))"
  using assms(4)
proof (cases rule: mm_alloc_cases [OF assms(1-3), of flags, case_names no_range no_frames bind])
  case (bind w ps tr')
  note f = find_least [OF bind(1) candidates_sorted]
  note res = bind(3) [unfolded loop_result_def]
  obtain pg where pg: "bind_pages (paging s) p (ucast flags) w ps = ret pg" and w: "w = v"
    and s': "s' = s\<lparr>physicalTracking := tr', paging := pg\<rparr>"
    using assms(4) bind(4) by (auto simp: bindR_eq_ret)
  have len: "length ps = unat pageCount" using res by simp
  have ps: "v \<in> set candidates" "length ps \<le> 32" "\<forall>a\<in>set ps. frame a"
    using f(1) w len assms(3) res by auto
  have ok: "pt_ok (paging s) p" "512 \<le> length (physicalTracking s)" using assms(1) by (simp_all add: mm_ok_def)
  note b = bind_pages_outcome [OF ok(1) ps, of "ucast flags"]
  have "mm_ok s' p" using b(2) pg w s' res ok(2) by (simp add: mm_ok_def)
  moreover have "range_free (paging s) p (unat pageCount) v"
    "\<forall>c\<in>set candidates. c < v \<longrightarrow> \<not> range_free (paging s) p (unat pageCount) c"
    using f(2,3) w by auto
  moreover have "distinct ps" using res by (simp add: strict_sorted_iff)
  moreover have "\<forall>a\<in>set ps. frame a \<and> \<not> taken (physicalTracking s) a \<and> taken (physicalTracking s') a"
    using res s' by auto
  moreover have "\<forall>a. taken (physicalTracking s) a \<longrightarrow> taken (physicalTracking s') a" using res s' by auto
  ultimately show ?thesis
    using ps(1) len b(3,4) pg w s' by auto
qed auto

lemma bind_pages_pt_only:
  assumes "pt_ok s p" and "v \<in> set candidates" and "length ps \<le> 32" and "\<forall>a\<in>set ps. frame a"
    and "bind_pages s p fl v ps = ret s'"
  shows "pt_only s s'"
  using assms(5) unfolding bind_pages_def
  by (rule insert_all_pt_only [OF assms(1), rotated]) (drule bindings_facts(2) [OF assms(2-4)], simp)

lemma mm_alloc_pt_only:
  assumes "mm_ok s p" and "0 < unat pageCount" and "unat pageCount \<le> 32"
    and "mm_alloc s p pageCount flags = ret (Some v, s')"
  shows "pt_only (paging s) (paging s')"
proof (cases rule: mm_alloc_cases [OF assms(1-3), of flags, case_names no_range no_frames bind])
  case (bind w ps tr')
  note res = bind(3) [unfolded loop_result_def]
  have w: "w \<in> set candidates" using find_least [OF bind(1) candidates_sorted] by blast
  have ps: "length ps \<le> 32" "\<forall>a\<in>set ps. frame a" using res assms(3) by auto
  obtain pg where pg: "bind_pages (paging s) p (ucast flags) w ps = ret pg" "paging s' = pg"
    using assms(4) [unfolded bind(4)] by (auto simp: bindR_eq_ret)
  then show ?thesis using bind_pages_pt_only [OF _ w ps pg(1)] assms(1) by (simp add: mm_ok_def)
qed (use assms(4) in auto)

text \<open>With frames and table pages left, a request is granted the first range that is free.\<close>

lemma mm_alloc_first:
  assumes ok: "mm_ok s p" and n: "0 < unat pageCount" "unat pageCount \<le> 32"
    and find: "List.find (range_free (paging s) p (unat pageCount)) candidates = Some v"
    and fr: "allocPhysicalPages (physicalTracking s) pageCount = (mk_result 0, ps, tr')"
    and room: "2 * unat pageCount \<le> card (free_pages (paging s))"
  obtains s' where "mm_alloc s p pageCount flags = ret (Some v, s')" and "physicalTracking s' = tr'"
    and "card (free_pages (paging s)) \<le> card (free_pages (paging s')) + 2 * unat pageCount"
proof (cases rule: mm_alloc_cases [OF ok n, of flags, case_names no_range no_frames bind])
  case no_range
  then show ?thesis using find by simp
next
  case (no_frames qs tr'')
  then show ?thesis using fr by (simp add: mk_result_def opt_none_def opt_some_def)
next
  case (bind w qs tr'')
  note f = find_least [OF bind(1) candidates_sorted]
  note res = bind(3) [unfolded loop_result_def]
  have q: "length qs = unat pageCount" "length qs \<le> 32" "\<forall>a\<in>set qs. frame a" using res n(2) by auto
  have pt: "pt_ok (paging s) p" using ok by (simp add: mm_ok_def)
  have "\<exists>pg. bind_pages (paging s) p (ucast flags) w qs = ret pg \<and>
      card (free_pages (paging s)) \<le> card (free_pages pg) + 2 * length qs"
    by (rule bind_pages_outcome(5) [OF pt f(1) q(2,3)]) (use f(2) q(1) room in simp_all)
  then show ?thesis using bind(2,4) find bind(1) fr q(1) that by auto
qed

text \<open>
  C4. When \<open>mm::alloc\<close> returns an address, it is the lowest of the allocation range at which
  every page asked for was unmapped; page \<open>i\<close> of the block now translates to the \<open>i\<close>-th of
  as many different frames that were free and are now taken, every address outside the block
  translates as before, and the tables are well formed.
\<close>

theorem mm_alloc_contract:
  assumes "mm_ok s p" and "0 < unat pageCount" and "unat pageCount \<le> 32"
    and "mm_alloc s p pageCount flags = ret (Some v, s')"
  shows "mm_ok s' p \<and> v \<in> set candidates \<and> range_free (paging s) p (unat pageCount) v \<and>
     (\<forall>c\<in>set candidates. c < v \<longrightarrow> \<not> range_free (paging s) p (unat pageCount) c) \<and>
     (\<exists>ps. length ps = unat pageCount \<and> distinct ps \<and>
        (\<forall>a\<in>set ps. frame a \<and> \<not> taken (physicalTracking s) a \<and> taken (physicalTracking s') a) \<and>
        (\<forall>x. canonical x \<longrightarrow>
           (\<forall>i<unat pageCount. frame_addr x = page_at v i \<longrightarrow>
              pml4_get (paging s') p x = Some (mapped_to (ucast flags) (ps ! i) x)) \<and>
           ((\<forall>i<unat pageCount. frame_addr x \<noteq> page_at v i) \<longrightarrow>
              pml4_get (paging s') p x = pml4_get (paging s) p x)))"
  by (rule mm_alloc_granted [OF assms, THEN conjunct2])

definition fresh_mm :: mmst where
  "fresh_mm = mm_init \<lparr>paging = fresh_tables, physicalTracking = []\<rparr>"

lemma fresh_mm_fields: "paging fresh_mm = fresh_tables" "physicalTracking fresh_mm = replicate 4096 0"
  by (simp_all add: fresh_mm_def mm_init_def PHYS_SIZE_def)

lemma fresh_mm_ok: "mm_ok fresh_mm 0x100000"
  by (simp add: mm_ok_def fresh_mm_fields fresh_tables_pt_ok)

lemma candidates_first: "candidates = 0x80000000 # map (page_at 0x80000000) [1..<candidate_count]"
  by (simp add: candidates_def candidate_count_def upt_rec [of 0 134214656] page_at_def del: upt_Suc upt_rec_numeral)

lemma fresh_find:
  "n \<le> 32 \<Longrightarrow> List.find (range_free fresh_tables 0x100000 n) candidates = Some 0x80000000"
proof -
  assume n: "n \<le> 32"
  have "(0x80000000 :: u64) \<in> set candidates" by (simp add: candidates_first)
  then have "range_free fresh_tables 0x100000 n 0x80000000"
    using candidate_pages(2) [OF _ n] fresh_tables_get by (simp add: range_free_def vpage_def)
  then show ?thesis by (simp add: candidates_first)
qed

lemma fresh_frame:
  "allocPhysicalPages (replicate 4096 0) 1 = (mk_result 0, [0x600000], (replicate 4096 0)[0 := 8])"
  by (simp add: allocPhysicalPages_def allocPhysicalPages_loop.simps PHYS_SIZE_def phys_index_def
      phys_bit_def int_one_shl_def)

lemma fresh_mm_alloc:
  obtains s' where "mm_alloc fresh_mm 0x100000 1 AF_RW = ret (Some 0x80000000, s')"
proof (rule mm_alloc_first [OF fresh_mm_ok, of 1 "0x80000000", where flags = AF_RW])
  show "List.find (range_free (paging fresh_mm) 0x100000 (unat (1 :: u64))) candidates = Some 0x80000000"
    using fresh_find [of 1] by (simp add: fresh_mm_fields)
  show "2 * unat (1 :: u64) \<le> card (free_pages (paging fresh_mm))"
    using fresh_tables_room by (simp add: fresh_mm_fields)
qed (simp_all add: fresh_mm_fields fresh_frame that)

theorem mm_alloc_contract_witness:
  "\<exists>s' f. mm_alloc fresh_mm 0x100000 1 AF_RW = ret (Some 0x80000000, s') \<and> frame f \<and>
     pml4_get (paging s') 0x100000 0x80000123 = Some (mapped_to 1 f 0x80000123)"
proof (rule fresh_mm_alloc)
  fix s' assume a: "mm_alloc fresh_mm 0x100000 1 AF_RW = ret (Some 0x80000000, s')"
  have "frame_addr 0x80000123 = page_at 0x80000000 0" "canonical 0x80000123"
    by (simp_all add: frame_addr_def page_at_def canonical_def)
  then show ?thesis using mm_alloc_contract [OF fresh_mm_ok _ _ a] a
    by (auto simp: AF_RW_def length_Suc_conv)
qed

text \<open>
  C23. \<open>mm::alloc\<close> of 1 to 32 pages always returns or halts.  With two free table pages for every
  page asked for it returns, and with an address exactly when the range has room for the block
  and \<open>allocPhysicalPages\<close> finds the frames.
\<close>

theorem mm_alloc_outcome:
  assumes "mm_ok s p" and "0 < unat pageCount" and "unat pageCount \<le> 32"
  shows "mm_alloc s p pageCount flags \<noteq> None \<and>
     (2 * unat pageCount \<le> card (free_pages (paging s)) \<longrightarrow>
        (\<exists>r s'. mm_alloc s p pageCount flags = ret (r, s') \<and>
           (r \<noteq> None \<longleftrightarrow> (\<exists>c\<in>set candidates. range_free (paging s) p (unat pageCount) c) \<and>
              result_bool (fst (allocPhysicalPages (physicalTracking s) pageCount)))))"
proof (cases rule: mm_alloc_cases [OF assms, of flags, case_names no_range no_frames bind])
  case no_range
  then show ?thesis by (auto simp: find_None_iff)
next
  case (no_frames ps tr')
  then show ?thesis by simp
next
  case (bind v ps tr')
  note f = find_least [OF bind(1) candidates_sorted]
  note res = bind(3) [unfolded loop_result_def]
  have len: "length ps = unat pageCount" using res by simp
  have ps: "v \<in> set candidates" "length ps \<le> 32" "\<forall>a\<in>set ps. frame a"
    using f(1) len assms(3) res by auto
  have ok: "pt_ok (paging s) p" using assms(1) by (simp add: mm_ok_def)
  note b = bind_pages_outcome [OF ok ps, of "ucast flags"]
  have "\<exists>s'. bind_pages (paging s) p (ucast flags) v ps = ret s'"
    if "2 * unat pageCount \<le> card (free_pages (paging s))"
    using that b(5) f(2) len by auto
  moreover have "\<exists>c\<in>set candidates. range_free (paging s) p (unat pageCount) c" using f(1,2) by blast
  ultimately show ?thesis using bind b(1) by (auto simp: bindR_eq_None)
qed

theorem mm_alloc_outcome_witness:
  "\<exists>v s'. mm_alloc fresh_mm 0x100000 1 AF_RW = ret (Some v, s')"
proof -
  have "2 * unat (1 :: u64) \<le> card (free_pages (paging fresh_mm))"
    using fresh_tables_room by (simp add: fresh_mm_fields)
  moreover have "(0x80000000 :: u64) \<in> set candidates" by (simp add: candidates_first)
  moreover have "range_free (paging fresh_mm) 0x100000 (unat (1 :: u64)) 0x80000000"
    using find_least(2) [OF fresh_find candidates_sorted] by (simp add: fresh_mm_fields)
  moreover have "result_bool (fst (allocPhysicalPages (physicalTracking fresh_mm) 1))"
    by (simp add: fresh_mm_fields fresh_frame)
  ultimately show ?thesis
    using mm_alloc_outcome [OF fresh_mm_ok, of 1 AF_RW] by fastforce
qed

section \<open>Frames\<close>

text \<open>A run of requests, as far as they succeed: the frames granted, in order.\<close>

fun alloc_seq :: "u64 list \<Rightarrow> u64 list \<Rightarrow> u64 list \<Rightarrow> (u64 list \<times> u64 list) option" where
  "alloc_seq tr granted [] = Some (granted, tr)"
| "alloc_seq tr granted (n # ns) =
     (case allocPhysicalPages tr n of (r, ps, tr') \<Rightarrow>
        if result_bool r then alloc_seq tr' (granted @ ps) ns else None)"

lemma alloc_seq_grants:
  "fr.grants t0 granted tr \<Longrightarrow> alloc_seq tr granted ns = Some (as, tr') \<Longrightarrow> fr.grants t0 as tr'"
proof (induction ns arbitrary: tr granted)
  case Nil
  then show ?case by simp
next
  case (Cons n ns)
  then show ?case by (auto split: prod.splits if_splits intro: fr.grants_more)
qed

text \<open>
  Over any run of successful requests \<open>allocPhysicalPages\<close> hands out no frame twice and none
  that was taken before the run, and all it handed out are taken afterwards.
\<close>

lemma frames_granted_once:
  assumes "512 \<le> length tr" and "alloc_seq tr [] ns = Some (as, tr')"
  shows "distinct as \<and> (\<forall>a\<in>set as. \<not> taken tr a \<and> taken tr' a) \<and> (\<forall>a. taken tr a \<longrightarrow> taken tr' a)"
  using fr.grants_facts [OF alloc_seq_grants [OF fr.grants_none assms(2)] assms(1)] by blast

text \<open>
  C25. Two frames 64 MiB apart in the same 128 MiB block share a bit, because the shift of the
  \<open>int\<close> 1 loses bit 5 of the frame number: once one of them is granted, no later request is
  granted the other.
\<close>

theorem aliased_frame_lost:
  assumes "512 \<le> length tr" and "allocPhysicalPages tr n = (r, ps, tr')" and "result_bool r"
    and "a \<in> set ps" and "phys_index b = phys_index a" and "unat b = unat a + 0x4000000"
    and "alloc_seq tr' [] ns = Some (as, tr'')"
  shows "taken tr' b \<and> b \<notin> set as"
proof -
  have "shift_count b = shift_count a" using assms(6) by (simp add: shift_count_def div_add1_eq mod_add_eq)
  then have "taken tr' b"
    using allocPhysicalPages_ok [OF assms(1-3)] assms(4,5) unfolding loop_result_def by metis
  moreover have "512 \<le> length tr'" using assms(1-3) by (rule fr.alloc_inv)
  ultimately show ?thesis
    using fr.grants_facts [OF alloc_seq_grants [OF fr.grants_none assms(7)]] by blast
qed

theorem aliased_frame_lost_witness:
  "taken ((replicate 4096 0)[0 := 8]) 0x4600000 \<and> (0x4600000 :: u64) \<notin> set []"
proof -
  have "unat (0x600000 :: u64) = 0x600000" "unat (0x4600000 :: u64) = 0x4600000"
    "phys_index 0x4600000 = phys_index 0x600000" by (simp_all add: phys_index_def)
  then show ?thesis
    using aliased_frame_lost [OF _ fresh_frame, of "0x600000" "0x4600000" "[]"] by simp
qed

section \<open>A request that fails\<close>

lemma bit_revert_mask: "bit (revert_mask a) n \<Longrightarrow> n < 6"
proof -
  have "revert_mask a = take_bit 6 (drop_bit 21 a)"
    by (simp add: revert_mask_def mask_literals take_bit_eq_mask)
  then show "bit (revert_mask a) n \<Longrightarrow> n < 6" by (simp add: bit_simps)
qed

lemma bit_revert_loop:
  assumes "\<forall>a\<in>set ps. phys_index a < length tr" and "i < length tr"
  shows "bit (revert_loop tr ps ! i) n \<longleftrightarrow>
    bit (tr ! i) n \<and> (\<forall>a\<in>set ps. phys_index a = i \<longrightarrow> \<not> bit (revert_mask a) n)"
  using assms
proof (induction ps arbitrary: tr)
  case Nil
  then show ?case by simp
next
  case (Cons a ps)
  let ?tr = "tr[phys_index a := tr ! phys_index a AND NOT (revert_mask a)]"
  have "bit (?tr ! i) n \<longleftrightarrow> bit (tr ! i) n \<and> (phys_index a = i \<longrightarrow> \<not> bit (revert_mask a) n)"
    using Cons.prems bit_imp_le_length [of "tr ! i" n]
    by (cases "phys_index a = i") (auto simp: bit_and_iff bit_not_iff)
  moreover have "bit (revert_loop ?tr ps ! i) n \<longleftrightarrow>
      bit (?tr ! i) n \<and> (\<forall>a\<in>set ps. phys_index a = i \<longrightarrow> \<not> bit (revert_mask a) n)"
    using Cons.prems by (intro Cons.IH) simp_all
  ultimately show ?case by auto
qed

lemma taken_small: "shift_count a < 31 \<Longrightarrow> taken tr a \<longleftrightarrow> bit (tr ! phys_index a) (shift_count a)"
proof -
  assume a: "shift_count a < 31"
  have "phys_bit a = push_bit (shift_count a) 1"
    by (rule bit_word_eqI) (use a in \<open>auto simp: bit_phys_bit bit_simps\<close>)
  then show ?thesis using a by (simp only: taken_def) (rule and_one_bit_iff, simp)
qed

lemma taken_bit: "bit (tr ! phys_index a) (shift_count a) \<Longrightarrow> taken tr a"
proof -
  assume "bit (tr ! phys_index a) (shift_count a)"
  then have "bit (tr ! phys_index a AND phys_bit a) (shift_count a)"
    by (auto simp: bit_simps bit_phys_bit dest: bit_imp_le_length)
  then show ?thesis by (auto simp: taken_def)
qed

lemma failed_request:
  assumes "512 \<le> length tr" and "allocPhysicalPages tr n = (r, ps, tr')" and "\<not> result_bool r"
  obtains tr1 m where "tr' = revert_loop tr1 ps" "loop_result tr 0x600000 0 n tr1 ps m" "m \<noteq> n"
  using assms(2,3) by (cases rule: allocPhysicalPages_cases [OF assms(1), of n]) auto

text \<open>
  C26. A request that cannot be met does not restore the bit field.  The code clears the bits of
  the \<^emph>\<open>number\<close> of each frame instead of the frame's bit: a frame whose bit is above 5 stays
  taken although nobody owns it, and a frame that was granted earlier is given up when the
  number of some frame of the failed request, in the same word, has its bit set.
\<close>

theorem failed_request_corrupts:
  assumes "512 \<le> length tr" and "allocPhysicalPages tr n = (r, ps, tr')" and "\<not> result_bool r"
  shows "(\<forall>a\<in>set ps. \<not> taken tr a \<and> (6 \<le> shift_count a \<and> shift_count a < 31 \<longrightarrow> taken tr' a)) \<and>
    (\<forall>a b. frame a \<and> shift_count a < 31 \<and> b \<in> set ps \<and> phys_index b = phys_index a \<and>
       bit (revert_mask b) (shift_count a) \<longrightarrow> \<not> taken tr' a)"
proof (rule failed_request [OF assms])
  fix tr1 m assume f: "tr' = revert_loop tr1 ps" "loop_result tr 0x600000 0 n tr1 ps m"
  note res = f(2) [unfolded loop_result_def]
  have idx: "phys_index a < length tr1" if "frame a" for a
    using that assms(1) res phys_index_bound [of a] by (simp add: frame_def)
  have all: "\<forall>a\<in>set ps. phys_index a < length tr1" using res idx by auto
  have "taken tr' a" if "a \<in> set ps" "6 \<le> shift_count a" "shift_count a < 31" for a
  proof -
    have "taken tr1 a" using res that(1) by blast
    then have "bit (tr1 ! phys_index a) (shift_count a)" using that(3) by (simp add: taken_small)
    moreover have "\<not> bit (revert_mask b) (shift_count a)" for b
      using bit_revert_mask [of b "shift_count a"] that(2) by linarith
    ultimately show ?thesis
      unfolding f(1) using all that(1) by (intro taken_bit) (simp add: bit_revert_loop)
  qed
  moreover have "\<not> taken tr' a" if "frame a" "shift_count a < 31" "b \<in> set ps" "phys_index b = phys_index a"
      "bit (revert_mask b) (shift_count a)" for a b
    using that bit_revert_loop [OF all idx [OF that(1)]] by (auto simp: f(1) taken_small)
  ultimately show ?thesis using res by blast
qed

lemma frames_finite_count:
  assumes "sorted_wrt (<) ps" and "\<forall>a\<in>set ps. frame a"
  shows "length ps < 0x10000"
proof -
  have "inj_on (\<lambda>a :: u64. unat a div 0x200000) (set ps)"
  proof (rule inj_onI)
    fix a b assume "a \<in> set ps" "b \<in> set ps" and e: "unat a div 0x200000 = unat b div 0x200000"
    then have "2097152 dvd unat a" "2097152 dvd unat b" using assms(2) by (simp_all add: frame_def and_1fffff_0)
    then show "a = b" using e by (metis dvd_div_mult_self word_unat_eq_iff)
  qed
  moreover have "(\<lambda>a. unat a div 0x200000) ` set ps \<subseteq> {..<0x8000}"
    using assms(2) by (auto simp: frame_def PHYS_SIZE_def word_less_nat_alt)
  ultimately have "card (set ps) \<le> card {..<0x8000 :: nat}" by (intro card_inj_on_le) auto
  then show ?thesis using assms(1) by (simp add: strict_sorted_iff distinct_card)
qed

theorem failed_request_corrupts_witness:
  "\<exists>r ps tr'. allocPhysicalPages (replicate 4096 0) 0x10000 = (r, ps, tr') \<and> \<not> result_bool r \<and>
     (\<forall>a\<in>set ps. 6 \<le> shift_count a \<and> shift_count a < 31 \<longrightarrow> taken tr' a)"
proof -
  have l: "512 \<le> length (replicate 4096 0 :: u64 list)" by simp
  obtain r ps tr' where a: "allocPhysicalPages (replicate 4096 0) 0x10000 = (r, ps, tr')"
    by (metis prod_cases3)
  have "\<not> result_bool r"
  proof
    assume "result_bool r"
    then have "loop_result (replicate 4096 0) 0x600000 0 0x10000 tr' ps 0x10000"
      using allocPhysicalPages_ok [OF l a] by simp
    then have "length ps = 0x10000" "length ps < 0x10000"
      using frames_finite_count [of ps] by (auto simp: loop_result_def)
    then show False by simp
  qed
  then show ?thesis using failed_request_corrupts [OF l a] a by blast
qed

section \<open>Flags and free\<close>

lemma bit_frame_addr: "bit (frame_addr v) n \<longleftrightarrow> 21 \<le> n \<and> bit v n"
  using bit_imp_le_length [of v n] by (auto simp: frame_addr_def mask_literals bit_simps)

lemma and_2_iff: "v AND 2 \<noteq> 0 \<longleftrightarrow> bit v 1" "w AND 2 \<noteq> 0 \<longleftrightarrow> bit w 1"
  for v :: u64 and w :: u32
proof -
  have "push_bit 1 1 = (2 :: u64)" "push_bit 1 1 = (2 :: u32)" by simp_all
  then show "v AND 2 \<noteq> 0 \<longleftrightarrow> bit v 1" "w AND 2 \<noteq> 0 \<longleftrightarrow> bit w 1"
    using and_one_bit_iff [of 1 v] and_one_bit_iff [of 1 w] by simp_all
qed

text \<open>The entry of the page directory an address is translated through, and what \<open>map\<close> does to it.\<close>

definition pml4_entry :: "pmst \<Rightarrow> u64 \<Rightarrow> u64 \<Rightarrow> u64 option" where
  "pml4_entry s p x = leaf s p (pml4_index x) (pdpt_index x) (pd_index x)"

interpretation en: address_space
  "\<lambda>s. pml4_entry s p" "\<lambda>s v pa. pml4_map s p v pa flags" "\<lambda>s. pt_ok s p" vpage ppage canonical
  "\<lambda>pa x. leaf_value pa flags"
  for p flags
proof unfold_locales
  fix s v pa s' x
  assume a: "pt_ok s p" "vpage v" "ppage pa" "pml4_map s p v pa flags = ret s'"
  then show "pt_ok s' p" by (rule pt.ins_inv)
  obtain \<rho> where t: "geom s" "tree s p \<rho>" "counted s \<rho>" using a(1) by (auto simp: pt_ok_def)
  have v: "v < 0x1000000000000" "v AND 0x1FFFFF = 0" "pa AND 0x1FFFFF = 0"
    using a(2,3) by (simp_all add: vpage_def ppage_def canonical_def)
  show "pml4_entry s' p x = (if frame_addr x = v then Some (leaf_value pa flags) else pml4_entry s p x)" if "canonical x"
  proof (rule pml4_map_cases [OF t v, of flags])
    fix s1 \<rho>1 assume "pml4_map s p v pa flags = ret s1"
      "extends s p s1 \<rho>1 (pml4_index v) (pdpt_index v) (pd_index v) (leaf_value pa flags)"
    then show ?thesis using a(4) that page_key [of x v] v
      by (simp add: extends_def pml4_entry_def canonical_def pml4_index_bound frame_addr_aligned)
  qed (use a(4) in simp_all)
next
  fix s v pa
  assume "pt_ok s p" "vpage v" "ppage pa"
  then show "pml4_map s p v pa flags \<noteq> None" by (rule pt.ins_total)
qed

lemma mm_alloc_entries:
  assumes "mm_ok s p" and "0 < unat pageCount" and "unat pageCount \<le> 32"
    and "mm_alloc s p pageCount flags = ret (Some v, s')" and "i < unat pageCount"
  shows "\<exists>pa. frame pa \<and> pml4_entry (paging s') p (page_at v i) = Some (leaf_value pa (ucast flags))"
  using assms(4)
proof (cases rule: mm_alloc_cases [OF assms(1-3), of flags, case_names no_range no_frames bind])
  case (bind w ps tr')
  note f = find_least [OF bind(1) candidates_sorted]
  note res = bind(3) [unfolded loop_result_def]
  obtain pg where pg: "bind_pages (paging s) p (ucast flags) w ps = ret pg" and w: "w = v" and s': "paging s' = pg"
    using assms(4) bind(4) by (auto simp: bindR_eq_ret)
  have ps: "v \<in> set candidates" "length ps \<le> 32" "\<forall>a\<in>set ps. frame a" and l: "length ps = unat pageCount"
    using f(1) w assms(3) res by auto
  note b = bindings_facts [OF ps]
  have vp: "vpage (page_at v i)" using candidate_pages(2) [OF ps(1,2), of i] l assms(5) by simp
  then have "canonical (page_at v i)" "frame_addr (page_at v i) = page_at v i"
    by (simp_all add: vpage_def frame_addr_aligned)
  moreover have "pt_ok (paging s) p" using assms(1) by (simp add: mm_ok_def)
  ultimately have "pml4_entry pg p (page_at v i) = Some (leaf_value (ps ! i) (ucast flags))"
    using en.insert_all_spec(2) [OF _ _ b(1) pg [unfolded bind_pages_def w]] b(2,3) l assms(5) by simp
  then show ?thesis using ps(3) l assms(5) s' by auto
qed auto

text \<open>
  C27. \<open>mm::alloc\<close> passes its flags to \<open>map\<close> unchanged although the layouts differ: the entries of
  the pages it grants have \<open>F_RW\<close> set exactly when the request had \<open>AF_USER\<close>.  Asking for writable
  pages with \<open>AF_RW\<close>, which has the value of \<open>F_PRESENT\<close>, leaves \<open>F_RW\<close> clear.
\<close>

theorem F_RW_follows_AF_USER:
  assumes "mm_ok s p" and "0 < unat pageCount" and "unat pageCount \<le> 32"
    and "mm_alloc s p pageCount flags = ret (Some v, s')"
  shows "\<forall>i<unat pageCount. \<exists>e. pml4_entry (paging s') p (page_at v i) = Some e \<and> present e \<and>
    (e AND F_RW \<noteq> 0 \<longleftrightarrow> flags AND AF_USER \<noteq> 0) \<and> (flags = AF_RW \<longrightarrow> e AND F_RW = 0)"
proof (intro allI impI)
  fix i assume "i < unat pageCount"
  then obtain pa where pa: "frame pa" and e: "pml4_entry (paging s') p (page_at v i) = Some (leaf_value pa (ucast flags))"
    using mm_alloc_entries [OF assms] by blast
  have "pa = frame_addr pa" using frame_ppage [OF pa] by (simp add: ppage_def frame_addr_aligned)
  then have "\<not> bit pa 1" using bit_frame_addr [of pa 1] by simp
  then have "leaf_value pa (ucast flags) AND F_RW \<noteq> 0 \<longleftrightarrow> flags AND AF_USER \<noteq> 0"
    unfolding F_RW_def AF_USER_def and_2_iff by (simp add: leaf_value_def F_PRESENT_def F_PS_def bit_simps)
  then show "\<exists>e. pml4_entry (paging s') p (page_at v i) = Some e \<and> present e \<and>
      (e AND F_RW \<noteq> 0 \<longleftrightarrow> flags AND AF_USER \<noteq> 0) \<and> (flags = AF_RW \<longrightarrow> e AND F_RW = 0)"
    using e by (auto simp: AF_RW_def AF_USER_def)
qed

theorem F_RW_follows_AF_USER_witness:
  "\<exists>s' e. mm_alloc fresh_mm 0x100000 1 AF_RW = ret (Some 0x80000000, s') \<and>
     pml4_entry (paging s') 0x100000 0x80000000 = Some e \<and> present e \<and> e AND F_RW = 0"
proof (rule fresh_mm_alloc)
  fix s' assume a: "mm_alloc fresh_mm 0x100000 1 AF_RW = ret (Some 0x80000000, s')"
  then show ?thesis using F_RW_follows_AF_USER [OF fresh_mm_ok _ _ a] by (auto simp: page_at_def)
qed

lemma mm_free_one:
  assumes "pml4_get (paging ms) p v \<noteq> None" and "pml4_unmap (paging ms) p v = ret (r, s')"
  shows "mm_free ms p v 1 = ret (ms\<lparr>paging := s'\<rparr>)"
  using assms
  by (simp add: mm_free_def mm_free_loop.simps [of "paging ms" p v 1 0] mm_free_loop.simps [of s' p v 1 1]
      opt_bool_def)

text \<open>
  C28. The double-free check of \<open>mm::free\<close> does not see a double free.  Freeing one of the two
  pages of a page directory twice returns normally both times, gives the directory back to the
  page allocator while the other page is still mapped through it, and changes no translation.
\<close>

theorem double_free_undetected:
  assumes "geom (paging ms)" and "tree (paging ms) p \<rho>" and "counted (paging ms) \<rho>" and "vpage v"
    and "walk (paging ms) p v q d" and "entries (paging ms) d = 2"
  shows "\<exists>s1 s2. mm_free ms p v 1 = ret s1 \<and> mm_free s1 p v 1 = ret s2 \<and> d \<in> free_pages (paging s2) \<and>
     (\<forall>x. canonical x \<longrightarrow> pml4_get (paging s2) p x = pml4_get (paging ms) p x)"
proof -
  let ?s = "paging ms"
  note g = assms(1) and t = assms(2) and w = assms(5)
  have i: "pml4_index v < 512" using assms(4) by (simp add: vpage_def canonical_def pml4_index_bound)
  have r: "\<rho> q = PdptOf (pml4_index v)" "\<rho> d = PdOf (pml4_index v) (pdpt_index v)"
    using w t i index_bounds by (auto simp: walk_def intro: tree_pdpt tree_pd)
  have ip: "inpage ?s q" "inpage ?s d" "inpage ?s p" "tracked ?s d" "tracked ?s q" "d \<noteq> q"
    using t r tree_root [OF t] by (auto intro: tree_inpage tree_tracked)
  have eq: "0 < entries ?s q" by (rule entries_pos [OF index_bounds(1) walk_present(4) [OF w]])
  have rq: "refs ?s q \<noteq> 0" by (rule counted_refs(1) [OF assms(3) _ _ eq]) (simp_all add: r)
  have "unat (refs ?s d) = 2" using assms(3,6) r unat_entries [of ?s d] by (simp add: counted_def)
  then have rd: "refs ?s d = 2" by (simp add: word_unat_eq_iff)
  define s1 where "s1 = put_refs ?s d 1"
  have u1: "pml4_unmap ?s p v = ret (mk_result 0, s1)"
    using unmap_walk_shared [OF w ip(2)] rd by (simp add: s1_def)
  have same1: "same_tables ?s s1" unfolding s1_def using g ip(2) by (rule same_tables_put)
  have w1: "walk s1 p v q d"
    using w by (simp add: walk_def same_tables_at [OF same1] ip i)
  have "pml4_unmap s1 p v = ret (mk_result 0, after_last s1 q d)"
    using g ip rq by (intro unmap_walk_last [OF w1]) (simp_all add: s1_def put_refs)
  note two = this after_last_facts [of s1 d q, simplified s1_def state_simps, OF g ip(2,1,6), folded s1_def]
  have same2: "same_tables ?s (after_last s1 q d)" using same1 two(2) by (rule same_tables_trans)
  then have "only_mem ?s (after_last s1 q d)" by (simp add: same_tables_def)
  then have "inpage (after_last s1 q d) d" using ip(2) by (simp only: only_mem_inpage)
  moreover have "\<not> tracked (after_last s1 q d) d" using two(3) ip(2) by simp
  ultimately have "d \<in> free_pages (after_last s1 q d)" by (simp add: free_pages_def)
  moreover have "mm_free ms p v 1 = ret (ms\<lparr>paging := s1\<rparr>)"
    using walk_get [OF w] u1 by (rule mm_free_one)
  moreover have "mm_free (ms\<lparr>paging := s1\<rparr>) p v 1 = ret (ms\<lparr>paging := after_last s1 q d\<rparr>)"
    using mm_free_one [of "ms\<lparr>paging := s1\<rparr>" p v] walk_get [OF w1] two(1) by simp
  moreover have "\<forall>x. canonical x \<longrightarrow> pml4_get (after_last s1 q d) p x = pml4_get ?s p x"
    using same_tables_get [OF t same2] by blast
  ultimately show ?thesis by auto
qed

lemma entries_two_leaves:
  assumes "\<And>k'. k' < 512 \<Longrightarrow> present (at64 s d k') \<longleftrightarrow> k' = 0 \<or> k' = 1"
  shows "entries s d = 2"
proof -
  have "{k'. k' < 512 \<and> present (at64 s d k')} = {0, 1}" using assms by auto
  then show ?thesis by (simp add: entries_def)
qed

lemma fresh_tables_two:
  obtains s \<rho> q d where "geom s" "tree s 0x100000 \<rho>" "counted s \<rho>" "walk s 0x100000 0x80000000 q d"
    "entries s d = 2"
proof (rule fresh_tables_tree)
  fix s1 \<rho>1 d1 assume m: "pml4_map fresh_tables 0x100000 0x80000000 0x600000 1 = ret s1" "geom s1"
    "tree s1 0x100000 \<rho>1" "counted s1 \<rho>1" "\<rho>1 d1 = PdOf 0 2" "entries s1 d1 = 1"
    "pml4_get s1 0x100000 0x80000000 \<noteq> None"
  have p: "pml4_index 0x80200000 = 0" "pdpt_index 0x80200000 = 2" "pd_index 0x80200000 = 1"
    "pml4_index 0x80000000 = 0" "pdpt_index 0x80000000 = 2" "pd_index 0x80000000 = 0"
    by (simp_all add: pml4_index_def pdpt_index_def pd_index_def)
  obtain q1 where q1: "\<rho>1 q1 = PdptOf 0" "link s1 q1 2 = Some d1" "link s1 0x100000 0 = Some q1"
    using m(5) tree_pd_iff [OF m(3), of d1 0 2] tree_pdpt_iff [OF m(3), of _ 0] by auto
  have p0: "present (at64 s1 d1 0)" using m(7) q1 by (auto simp: pml4_get_leaf leaf_def p split: if_splits)
  have one: "k < 512 \<Longrightarrow> present (at64 s1 d1 k) \<Longrightarrow> k = 0" for k
  proof -
    assume k: "k < 512" "present (at64 s1 d1 k)"
    have "card {0, k} \<le> entries s1 d1"
      unfolding entries_def using k p0 by (intro card_mono) auto
    then show "k = 0" using m(6) by (auto simp: card_insert_if split: if_splits)
  qed
  have none: "leaf s1 0x100000 0 2 1 = None" using one [of 1] q1 by (auto simp: leaf_def)
  have d1p: "inpage s1 d1" using m(3,5) by (auto intro: tree_inpage)
  let ?e = "leaf_value 0x800000 1"
  have np: "\<not> present (at64 s1 d1 1)" using one [of 1] by auto
  have ex: "extends s1 0x100000 (put_refs (put64 s1 d1 1 ?e) d1 (refs s1 d1 + 1)) \<rho>1 0 2 1 ?e"
    by (rule extends_in_pd [OF m(2,3,4,5)]) (simp_all add: np)
  define s where "s = put_refs (put64 s1 d1 1 ?e) d1 (refs s1 d1 + 1)"
  have t: "tree s 0x100000 \<rho>1" "counted s \<rho>1" "geom s"
    using ex m(2) by (auto simp: extends_def s_def)
  have same: "at64 s a k = (if a = d1 \<and> k = 1 then ?e else at64 s1 a k)" if "inpage s1 a" "k < 512" for a k
    using that m(2) d1p by (simp add: s_def store_facts)
  have ip: "inpage s1 q1" "inpage s1 0x100000" "q1 \<noteq> d1" "0x100000 \<noteq> d1"
    using m(3,5) q1 tree_root [OF m(3)] by (auto intro: tree_inpage)
  have w: "walk s 0x100000 0x80000000 q1 d1"
  proof -
    have "link s 0x100000 0 = link s1 0x100000 0" "link s q1 2 = link s1 q1 2" "present (at64 s d1 0)"
      using ip p0 d1p by (simp_all add: link_def same)
    then show ?thesis using q1 by (simp add: walk_def p)
  qed
  moreover have "entries s d1 = 2"
    by (rule entries_two_leaves) (use same [OF d1p] one p0 in auto)
  ultimately show ?thesis using that t by blast
qed

theorem double_free_undetected_witness:
  "\<exists>ms s1 s2 d. mm_free ms 0x100000 0x80000000 1 = ret s1 \<and> mm_free s1 0x100000 0x80000000 1 = ret s2 \<and>
     d \<in> free_pages (paging s2)"
proof (rule fresh_tables_two)
  fix s \<rho> q d assume a: "geom s" "tree s 0x100000 \<rho>" "counted s \<rho>" "walk s 0x100000 0x80000000 q d" "entries s d = 2"
  have "vpage 0x80000000" by (simp add: vpage_def canonical_def)
  then show ?thesis
    using double_free_undetected [of "\<lparr>paging = s, physicalTracking = []\<rparr>" "0x100000" \<rho> "0x80000000" q d] a
    by fastforce
qed

end
