(* ===== verification/MemRuns.thy ===== *)
theory MemRuns
  imports MemManagerProps
begin

text \<open>
  Runs of the memory manager: any sequence of requests that \<open>mm::alloc\<close> granted.  A page is
  granted once, every granted page has a frame of its own, and every other address keeps its
  translation.  Requests that fail are not part of a run, since the failure path of
  \<open>allocPhysicalPages\<close> gives frames of others back.
\<close>

unbundle bit_operations_syntax

text \<open>The pages a run was granted, each with the flags of its request.\<close>

inductive mm_run :: "u64 \<Rightarrow> mmst \<Rightarrow> (u64 \<times> u32) list \<Rightarrow> mmst \<Rightarrow> bool" for p where
  mm_run_none: "mm_run p s [] s"
| mm_run_more: "mm_run p s gs s1 \<Longrightarrow> 0 < unat n \<Longrightarrow> unat n \<le> 32 \<Longrightarrow> mm_alloc s1 p n flags = ret (Some v, s2) \<Longrightarrow>
    mm_run p s (gs @ map (\<lambda>i. (page_at v i, flags)) [0..<unat n]) s2"

text \<open>What holds between the first and the last state of a run, with the frame of every page.\<close>

definition granted :: "u64 \<Rightarrow> mmst \<Rightarrow> (u64 \<times> u32) list \<Rightarrow> (u64 \<Rightarrow> u64) \<Rightarrow> mmst \<Rightarrow> bool" where
  "granted p s gs fr s' \<longleftrightarrow>
     distinct (map fst gs) \<and> inj_on fr (fst ` set gs) \<and>
     (\<forall>(w, fl)\<in>set gs. vpage w \<and> pml4_get (paging s) p w = None \<and>
        frame (fr w) \<and> \<not> taken (physicalTracking s) (fr w) \<and> taken (physicalTracking s') (fr w) \<and>
        (\<forall>x. canonical x \<longrightarrow> frame_addr x = w \<longrightarrow> pml4_get (paging s') p x = Some (mapped_to (ucast fl) (fr w) x))) \<and>
     (\<forall>x. canonical x \<longrightarrow> frame_addr x \<notin> fst ` set gs \<longrightarrow> pml4_get (paging s') p x = pml4_get (paging s) p x) \<and>
     (\<forall>a. taken (physicalTracking s) a \<longrightarrow> taken (physicalTracking s') a)"

lemma granted_none: "granted p s [] fr s"
  by (simp add: granted_def)

lemma granted_frame:
  "granted p s gs fr s1 \<Longrightarrow> (\<And>x. canonical x \<Longrightarrow> pml4_get (paging s2) p x = pml4_get (paging s1) p x) \<Longrightarrow>
   physicalTracking s2 = physicalTracking s1 \<Longrightarrow> granted p s gs fr s2"
  by (fastforce simp: granted_def)

lemma granted_mapped:
  assumes "granted p s gs fr s'" and "w \<in> fst ` set gs"
  shows "vpage w" and "pml4_get (paging s') p w \<noteq> None" and "taken (physicalTracking s') (fr w)"
  using assms pt.vpage_valid by (fastforce simp: granted_def)+

lemma granted_more:
  assumes g: "granted p s gs fr s1" and ok: "mm_ok s1 p" and n: "0 < unat n" "unat n \<le> 32"
    and run: "mm_alloc s1 p n flags = ret (Some v, s2)"
  shows "\<exists>fr'. granted p s (gs @ map (\<lambda>i. (page_at v i, flags)) [0..<unat n]) fr' s2"
proof -
  let ?new = "map (\<lambda>i. (page_at v i, flags)) [0..<unat n]" and ?W = "page_at v ` {..<unat n}"
  note c = mm_alloc_granted [OF ok n run]
  obtain ps where ps: "length ps = unat n" "distinct ps"
      "\<forall>a\<in>set ps. frame a \<and> \<not> taken (physicalTracking s1) a \<and> taken (physicalTracking s2) a"
      "\<And>x i. canonical x \<Longrightarrow> i < unat n \<Longrightarrow> frame_addr x = page_at v i \<Longrightarrow>
         pml4_get (paging s2) p x = Some (mapped_to (ucast flags) (ps ! i) x)"
      "\<And>x. canonical x \<Longrightarrow> \<forall>i<unat n. frame_addr x \<noteq> page_at v i \<Longrightarrow> pml4_get (paging s2) p x = pml4_get (paging s1) p x"
    using c by blast
  have v: "v \<in> set candidates" and free: "\<And>i. i < unat n \<Longrightarrow> pml4_get (paging s1) p (page_at v i) = None"
    and mono: "\<And>a. taken (physicalTracking s1) a \<Longrightarrow> taken (physicalTracking s2) a"
    using c by (auto simp: range_free_def)
  have inj: "inj_on (page_at v) {..<unat n}"
    using candidate_pages_inj [OF v n(2)] by (auto simp: inj_on_def)
  have vp: "vpage (page_at v i)" if "i < unat n" for i using candidate_pages(2) [OF v n(2) that] .
  have new: "fst ` set ?new = ?W" by (auto simp: image_image)
  have apart: "w \<notin> ?W" if "w \<in> fst ` set gs" for w using granted_mapped(2) [OF g that] free by auto
  define fr' where "fr' w = (if w \<in> ?W then ps ! the_inv_into {..<unat n} (page_at v) w else fr w)" for w
  have at: "fr' (page_at v i) = ps ! i" if "i < unat n" for i
    using that by (auto simp: fr'_def the_inv_into_f_f [OF inj])
  have old: "fr' w = fr w" if "w \<in> fst ` set gs" for w using apart [OF that] by (simp add: fr'_def)
  have "distinct (map fst (gs @ ?new))"
    using g apart inj by (auto simp: granted_def distinct_map comp_def image_image lessThan_atLeast0)
  moreover have "inj_on fr' (fst ` set gs \<union> ?W)"
  proof (rule inj_onI)
    have cross: "fr' a \<noteq> fr' b" if "a \<in> fst ` set gs" "b \<in> ?W" for a b
      using granted_mapped(3) [OF g that(1)] that old at ps(1,3) by (metis image_iff lessThan_iff nth_mem)
    fix a b assume ab: "a \<in> fst ` set gs \<union> ?W" "b \<in> fst ` set gs \<union> ?W" "fr' a = fr' b"
    then consider "a \<in> fst ` set gs" "b \<in> fst ` set gs" | "a \<in> ?W" "b \<in> ?W" using cross by (metis UnE)
    then show "a = b"
    proof cases
      case 1
      then show ?thesis using g ab(3) old by (auto simp: granted_def inj_on_def)
    next
      case 2
      then show ?thesis using ab(3) at ps(1,2) by (auto simp: nth_eq_iff_index_eq)
    qed
  qed
  then have "inj_on fr' (fst ` set (gs @ ?new))" using new by (simp add: image_Un)
  moreover have "vpage w \<and> pml4_get (paging s) p w = None \<and> frame (fr' w) \<and>
      \<not> taken (physicalTracking s) (fr' w) \<and> taken (physicalTracking s2) (fr' w) \<and>
      (\<forall>x. canonical x \<longrightarrow> frame_addr x = w \<longrightarrow> pml4_get (paging s2) p x = Some (mapped_to (ucast fl) (fr' w) x))"
    if m: "(w, fl) \<in> set (gs @ ?new)" for w fl
  proof (cases "(w, fl) \<in> set gs")
    case True
    then have w: "w \<in> fst ` set gs" by force
    have "pml4_get (paging s2) p x = pml4_get (paging s1) p x" if "canonical x" "frame_addr x = w" for x
      using apart [OF w] that by (intro ps(5)) auto
    then show ?thesis using g True mono old [OF w] by (auto simp: granted_def)
  next
    case False
    then obtain i where i: "i < unat n" "w = page_at v i" "fl = flags" using m by auto
    have "w \<notin> fst ` set gs" using apart i by blast
    moreover have "canonical w" "frame_addr w = w" using pt.vpage_valid [OF vp [OF i(1)]] i(2) by simp_all
    ultimately have "pml4_get (paging s) p w = None"
      using g free [OF i(1)] i(2) by (auto simp: granted_def)
    moreover have "ps ! i \<in> set ps" using i(1) ps(1) by simp
    then have "frame (ps ! i) \<and> \<not> taken (physicalTracking s) (ps ! i) \<and> taken (physicalTracking s2) (ps ! i)"
      using ps(3) g by (auto simp: granted_def)
    ultimately show ?thesis using vp [OF i(1)] i at ps(4) [OF _ i(1)] by simp
  qed
  moreover have "pml4_get (paging s2) p x = pml4_get (paging s) p x"
    if "canonical x" "frame_addr x \<notin> fst ` set (gs @ ?new)" for x
  proof -
    have x: "frame_addr x \<notin> fst ` set gs" "frame_addr x \<notin> ?W" using that(2) new by (auto simp: image_Un)
    then have "pml4_get (paging s2) p x = pml4_get (paging s1) p x" using that(1) by (intro ps(5)) auto
    then show ?thesis using g that(1) x(1) by (simp add: granted_def)
  qed
  moreover have "\<forall>a. taken (physicalTracking s) a \<longrightarrow> taken (physicalTracking s2) a"
    using g mono by (simp add: granted_def)
  ultimately show ?thesis unfolding granted_def by (intro exI [of _ fr']) blast
qed

lemma mm_run_granted:
  "mm_run p s gs s' \<Longrightarrow> mm_ok s p \<Longrightarrow> mm_ok s' p \<and> (\<exists>fr. granted p s gs fr s')"
proof (induction rule: mm_run.induct)
  case (mm_run_none s)
  then show ?case using granted_none by blast
next
  case (mm_run_more s gs s1 n flags v s2)
  then obtain fr where "mm_ok s1 p" "granted p s gs fr s1" by blast
  then show ?case
    using granted_more [OF _ _ mm_run_more.hyps(2-4)] mm_alloc_granted [OF _ mm_run_more.hyps(2-4)] by blast
qed

text \<open>
  C5. Over any run of granted requests the memory manager keeps its blocks apart: the tables stay
  well formed, no page is granted twice, all pages were unmapped before the run and have frames of
  their own that were free before and are taken now, each page translates to its frame with the
  flags it was asked for with, later requests included, and every address outside the pages
  translates as before the run.
\<close>

theorem mm_run_isolates:
  assumes "mm_ok s p" and "mm_run p s gs s'"
  shows "mm_ok s' p \<and> distinct (map fst gs) \<and>
    (\<exists>fr. inj_on fr (fst ` set gs) \<and>
       (\<forall>(w, fl)\<in>set gs. pml4_get (paging s) p w = None \<and>
          frame (fr w) \<and> \<not> taken (physicalTracking s) (fr w) \<and> taken (physicalTracking s') (fr w) \<and>
          (\<forall>x. canonical x \<longrightarrow> frame_addr x = w \<longrightarrow>
             pml4_get (paging s') p x = Some (mapped_to (ucast fl) (fr w) x)))) \<and>
    (\<forall>x. canonical x \<longrightarrow> frame_addr x \<notin> fst ` set gs \<longrightarrow> pml4_get (paging s') p x = pml4_get (paging s) p x)"
proof -
  obtain fr where "mm_ok s' p" and g: "granted p s gs fr s'" using mm_run_granted [OF assms(2,1)] by blast
  moreover have "\<forall>(w, fl)\<in>set gs. pml4_get (paging s) p w = None \<and>
      frame (fr w) \<and> \<not> taken (physicalTracking s) (fr w) \<and> taken (physicalTracking s') (fr w) \<and>
      (\<forall>x. canonical x \<longrightarrow> frame_addr x = w \<longrightarrow> pml4_get (paging s') p x = Some (mapped_to (ucast fl) (fr w) x))"
    using g by (auto simp: granted_def)
  ultimately show ?thesis by (auto simp only: granted_def)
qed

theorem mm_run_isolates_witness:
  "\<exists>s' f. mm_run 0x100000 fresh_mm [(0x80000000, AF_RW)] s' \<and> frame f \<and>
     pml4_get (paging s') 0x100000 0x80000123 = Some (mapped_to 1 f 0x80000123)"
proof (rule fresh_mm_alloc)
  fix s' assume a: "mm_alloc fresh_mm 0x100000 1 AF_RW = ret (Some 0x80000000, s')"
  have r: "mm_run 0x100000 fresh_mm [(0x80000000, AF_RW)] s'"
    using mm_run_more [OF mm_run_none _ _ a] by (simp add: page_at_def)
  have "frame_addr 0x80000123 = 0x80000000" "canonical 0x80000123"
    by (simp_all add: frame_addr_def canonical_def)
  then show ?thesis using mm_run_isolates [OF fresh_mm_ok r] r by (auto simp: AF_RW_def)
qed

end
