(* ===== verification/Heap.thy ===== *)
theory Heap
  imports MemManager
begin

text \<open>
  The kernel heap, kernel/mem/heap.cpp and heap.hpp, with the operators \<open>new\<close> and \<open>delete\<close> of
  kernel/algo/new.hpp.  A block is a 32-byte header (flags, length, prev, next) followed by its
  bytes; the operations here read and write the headers in the byte memory, in the order of the
  source.  Every loop over the headers is a \<open>partial_function\<close>: a cyclic chain, or the inner loop
  of \<open>allocAligned\<close>, may not end.
\<close>

unbundle bit_operations_syntax

section \<open>Headers\<close>

record heap =
  m_base :: u64
  m_size :: u64

definition HF_ALLOC :: u64 where "HF_ALLOC = 1"
definition headerMagic :: u64 where "headerMagic = 0x1A110C00"

definition HEADER :: u64 where "HEADER = 32"

definition h_flags :: "64 mem \<Rightarrow> u64 \<Rightarrow> u64" where "h_flags m h = ld64 m h"
definition h_length :: "64 mem \<Rightarrow> u64 \<Rightarrow> u64" where "h_length m h = ld64 m (h + 8)"
definition h_prev :: "64 mem \<Rightarrow> u64 \<Rightarrow> u64" where "h_prev m h = ld64 m (h + 16)"
definition h_next :: "64 mem \<Rightarrow> u64 \<Rightarrow> u64" where "h_next m h = ld64 m (h + 24)"

definition set_flags :: "u64 \<Rightarrow> u64 \<Rightarrow> 64 mem \<Rightarrow> 64 mem" where "set_flags h v m = st64 m h v"
definition set_length :: "u64 \<Rightarrow> u64 \<Rightarrow> 64 mem \<Rightarrow> 64 mem" where "set_length h v m = st64 m (h + 8) v"
definition set_prev :: "u64 \<Rightarrow> u64 \<Rightarrow> 64 mem \<Rightarrow> 64 mem" where "set_prev h v m = st64 m (h + 16) v"
definition set_next :: "u64 \<Rightarrow> u64 \<Rightarrow> 64 mem \<Rightarrow> 64 mem" where "set_next h v m = st64 m (h + 24) v"

definition has_magic :: "64 mem \<Rightarrow> u64 \<Rightarrow> bool" where
  "has_magic m h \<longleftrightarrow> h_flags m h AND headerMagic = headerMagic"

definition is_used :: "64 mem \<Rightarrow> u64 \<Rightarrow> bool" where
  "is_used m h \<longleftrightarrow> h_flags m h AND HF_ALLOC \<noteq> 0"

definition mark_used :: "u64 \<Rightarrow> 64 mem \<Rightarrow> 64 mem" where
  "mark_used h m = set_flags h (h_flags m h OR HF_ALLOC) m"

section \<open>Construction and destruction\<close>

definition rootHeader :: "heap \<Rightarrow> u64" where "rootHeader hp = m_base hp"

definition place_root :: "u64 \<Rightarrow> u64 \<Rightarrow> 64 mem \<Rightarrow> 64 mem" where
  "place_root hdr sz m =
     set_next hdr 0 (set_prev hdr 0 (set_length hdr (sz - HEADER) (set_flags hdr headerMagic m)))"

definition heap_new :: "u64 \<Rightarrow> u64 \<Rightarrow> 64 mem \<Rightarrow> heap \<times> 64 mem" where
  "heap_new base sz m =
     (let hp = \<lparr>m_base = base, m_size = sz\<rparr> in (hp, place_root (rootHeader hp) sz m))"

definition heap_empty :: heap where "heap_empty = \<lparr>m_base = 0, m_size = 0\<rparr>"

text \<open>The loop the destructor and \<open>reset\<close> share.\<close>

partial_function (option) heap_check_loop :: "64 mem \<Rightarrow> u64 \<Rightarrow> unit run" where
  "heap_check_loop m hdr =
     (if hdr = 0 then ret ()
      else if \<not> has_magic m hdr then halt (Panic ''Heap is broken'')
      else if is_used m hdr then halt (Panic ''Tried to destroy heap with living objects'')
      else heap_check_loop m (h_next m hdr))"

definition heap_destroy :: "heap \<Rightarrow> 64 mem \<Rightarrow> unit run" where
  "heap_destroy hp m = (if m_size hp \<noteq> 0 then heap_check_loop m (rootHeader hp) else ret ())"

definition heap_reset :: "heap \<Rightarrow> 64 mem \<Rightarrow> u64 \<Rightarrow> u64 \<Rightarrow> (heap \<times> 64 mem) run" where
  "heap_reset hp m base sz =
     bindR (if m_size hp \<noteq> 0 then heap_check_loop m (rootHeader hp) else ret ()) (\<lambda>u.
       let hp' = hp\<lparr>m_base := base, m_size := sz\<rparr> in
       ret (hp', place_root (rootHeader hp') sz m))"

definition heap_valid :: "heap \<Rightarrow> bool" where
  "heap_valid hp \<longleftrightarrow> m_size hp \<noteq> 0 \<and> m_base hp \<noteq> 0"

section \<open>alloc\<close>

text \<open>The block \<open>hdr\<close> cut after \<open>size\<close> bytes, as \<open>alloc\<close> and \<open>allocAligned\<close> do.\<close>

definition split_block :: "u64 \<Rightarrow> u64 \<Rightarrow> 64 mem \<Rightarrow> 64 mem" where
  "split_block hdr sz m =
     (let newHeader = hdr + HEADER + sz;
          m = mark_used hdr m;
          m = set_prev newHeader hdr m;
          m = set_next newHeader (h_next m hdr) m;
          m = set_flags newHeader headerMagic m;
          m = set_length newHeader (h_length m hdr - sz - HEADER) m;
          m = set_next hdr newHeader m in
      set_length hdr sz m)"

partial_function (option) heap_alloc_loop :: "64 mem \<Rightarrow> u64 \<Rightarrow> u64 \<Rightarrow> (u64 option \<times> 64 mem) run" where
  "heap_alloc_loop m hdr sz =
     (if hdr = 0 then ret (opt_none, m)
      else if \<not> has_magic m hdr then halt (Panic ''Heap is broken'')
      else if is_used m hdr then heap_alloc_loop m (h_next m hdr) sz
      else if h_length m hdr > sz + HEADER then ret (opt_some (hdr + HEADER), split_block hdr sz m)
      else if h_length m hdr = sz then ret (opt_some (hdr + HEADER), mark_used hdr m)
      else heap_alloc_loop m (h_next m hdr) sz)"

definition heap_alloc :: "heap \<Rightarrow> 64 mem \<Rightarrow> u64 \<Rightarrow> (u64 option \<times> 64 mem) run" where
  "heap_alloc hp m sz = heap_alloc_loop m (rootHeader hp) sz"

section \<open>allocAligned\<close>

definition cut_middle :: "u64 \<Rightarrow> u64 \<Rightarrow> u64 \<Rightarrow> u64 \<Rightarrow> u64 \<Rightarrow> 64 mem \<Rightarrow> 64 mem" where
  "cut_middle hdr nextAligned padSize actualSize sz m =
     (let e = nextAligned + sz; mid = nextAligned - HEADER;
          m = set_next e (h_next m hdr) m;
          m = set_next mid e m;
          m = set_next hdr mid m;
          m = set_length e (actualSize - sz - HEADER) m;
          m = set_length mid sz m;
          m = set_length hdr (padSize - HEADER) m;
          m = set_flags e headerMagic m;
          m = set_flags mid (headerMagic OR HF_ALLOC) m;
          m = set_prev mid hdr m in
      set_prev e mid m)"

definition cut_end :: "u64 \<Rightarrow> u64 \<Rightarrow> u64 \<Rightarrow> u64 \<Rightarrow> 64 mem \<Rightarrow> 64 mem" where
  "cut_end hdr nextAligned padSize sz m =
     (let e = nextAligned - HEADER;
          m = set_prev e hdr m;
          m = set_next e (h_next m hdr) m;
          m = set_next hdr e m;
          m = set_length e sz m;
          m = set_length hdr (padSize - HEADER) m in
      set_flags e (headerMagic OR HF_ALLOC) m)"

text \<open>
  The inner \<open>while (1)\<close>: \<open>None\<close> inside the result is its \<open>break\<close>, \<open>Some\<close> the block it returns.
\<close>

partial_function (option) aligned_fit ::
  "64 mem \<Rightarrow> u64 \<Rightarrow> u64 \<Rightarrow> u64 \<Rightarrow> u64 \<Rightarrow> (u64 \<times> 64 mem) option run" where
  "aligned_fit m hdr sz align nextAligned =
     (let addr = hdr + HEADER; padSize = nextAligned - addr; actualSize = h_length m hdr - padSize in
      if sint actualSize < 0 then ret None
      else if addr = nextAligned then
        if actualSize = sz then ret (Some (addr, mark_used hdr m))
        else ret (Some (addr, split_block hdr sz m))
      else if padSize < HEADER then
        if nextAligned + align - addr \<ge> h_length m hdr then ret None
        else aligned_fit m hdr sz align (nextAligned + align)
      else if actualSize > sz + HEADER then
        ret (Some (nextAligned, cut_middle hdr nextAligned padSize actualSize sz m))
      else if actualSize = sz then ret (Some (nextAligned, cut_end hdr nextAligned padSize sz m))
      else aligned_fit m hdr sz align nextAligned)"

partial_function (option) heap_allocAligned_loop ::
  "64 mem \<Rightarrow> u64 \<Rightarrow> u64 \<Rightarrow> u64 \<Rightarrow> (u64 option \<times> 64 mem) run" where
  "heap_allocAligned_loop m hdr sz align =
     (if hdr = 0 then ret (opt_none, m)
      else if \<not> has_magic m hdr then halt (Panic ''Heap is broken'')
      else if is_used m hdr then heap_allocAligned_loop m (h_next m hdr) sz align
      else
        bindR (aligned_fit m hdr sz align (alignUp (hdr + HEADER) align)) (\<lambda>r.
          if r = None then heap_allocAligned_loop m (h_next m hdr) sz align
          else ret (opt_some (fst (the r)), snd (the r))))"

definition heap_allocAligned :: "heap \<Rightarrow> 64 mem \<Rightarrow> u64 \<Rightarrow> u64 \<Rightarrow> (u64 option \<times> 64 mem) run" where
  "heap_allocAligned hp m sz align = heap_allocAligned_loop m (rootHeader hp) sz align"

section \<open>free\<close>

definition magic_msg :: "string \<Rightarrow> string" where
  "magic_msg h = ''('' @ h @ ''->flags & headerMagic) == headerMagic''"

text \<open>The first loop of \<open>free\<close>: back to the first header of the free run.\<close>

partial_function (option) free_back_loop :: "64 mem \<Rightarrow> u64 \<Rightarrow> u64 run" where
  "free_back_loop m hdr =
     (if h_prev m hdr \<noteq> 0 then
        let prev = h_prev m hdr in
        assertR (has_magic m prev) (magic_msg ''prev'')
        (if is_used m prev then ret hdr else free_back_loop m prev)
      else ret hdr)"

text \<open>The second loop: the free headers that follow are merged into \<open>hdr\<close>.\<close>

definition merge_next :: "u64 \<Rightarrow> u64 \<Rightarrow> 64 mem \<Rightarrow> 64 mem" where
  "merge_next hdr nxt m =
     (let m = set_length hdr (h_length m hdr + (HEADER + h_length m nxt)) m;
          m = set_next hdr (h_next m nxt) m;
          m = (if h_next m hdr \<noteq> 0 then set_prev (h_next m hdr) hdr m else m) in
      memset m nxt 0 HEADER)"

partial_function (option) free_merge_loop :: "64 mem \<Rightarrow> u64 \<Rightarrow> 64 mem run" where
  "free_merge_loop m hdr =
     (if h_next m hdr \<noteq> 0 then
        let nxt = h_next m hdr in
        assertR (has_magic m nxt) (magic_msg ''next'')
        (if is_used m nxt then ret m else free_merge_loop (merge_next hdr nxt m) hdr)
      else ret m)"

definition heap_free :: "64 mem \<Rightarrow> u64 \<Rightarrow> 64 mem run" where
  "heap_free m addr =
     (let hdr = addr - HEADER in
      assertR (has_magic m hdr) ''(hdr->flags & heap::headerMagic) == heap::headerMagic''
      (if \<not> is_used m hdr then
         halt (Panic ''Heap object double-free detected: tried to free non-allocated pointer'')
       else
         let m1 = set_flags hdr (h_flags m hdr AND NOT HF_ALLOC) m in
         bindR (free_back_loop m1 hdr) (\<lambda>h. free_merge_loop m1 h)))"

definition heap_freeChecked :: "64 mem \<Rightarrow> u64 \<Rightarrow> u64 \<Rightarrow> 64 mem run" where
  "heap_freeChecked m addr sz =
     (let hdr = addr - HEADER in
      assertR (has_magic m hdr) ''(hdr->flags & heap::headerMagic) == heap::headerMagic''
      (assertR (sz = h_length m hdr) ''sz == hdr->length'' (heap_free m addr)))"

section \<open>dump, init and the operators\<close>

text \<open>The rows \<open>dump\<close> prints: first address, end address, used.\<close>

partial_function (option) heap_dump_loop :: "64 mem \<Rightarrow> u64 \<Rightarrow> (u64 \<times> u64 \<times> bool) list option" where
  "heap_dump_loop m hdr =
     (if hdr = 0 then Some []
      else Option.bind (heap_dump_loop m (h_next m hdr)) (\<lambda>rows.
        let addr = hdr + HEADER in Some ((addr, addr + h_length m hdr, is_used m hdr) # rows)))"

definition heap_dump :: "heap \<Rightarrow> 64 mem \<Rightarrow> (u64 \<times> u64 \<times> bool) list option" where
  "heap_dump hp m = heap_dump_loop m (rootHeader hp)"

text \<open>The kernel's memory management: \<open>mm\<close> with its page tables, and \<open>heap::kernelHeap\<close>.\<close>

record kst =
  mm :: mmst
  kernelHeap :: heap

definition kmem :: "kst \<Rightarrow> 64 mem" where "kmem k = mem (paging (mm k))"

definition set_kmem :: "kst \<Rightarrow> 64 mem \<Rightarrow> kst" where
  "set_kmem k m = k\<lparr>mm := mm k\<lparr>paging := (paging (mm k))\<lparr>mem := m\<rparr>\<rparr>\<rparr>"

definition heap_init :: "kst \<Rightarrow> kst run" where
  "heap_init k =
     bindR (mm_alloc (mm k) (pm_kernel (paging (mm k))) 16 AF_RW) (\<lambda>(r, s).
     bindR (orPanic r ''Failed to allocate memory for kernel heap'') (\<lambda>heapRegion.
     let k1 = k\<lparr>mm := s\<rparr> in
     bindR (heap_reset (kernelHeap k1) (kmem k1) heapRegion (16 * 0x200000)) (\<lambda>(hp, m).
     ret ((set_kmem k1 m)\<lparr>kernelHeap := hp\<rparr>))))"

definition valid_msg :: string where "valid_msg = ''heap::kernelHeap.valid()''"

text \<open>The operators; those on arrays are written out again in the source.\<close>

definition op_new :: "kst \<Rightarrow> u64 \<Rightarrow> (u64 \<times> kst) run" where
  "op_new k v =
     assertR (heap_valid (kernelHeap k)) valid_msg
     (bindR (heap_alloc (kernelHeap k) (kmem k) v) (\<lambda>(r, m).
      bindR (orPanic r ''Allocation failed'') (\<lambda>p. ret (p, set_kmem k m))))"

definition op_new_array :: "kst \<Rightarrow> u64 \<Rightarrow> (u64 \<times> kst) run" where
  "op_new_array k v =
     assertR (heap_valid (kernelHeap k)) valid_msg
     (bindR (heap_alloc (kernelHeap k) (kmem k) v) (\<lambda>(r, m).
      bindR (orPanic r ''Allocation failed'') (\<lambda>p. ret (p, set_kmem k m))))"

definition op_delete :: "kst \<Rightarrow> u64 \<Rightarrow> kst run" where
  "op_delete k v =
     assertR (heap_valid (kernelHeap k)) valid_msg
     (bindR (heap_free (kmem k) v) (\<lambda>m. ret (set_kmem k m)))"

definition op_delete_sized :: "kst \<Rightarrow> u64 \<Rightarrow> u64 \<Rightarrow> kst run" where
  "op_delete_sized k v n =
     assertR (heap_valid (kernelHeap k)) valid_msg
     (bindR (heap_freeChecked (kmem k) v n) (\<lambda>m. ret (set_kmem k m)))"

definition op_delete_array :: "kst \<Rightarrow> u64 \<Rightarrow> kst run" where
  "op_delete_array k v =
     assertR (heap_valid (kernelHeap k)) valid_msg
     (bindR (heap_free (kmem k) v) (\<lambda>m. ret (set_kmem k m)))"

definition op_delete_array_sized :: "kst \<Rightarrow> u64 \<Rightarrow> u64 \<Rightarrow> kst run" where
  "op_delete_array_sized k v n =
     assertR (heap_valid (kernelHeap k)) valid_msg
     (bindR (heap_freeChecked (kmem k) v n) (\<lambda>m. ret (set_kmem k m)))"

end
