(* ===== verification/HeapInv.thy ===== *)
theory HeapInv
  imports Heap
begin

text \<open>
  The heap as a list of blocks.  The headers form a chain that covers the heap without gaps; a
  block list gives the length of every block and whether it is in use.  The lemmas relate the
  header fields under the stores of theory Heap, and refine \<open>alloc\<close> to a first-fit search of the
  list.
\<close>

unbundle bit_operations_syntax

section \<open>Header fields\<close>

definition apart :: "u64 \<Rightarrow> u64 \<Rightarrow> bool" where
  "apart h h' \<longleftrightarrow> region h 32 \<inter> region h' 32 = {}"

lemma apart_sym: "apart h h' \<Longrightarrow> apart h' h"
  by (auto simp: apart_def)

lemma apart_nat: "unat h + 32 \<le> unat h' \<Longrightarrow> unat h' + 32 \<le> 2 ^ 64 \<Longrightarrow> apart h h' \<and> apart h' h"
  using region_disjoint_nat [of h 32 h' 32] by (auto simp: apart_def)

lemma field_sub:
  "region (h + 8) 8 \<subseteq> region h 32" "region (h + 16) 8 \<subseteq> region h 32" "region (h + 24) 8 \<subseteq> region h 32"
  "region h 8 \<subseteq> region h 32"
  for h :: u64
  by (rule region_sub; simp)+

lemmas field_defs = h_flags_def h_length_def h_prev_def h_next_def
  set_flags_def set_length_def set_prev_def set_next_def

lemma ld64_st64_near:
  "8 \<le> unat (b - a) \<Longrightarrow> 8 \<le> unat (a - b) \<Longrightarrow> ld64 (st64 m a v) b = ld64 m b"
  for a b :: u64
  by (intro c64.ld_st_disjoint region_disjoint)

named_theorems fields "reading a header field after a store to a header field"

lemma fields_same [fields]:
  "h_flags (set_flags h v m) h = v" "h_flags (set_length h v m) h = h_flags m h"
  "h_flags (set_prev h v m) h = h_flags m h" "h_flags (set_next h v m) h = h_flags m h"
  "h_length (set_flags h v m) h = h_length m h" "h_length (set_length h v m) h = v"
  "h_length (set_prev h v m) h = h_length m h" "h_length (set_next h v m) h = h_length m h"
  "h_prev (set_flags h v m) h = h_prev m h" "h_prev (set_length h v m) h = h_prev m h"
  "h_prev (set_prev h v m) h = v" "h_prev (set_next h v m) h = h_prev m h"
  "h_next (set_flags h v m) h = h_next m h" "h_next (set_length h v m) h = h_next m h"
  "h_next (set_prev h v m) h = h_next m h" "h_next (set_next h v m) h = v"
  by (simp_all add: field_defs c64.ld_st_same ld64_st64_near)

lemma header_cong:
  assumes "\<And>x. x \<in> region h 32 \<Longrightarrow> m' x = m x"
  shows "h_flags m' h = h_flags m h" "h_length m' h = h_length m h"
    "h_prev m' h = h_prev m h" "h_next m' h = h_next m h"
  using assms field_sub [of h] unfolding field_defs by (auto intro!: c64.ld_cong)

lemma store_frame:
  assumes "x \<notin> region h 32"
  shows "set_flags h v m x = m x" "set_length h v m x = m x" "set_prev h v m x = m x" "set_next h v m x = m x"
  using assms field_sub [of h] unfolding field_defs by (auto intro!: c64.st_frame)

lemma fields_apart [fields]:
  assumes "apart h h'"
  shows "h_flags (set_flags h v m) h' = h_flags m h'" "h_flags (set_length h v m) h' = h_flags m h'"
    "h_flags (set_prev h v m) h' = h_flags m h'" "h_flags (set_next h v m) h' = h_flags m h'"
    "h_length (set_flags h v m) h' = h_length m h'" "h_length (set_length h v m) h' = h_length m h'"
    "h_length (set_prev h v m) h' = h_length m h'" "h_length (set_next h v m) h' = h_length m h'"
    "h_prev (set_flags h v m) h' = h_prev m h'" "h_prev (set_length h v m) h' = h_prev m h'"
    "h_prev (set_prev h v m) h' = h_prev m h'" "h_prev (set_next h v m) h' = h_prev m h'"
    "h_next (set_flags h v m) h' = h_next m h'" "h_next (set_length h v m) h' = h_next m h'"
    "h_next (set_prev h v m) h' = h_next m h'" "h_next (set_next h v m) h' = h_next m h'"
proof -
  have d: "x \<notin> region h 32" if "x \<in> region h' 32" for x using assms that by (auto simp: apart_def)
  show "h_flags (set_flags h v m) h' = h_flags m h'" "h_flags (set_length h v m) h' = h_flags m h'"
    "h_flags (set_prev h v m) h' = h_flags m h'" "h_flags (set_next h v m) h' = h_flags m h'"
    "h_length (set_flags h v m) h' = h_length m h'" "h_length (set_length h v m) h' = h_length m h'"
    "h_length (set_prev h v m) h' = h_length m h'" "h_length (set_next h v m) h' = h_length m h'"
    "h_prev (set_flags h v m) h' = h_prev m h'" "h_prev (set_length h v m) h' = h_prev m h'"
    "h_prev (set_prev h v m) h' = h_prev m h'" "h_prev (set_next h v m) h' = h_prev m h'"
    "h_next (set_flags h v m) h' = h_next m h'" "h_next (set_length h v m) h' = h_next m h'"
    "h_next (set_prev h v m) h' = h_next m h'" "h_next (set_next h v m) h' = h_next m h'"
    by (rule header_cong; rule store_frame; erule d)+
qed

section \<open>Block lists\<close>

definition flags_of :: "bool \<Rightarrow> u64" where
  "flags_of u = (if u then headerMagic OR HF_ALLOC else headerMagic)"

lemma flags_of_tests [simp]:
  "flags_of u AND headerMagic = headerMagic" "flags_of u AND HF_ALLOC \<noteq> 0 \<longleftrightarrow> u"
  "flags_of u AND HF_ALLOC = 0 \<longleftrightarrow> \<not> u" "flags_of False = headerMagic"
  "flags_of u OR HF_ALLOC = flags_of True" "headerMagic OR HF_ALLOC = flags_of True"
  "flags_of u AND NOT HF_ALLOC = headerMagic"
  by (simp_all add: flags_of_def headerMagic_def HF_ALLOC_def)

type_synonym blocks = "(nat \<times> bool) list"

primrec extent :: "blocks \<Rightarrow> nat" where
  "extent [] = 0"
| "extent (b # bs) = 32 + fst b + extent bs"

definition next_hdr :: "u64 \<Rightarrow> nat \<Rightarrow> u64" where
  "next_hdr a n = a + HEADER + of_nat n"

fun hchain :: "64 mem \<Rightarrow> u64 \<Rightarrow> blocks \<Rightarrow> bool" where
  "hchain m a [] \<longleftrightarrow> True"
| "hchain m a ((n, u) # bs) \<longleftrightarrow>
     h_flags m a = flags_of u \<and> h_length m a = of_nat n \<and>
     h_next m a = (if bs = [] then 0 else next_hdr a n) \<and> hchain m (next_hdr a n) bs"

definition fits :: "u64 \<Rightarrow> blocks \<Rightarrow> bool" where
  "fits a bs \<longleftrightarrow> 0 < unat a \<and> unat a + extent bs < 2 ^ 64"

text \<open>The bytes of the blocks in use.\<close>

fun live :: "nat \<Rightarrow> blocks \<Rightarrow> nat \<Rightarrow> bool" where
  "live lo [] x \<longleftrightarrow> False"
| "live lo ((n, u) # bs) x \<longleftrightarrow> u \<and> lo + 32 \<le> x \<and> x < lo + 32 + n \<or> live (lo + 32 + n) bs x"

lemma unat_next_hdr: "fits a ((n, u) # bs) \<Longrightarrow> unat (next_hdr a n) = unat a + 32 + n"
proof -
  assume "fits a ((n, u) # bs)"
  then have l: "unat a + 32 + n < 2 ^ 64" by (simp add: fits_def)
  then have "unat (of_nat n :: u64) = n" by (simp add: unat_of_nat_small)
  moreover have "unat (a + 32) = unat a + 32" using l by (subst unat_add_small) simp_all
  ultimately show ?thesis using l unfolding next_hdr_def HEADER_def by (subst unat_add_small) simp_all
qed

lemma fits_tail: "fits a ((n, u) # bs) \<Longrightarrow> fits (next_hdr a n) bs"
  using unat_next_hdr [of a n u bs] by (simp add: fits_def)

lemma fits_nonzero: "fits a bs \<Longrightarrow> a \<noteq> 0"
  by (auto simp: fits_def)

lemma fits_length: "fits a ((n, u) # bs) \<Longrightarrow> unat (of_nat n :: u64) = n"
  by (simp add: fits_def unat_of_nat_small)

text \<open>The bytes from \<open>a\<close> on, on the numbers of the addresses.\<close>

lemma in_span: "fits a bs \<Longrightarrow> n \<le> extent bs \<Longrightarrow> x \<in> region a n \<longleftrightarrow> unat a \<le> unat x \<and> unat x < unat a + n"
  by (intro in_region_nat) (simp add: fits_def)

lemma hchain_cong:
  "fits a bs \<Longrightarrow> (\<And>x. unat a \<le> unat x \<Longrightarrow> unat x < unat a + extent bs \<Longrightarrow> m' x = m x) \<Longrightarrow>
   hchain m' a bs = hchain m a bs"
proof (induction m a bs rule: hchain.induct)
  case (1 m a)
  then show ?case by simp
next
  case (2 m a n u bs)
  have "m' x = m x" if "x \<in> region a 32" for x
    using that in_span [OF "2.prems"(1), of 32 x] by (intro "2.prems"(2)) simp_all
  note h = header_cong [of a m' m, OF this]
  have "hchain m' (next_hdr a n) bs = hchain m (next_hdr a n) bs"
    using unat_next_hdr [OF "2.prems"(1)] by (intro "2.IH" fits_tail [OF "2.prems"(1)] "2.prems"(2)) simp_all
  then show ?case by (simp add: h)
qed

lemma live_bounds: "live lo bs x \<Longrightarrow> lo + 32 \<le> x \<and> x < lo + extent bs"
  by (induction lo bs x rule: live.induct) auto

section \<open>alloc is a first-fit search\<close>

text \<open>The search on the list: the address found and the list afterwards.\<close>

fun first_fit :: "nat \<Rightarrow> nat \<Rightarrow> blocks \<Rightarrow> (nat \<times> blocks) option" where
  "first_fit lo s [] = None"
| "first_fit lo s ((n, u) # bs) =
     (if \<not> u \<and> s + 32 < n then Some (lo + 32, (s, True) # (n - s - 32, False) # bs)
      else if \<not> u \<and> n = s then Some (lo + 32, (n, True) # bs)
      else map_option (\<lambda>(p, bs'). (p, (n, u) # bs')) (first_fit (lo + 32 + n) s bs))"

lemma first_fit_shape:
  "first_fit lo s bs = Some (p, bs') \<Longrightarrow>
   bs' \<noteq> [] \<and> extent bs' = extent bs \<and> lo + 32 \<le> p \<and> p + s \<le> lo + extent bs \<and>
   (\<forall>x. live lo bs' x \<longleftrightarrow> live lo bs x \<or> p \<le> x \<and> x < p + s) \<and>
   (\<forall>x. live lo bs x \<longrightarrow> \<not> (p \<le> x \<and> x < p + s))"
proof (induction lo s bs arbitrary: bs' rule: first_fit.induct)
  case (1 lo s)
  then show ?case by simp
next
  case (2 lo s n u bs)
  have above: "\<not> x < lo + 32 + n" if "live (lo + 32 + n) bs x" for x
    using live_bounds [OF that] by simp
  consider (split) "\<not> u" "s + 32 < n" "bs' = (s, True) # (n - s - 32, False) # bs" "p = lo + 32"
    | (whole) "\<not> u" "n = s" "bs' = (n, True) # bs" "p = lo + 32"
    | (later) bs1 where "first_fit (lo + 32 + n) s bs = Some (p, bs1)" "bs' = (n, u) # bs1"
        "u \<or> \<not> s + 32 < n" "u \<or> n \<noteq> s"
    using 2(2) by (auto split: if_splits)
  then show ?case
  proof cases
    case split
    then have e: "lo + 32 + s + 32 + (n - s - 32) = lo + 32 + n" by simp
    have "live lo bs' x \<longleftrightarrow> lo + 32 \<le> x \<and> x < lo + 32 + s \<or> live (lo + 32 + n) bs x" for x
      by (simp only: split(3) live.simps e simp_thms)
    moreover have "live lo ((n, u) # bs) x \<longleftrightarrow> live (lo + 32 + n) bs x" for x
      using split(1) by simp
    moreover have "\<not> (live (lo + 32 + n) bs x \<and> x < lo + 32 + s)" for x
      using above [of x] split(2) by auto
    moreover have "bs' \<noteq> []" "extent bs' = extent ((n, u) # bs)" "lo + 32 \<le> p"
      "p + s \<le> lo + extent ((n, u) # bs)" using split by simp_all
    ultimately show ?thesis unfolding split(4) by blast
  next
    case whole
    then show ?thesis using above by auto
  next
    case later
    have "bs1 \<noteq> [] \<and> extent bs1 = extent bs \<and> lo + 32 + n + 32 \<le> p \<and> p + s \<le> lo + 32 + n + extent bs \<and>
      (\<forall>x. live (lo + 32 + n) bs1 x \<longleftrightarrow> live (lo + 32 + n) bs x \<or> p \<le> x \<and> x < p + s) \<and>
      (\<forall>x. live (lo + 32 + n) bs x \<longrightarrow> \<not> (p \<le> x \<and> x < p + s))"
      using later by (intro "2.IH") auto
    then show ?thesis using later(2) by auto
  qed
qed

lemma has_magic_flags: "h_flags m a = flags_of u \<Longrightarrow> has_magic m a \<and> (is_used m a \<longleftrightarrow> u)"
  by (simp add: has_magic_def is_used_def)

text \<open>The two ways a block is taken.\<close>

lemma mark_used_block:
  assumes c: "hchain m a ((n, False) # bs)" and f: "fits a ((n, False) # bs)"
  shows "hchain (mark_used a m) a ((n, True) # bs)"
    and "\<not> (unat a \<le> unat x \<and> unat x < unat a + 32) \<Longrightarrow> mark_used a m x = m x"
proof -
  have fr: "mark_used a m x = m x" if "\<not> (unat a \<le> unat x \<and> unat x < unat a + 32)" for x
    unfolding mark_used_def using that in_span [OF f, of 32 x] by (intro store_frame) simp
  show "\<not> (unat a \<le> unat x \<and> unat x < unat a + 32) \<Longrightarrow> mark_used a m x = m x" by (rule fr)
  have "hchain (mark_used a m) (next_hdr a n) bs = hchain m (next_hdr a n) bs"
    by (rule hchain_cong [OF fits_tail [OF f]]) (simp add: fr unat_next_hdr [OF f])
  then show "hchain (mark_used a m) a ((n, True) # bs)"
    using c by (simp add: mark_used_def fields)
qed

lemma split_block_chain:
  assumes c: "hchain m a ((n, u) # bs)" and f: "fits a ((n, u) # bs)" and s: "unat sz + 32 \<le> n"
  shows "hchain (split_block a sz m) a ((unat sz, True) # (n - unat sz - 32, False) # bs)"
    and "\<not> (unat a \<le> unat x \<and> unat x < unat a + 32) \<Longrightarrow>
         \<not> (unat a + 32 + unat sz \<le> unat x \<and> unat x < unat a + 32 + unat sz + 32) \<Longrightarrow>
         split_block a sz m x = m x"
proof -
  define b where "b = next_hdr a (unat sz)"
  have f1: "fits a ((unat sz, True) # (n - unat sz - 32, False) # bs)" using f s by (simp add: fits_def)
  have ub: "unat b = unat a + 32 + unat sz" unfolding b_def using f1 by (rule unat_next_hdr)
  have fb: "fits b ((n - unat sz - 32, False) # bs)" unfolding b_def using f1 by (rule fits_tail)
  have ap: "apart a b" "apart b a" using apart_nat [of a b] ub fb by (simp_all add: fits_def)
  have nb: "next_hdr b (n - unat sz - 32) = next_hdr a n"
    using unat_next_hdr [OF fb] unat_next_hdr [OF f] ub s by (simp add: word_unat_eq_iff)
  have len: "(of_nat n - sz - 32 :: u64) = of_nat (n - unat sz - 32)"
    using s by (simp add: of_nat_diff)
  let ?m = "split_block a sz m"
  have m: "?m = set_length a sz (set_next a b (set_length b (h_length m a - sz - HEADER)
     (set_flags b headerMagic (set_next b (h_next m a) (set_prev b a (mark_used a m))))))"
    using ap by (simp add: split_block_def Let_def mark_used_def fields b_def next_hdr_def)
  show fr: "?m x = m x" if "\<not> (unat a \<le> unat x \<and> unat x < unat a + 32)"
      "\<not> (unat a + 32 + unat sz \<le> unat x \<and> unat x < unat a + 32 + unat sz + 32)" for x
  proof -
    have "x \<notin> region a 32" "x \<notin> region b 32"
      using that ub in_span [OF f, of 32 x] in_span [OF fb, of 32 x] by simp_all
    then show ?thesis by (simp add: m mark_used_def store_frame)
  qed
  have "hchain ?m (next_hdr a n) bs = hchain m (next_hdr a n) bs"
    using s unat_next_hdr [OF f] by (intro hchain_cong [OF fits_tail [OF f]] fr) simp_all
  moreover have "h_flags ?m a = flags_of True" "h_length ?m a = sz" "h_next ?m a = b"
    "h_flags ?m b = headerMagic" "h_length ?m b = h_length m a - sz - HEADER" "h_next ?m b = h_next m a"
    using c ap by (simp_all add: m mark_used_def fields)
  ultimately show "hchain ?m a ((unat sz, True) # (n - unat sz - 32, False) # bs)"
    using c nb len by (simp add: b_def [symmetric] HEADER_def)
qed

lemma heap_alloc_loop_first_fit:
  assumes "hchain m a bs" and "fits a bs" and "bs \<noteq> []" and "unat sz + 32 < 2 ^ 64"
  shows "case first_fit (unat a) (unat sz) bs of
       None \<Rightarrow> heap_alloc_loop m a sz = ret (None, m)
     | Some (p, bs') \<Rightarrow> \<exists>m'. heap_alloc_loop m a sz = ret (Some (of_nat p), m') \<and> hchain m' a bs' \<and>
         (\<forall>x. \<not> (unat a \<le> unat x \<and> unat x < unat a + extent bs) \<or> live (unat a) bs (unat x) \<longrightarrow> m' x = m x)"
  using assms
proof (induction bs arbitrary: a)
  case Nil
  then show ?case by simp
next
  case (Cons b bs)
  obtain n u where b: "b = (n, u)" by (cases b)
  note c = Cons.prems(1) [unfolded b] and f = Cons.prems(2) [unfolded b]
  have ne: "a \<noteq> 0" using f by (rule fits_nonzero)
  have fl: "h_flags m a = flags_of u" "h_length m a = of_nat n" using c by simp_all
  note mg = has_magic_flags [OF fl(1)]
  have szw: "unat (sz + 32) = unat sz + 32" using Cons.prems(4) by (subst unat_add_small) simp_all
  have gt: "h_length m a > sz + HEADER \<longleftrightarrow> unat sz + 32 < n" "h_length m a = sz \<longleftrightarrow> n = unat sz"
    using fits_length [OF f] szw by (auto simp: fl HEADER_def word_less_nat_alt word_unat_eq_iff)
  have addr: "a + HEADER = of_nat (unat a + 32)" by (simp add: HEADER_def)
  note step = heap_alloc_loop.simps [of m a sz]
  have tail: "live (unat a + 32 + n) bs x \<Longrightarrow> unat a + 32 + n + 32 \<le> x" for x
    using live_bounds by blast
  consider (split) "\<not> u" "unat sz + 32 < n" | (whole) "\<not> u" "n = unat sz" | (later) "u \<or> \<not> unat sz + 32 < n \<and> n \<noteq> unat sz"
    by blast
  then show ?case
  proof cases
    case split
    have "heap_alloc_loop m a sz = ret (Some (of_nat (unat a + 32)), split_block a sz m)"
      using split ne mg gt addr by (subst step) (simp add: opt_some_def)
    moreover note split_block_chain [OF c f, of sz]
    ultimately show ?thesis using split tail by (fastforce simp: b)
  next
    case whole
    have "heap_alloc_loop m a sz = ret (Some (of_nat (unat a + 32)), mark_used a m)"
      using whole ne mg gt addr by (subst step) (simp add: opt_some_def)
    moreover note mark_used_block [of m a n bs]
    ultimately show ?thesis using whole tail c f by (fastforce simp: b)
  next
    case later
    have skip: "heap_alloc_loop m a sz = heap_alloc_loop m (h_next m a) sz"
      using later ne mg gt by (subst step) auto
    show ?thesis
    proof (cases "bs = []")
      case True
      then have "heap_alloc_loop m a sz = ret (None, m)"
        using c by (simp add: skip heap_alloc_loop.simps [of m 0 sz] opt_none_def)
      then show ?thesis using later True by (auto simp: b)
    next
      case False
      let ?a = "next_hdr a n"
      have ua: "unat ?a = unat a + 32 + n" using f by (rule unat_next_hdr)
      have nx: "heap_alloc_loop m a sz = heap_alloc_loop m ?a sz" using skip c False by simp
      have IH: "case first_fit (unat ?a) (unat sz) bs of
         None \<Rightarrow> heap_alloc_loop m ?a sz = ret (None, m)
       | Some (p, bs') \<Rightarrow> \<exists>m'. heap_alloc_loop m ?a sz = ret (Some (of_nat p), m') \<and> hchain m' ?a bs' \<and>
           (\<forall>x. \<not> (unat ?a \<le> unat x \<and> unat x < unat ?a + extent bs) \<or> live (unat ?a) bs (unat x) \<longrightarrow> m' x = m x)"
        using c False Cons.prems(4) fits_tail [OF f] by (intro Cons.IH) simp_all
      show ?thesis
      proof (cases "first_fit (unat ?a) (unat sz) bs")
        case None
        then show ?thesis using IH later nx ua by (auto simp: b)
      next
        case (Some r)
        obtain p bs1 where r: "r = (p, bs1)" by (cases r)
        obtain m' where m': "heap_alloc_loop m ?a sz = ret (Some (of_nat p), m')" "hchain m' ?a bs1"
          "\<And>x. \<not> (unat ?a \<le> unat x \<and> unat x < unat ?a + extent bs) \<or> live (unat ?a) bs (unat x) \<Longrightarrow> m' x = m x"
          using IH Some r by auto
        have h: "m' x = m x" if "x \<in> region a 32" for x
          using that in_span [OF f, of 32 x] ua by (intro m'(3)) simp
        have "hchain m' a ((n, u) # bs1)"
          using c m'(2) False first_fit_shape [OF Some [unfolded r]] by (simp add: header_cong [of a m' m, OF h])
        moreover have "m' x = m x" if "\<not> (unat a \<le> unat x \<and> unat x < unat a + extent (b # bs)) \<or>
            live (unat a) (b # bs) (unat x)" for x
          using that by (intro m'(3)) (auto simp: b ua)
        moreover have "first_fit (unat a) (unat sz) (b # bs) = Some (p, (n, u) # bs1)"
          using later Some r ua by (auto simp: b)
        ultimately show ?thesis using nx m'(1) by auto
      qed
    qed
  qed
qed

end
