(* ===== verification/HeapFree.thy ===== *)
theory HeapFree
  imports HeapInv
begin

text \<open>
  \<open>Heap::free\<close> on the block list: with correct \<open>prev\<close> links the freed block is merged with all
  free neighbours on both sides.  Back and merge loop are characterised separately, so that the
  round trip through \<open>alloc\<close> can use the state \<open>alloc\<close> leaves, in which one link is stale.
\<close>

unbundle bit_operations_syntax

section \<open>Positions in the chain\<close>

fun pos :: "u64 \<Rightarrow> blocks \<Rightarrow> u64" where
  "pos a [] = a"
| "pos a ((n, u) # bs) = pos (next_hdr a n) bs"

fun last_hdr :: "u64 \<Rightarrow> u64 \<Rightarrow> blocks \<Rightarrow> u64" where
  "last_hdr p a [] = p"
| "last_hdr p a ((n, u) # bs) = last_hdr a (next_hdr a n) bs"

text \<open>Headers whose \<open>next\<close> is the header behind them, and correct \<open>prev\<close> links.\<close>

fun hpre :: "64 mem \<Rightarrow> u64 \<Rightarrow> blocks \<Rightarrow> bool" where
  "hpre m a [] \<longleftrightarrow> True"
| "hpre m a ((n, u) # bs) \<longleftrightarrow>
     h_flags m a = flags_of u \<and> h_length m a = of_nat n \<and> h_next m a = next_hdr a n \<and>
     hpre m (next_hdr a n) bs"

fun hprev :: "64 mem \<Rightarrow> u64 \<Rightarrow> u64 \<Rightarrow> blocks \<Rightarrow> bool" where
  "hprev m p a [] \<longleftrightarrow> True"
| "hprev m p a ((n, u) # bs) \<longleftrightarrow> h_prev m a = p \<and> hprev m a (next_hdr a n) bs"

lemma hchain_append: "ys \<noteq> [] \<Longrightarrow> hchain m a (xs @ ys) \<longleftrightarrow> hpre m a xs \<and> hchain m (pos a xs) ys"
  by (induction m a xs rule: hpre.induct) auto

lemma hprev_append: "hprev m p a (xs @ ys) \<longleftrightarrow> hprev m p a xs \<and> hprev m (last_hdr p a xs) (pos a xs) ys"
  by (induction m p a xs rule: hprev.induct) auto

lemma pos_append [simp]: "pos a (xs @ ys) = pos (pos a xs) ys"
  by (induction a xs rule: pos.induct) auto

lemma last_hdr_append [simp]: "last_hdr p a (xs @ [b]) = pos a xs"
  by (induction p a xs rule: last_hdr.induct) (auto, cases b, auto)

lemma extent_append [simp]: "extent (xs @ ys) = extent xs + extent ys"
  by (induction xs) auto

lemma unat_pos: "fits a (xs @ ys) \<Longrightarrow> unat (pos a xs) = unat a + extent xs"
proof (induction a xs rule: pos.induct)
  case (2 a n u bs)
  then show ?case using unat_next_hdr [of a n u "bs @ ys"] fits_tail [of a n u "bs @ ys"] by simp
qed simp

lemma fits_pos: "fits a (xs @ ys) \<Longrightarrow> fits (pos a xs) ys"
  using unat_pos [of a xs ys] by (simp add: fits_def)

lemma hpre_cong:
  "fits a (bs @ ys) \<Longrightarrow> (\<And>x. unat a \<le> unat x \<Longrightarrow> unat x < unat a + extent bs \<Longrightarrow> m' x = m x) \<Longrightarrow>
   hpre m' a bs = hpre m a bs"
proof (induction m a bs rule: hpre.induct)
  case (2 m a n u bs)
  have f: "fits a ((n, u) # (bs @ ys))" using "2.prems"(1) by simp
  have h: "m' x = m x" if "x \<in> region a 32" for x
    using that in_span [OF f, of 32 x] by (intro "2.prems"(2)) simp_all
  have "hpre m' (next_hdr a n) bs = hpre m (next_hdr a n) bs"
    using unat_next_hdr [OF f] fits_tail [OF f] by (intro "2.IH" "2.prems"(2)) simp_all
  then show ?case by (simp add: header_cong [of a m' m, OF h])
qed simp

lemma hprev_cong:
  "fits a (bs @ ys) \<Longrightarrow> (\<And>x. unat a \<le> unat x \<Longrightarrow> unat x < unat a + extent bs \<Longrightarrow> m' x = m x) \<Longrightarrow>
   hprev m' p a bs = hprev m p a bs"
proof (induction m p a bs rule: hprev.induct)
  case (2 m p a n u bs)
  have f: "fits a ((n, u) # (bs @ ys))" using "2.prems"(1) by simp
  have h: "m' x = m x" if "x \<in> region a 32" for x
    using that in_span [OF f, of 32 x] by (intro "2.prems"(2)) simp_all
  have "hprev m' a (next_hdr a n) bs = hprev m a (next_hdr a n) bs"
    using unat_next_hdr [OF f] fits_tail [OF f] by (intro "2.IH" "2.prems"(2)) simp_all
  then show ?case by (simp add: header_cong [of a m' m, OF h])
qed simp

text \<open>The links behind the head of a list.\<close>

fun hprev_tail :: "64 mem \<Rightarrow> u64 \<Rightarrow> blocks \<Rightarrow> bool" where
  "hprev_tail m a [] \<longleftrightarrow> True"
| "hprev_tail m a ((n, u) # bs) \<longleftrightarrow> hprev m a (next_hdr a n) bs"

lemma hprev_iff_tail: "hprev m p a bs \<longleftrightarrow> (bs \<noteq> [] \<longrightarrow> h_prev m a = p) \<and> hprev_tail m a bs"
  by (cases bs) auto

lemma hprev_imp_tail: "hprev m p a bs \<Longrightarrow> hprev_tail m a bs"
  by (simp add: hprev_iff_tail)

section \<open>One merge\<close>

lemma memset_header:
  "apart h h' \<Longrightarrow> h_flags (memset m h 0 HEADER) h' = h_flags m h' \<and> h_length (memset m h 0 HEADER) h' = h_length m h' \<and>
     h_prev (memset m h 0 HEADER) h' = h_prev m h' \<and> h_next (memset m h 0 HEADER) h' = h_next m h'"
  by (intro conjI header_cong; auto simp: apart_def memset_apply HEADER_def)

lemma merge_step:
  assumes c: "hchain m h ((l, u) # (k, v) # bs)" and f: "fits h ((l, u) # (k, v) # bs)" and p: "h_prev m h = p"
    and t: "hprev_tail m (next_hdr (next_hdr h l) k) bs"
  defines "m' \<equiv> merge_next h (next_hdr h l) m"
  shows "hchain m' h ((l + 32 + k, u) # bs)" and "hprev m' p h ((l + 32 + k, u) # bs)"
    and "fits h ((l + 32 + k, u) # bs)"
    and "unat x < unat h \<or> unat h + extent ((l, u) # (k, v) # bs) \<le> unat x \<or>
         live (unat h) ((l, False) # (k, False) # bs) (unat x) \<Longrightarrow> m' x = m x"
proof -
  define b c' where "b = next_hdr h l" and "c' = next_hdr b k"
  have ub: "unat b = unat h + 32 + l" unfolding b_def using f by (rule unat_next_hdr)
  have fb: "fits b ((k, v) # bs)" unfolding b_def using f by (rule fits_tail)
  have uc: "unat c' = unat h + 64 + l + k" unfolding c'_def using unat_next_hdr [OF fb] ub by simp
  have fc: "fits c' bs" unfolding c'_def using fb by (rule fits_tail)
  have ap: "apart h b" "apart b h" using apart_nat [of h b] ub fb by (simp_all add: fits_def)
  have apc: "apart h c'" "apart c' h" "apart b c'" "apart c' b" if "bs \<noteq> []"
    using that apart_nat [of h c'] apart_nat [of b c'] ub uc fc by (cases bs; auto simp: fits_def)+
  show fm: "fits h ((l + 32 + k, u) # bs)" using f by (simp add: fits_def)
  have nh: "next_hdr h (l + 32 + k) = c'"
    using unat_next_hdr [OF fm] uc by (simp add: word_unat_eq_iff)
  define m2 where "m2 = set_next h (h_next m b) (set_length h (h_length m h + (HEADER + h_length m b)) m)"
  have hn: "h_next m b = (if bs = [] then 0 else c')" using c by (simp add: b_def c'_def)
  have c0: "c' \<noteq> 0" using fc by (rule fits_nonzero)
  have m': "m' = memset (if bs = [] then m2 else set_prev c' h m2) b 0 HEADER"
    using hn c0 ap by (simp add: m'_def merge_next_def Let_def m2_def b_def [symmetric] fields)
  have fr: "m' x = m x" if "\<not> (unat h \<le> unat x \<and> unat x < unat h + 32)" "\<not> (unat b \<le> unat x \<and> unat x < unat b + 32)"
      "bs \<noteq> [] \<longrightarrow> \<not> (unat c' \<le> unat x \<and> unat x < unat c' + 32)" for x
  proof -
    have "x \<notin> region h 32" "x \<notin> region b 32"
      using that in_span [OF f, of 32 x] in_span [OF fb, of 32 x] by simp_all
    moreover have "bs \<noteq> [] \<longrightarrow> x \<notin> region c' 32"
      using that(3) in_span [OF fc, of 32 x] by (cases bs) auto
    ultimately show ?thesis by (auto simp: m' m2_def memset_apply HEADER_def store_frame)
  qed
  have tailc: "hchain m' c' bs \<longleftrightarrow> hchain m c' bs"
  proof (cases bs)
    case (Cons d ds)
    obtain j w where d: "d = (j, w)" by (cases d)
    have fd: "fits c' ((j, w) # ds)" using fc Cons d by simp
    have "hchain m' (next_hdr c' j) ds = hchain m (next_hdr c' j) ds"
      using unat_next_hdr [OF fd] ub uc Cons by (intro hchain_cong [OF fits_tail [OF fd]] fr) simp_all
    then show ?thesis
      using Cons d apc ap by (simp add: m' memset_header m2_def fields)
  qed simp
  have flds: "h_flags m' h = h_flags m h" "h_prev m' h = p" "h_next m' h = h_next m b"
    "h_length m' h = h_length m h + (HEADER + h_length m b)"
    using ap apc p by (auto simp: m' memset_header m2_def fields)
  have len: "h_length m h + (HEADER + h_length m b) = of_nat (l + 32 + k)"
    using c by (simp add: b_def HEADER_def)
  show "hchain m' h ((l + 32 + k, u) # bs)"
    using c tailc flds len hn nh by (auto simp: b_def c'_def)
  have "hprev m' h c' bs"
  proof (cases bs)
    case (Cons d ds)
    obtain j w where d: "d = (j, w)" by (cases d)
    have fd: "fits c' ((j, w) # ds)" using fc Cons d by simp
    have "hprev m' c' (next_hdr c' j) ds = hprev m c' (next_hdr c' j) ds"
      using unat_next_hdr [OF fd] ub uc Cons fits_tail [OF fd]
      by (intro hprev_cong [where ys = "[]"] fr) simp_all
    moreover have "h_prev m' c' = h"
      using Cons apc ap by (simp add: m' memset_header fields)
    ultimately show ?thesis using t Cons d by (simp add: b_def c'_def)
  qed simp
  then show "hprev m' p h ((l + 32 + k, u) # bs)" using flds nh by simp
  show "m' x = m x" if "unat x < unat h \<or> unat h + extent ((l, u) # (k, v) # bs) \<le> unat x \<or>
      live (unat h) ((l, False) # (k, False) # bs) (unat x)"
  proof -
    have "unat h + 64 + l + k + 32 \<le> unat x" if "live (unat h + 32 + l + 32 + k) bs (unat x)"
      using live_bounds [OF that] by simp
    moreover have "bs \<noteq> [] \<Longrightarrow> 32 \<le> extent bs" by (cases bs) auto
    ultimately show ?thesis using that ub uc by (intro fr) auto
  qed
qed

section \<open>The loops of free\<close>

abbreviation free_block :: "nat \<times> bool \<Rightarrow> bool" where
  "free_block b \<equiv> \<not> snd b"

lemma hpre_append: "hpre m a (xs @ ys) \<longleftrightarrow> hpre m a xs \<and> hpre m (pos a xs) ys"
  by (induction m a xs rule: hpre.induct) auto

lemma live_append: "live lo (xs @ ys) x \<longleftrightarrow> live lo xs x \<or> live (lo + extent xs) ys x"
  by (induction lo xs x rule: live.induct) (auto simp: add.assoc)

lemma live_free: "\<forall>b\<in>set bs. free_block b \<Longrightarrow> \<not> live lo bs x"
  by (induction lo bs x rule: live.induct) auto

lemma free_back_loop_pos:
  assumes "hpre m a xs" and "fits a (xs @ ys)" and "hprev m 0 a xs" and "h_prev m (pos a xs) = last_hdr 0 a xs"
  shows "free_back_loop m (pos a xs) = ret (pos a (rev (dropWhile free_block (rev xs))))"
  using assms
proof (induction xs arbitrary: ys rule: rev_induct)
  case Nil
  then show ?case by (simp add: free_back_loop.simps [of m a])
next
  case (snoc b xs)
  obtain k u where b: "b = (k, u)" by (cases b)
  let ?h = "pos a (xs @ [b])"
  have pr: "h_prev m ?h = pos a xs" using snoc.prems(4) by simp
  have ne: "pos a xs \<noteq> 0" using fits_pos [of a xs "b # ys"] snoc.prems(2) by (intro fits_nonzero) simp
  have fl: "h_flags m (pos a xs) = flags_of u" using snoc.prems(1) b by (simp add: hpre_append)
  have step: "free_back_loop m ?h = assertR (has_magic m (pos a xs)) (magic_msg ''prev'')
      (if is_used m (pos a xs) then ret ?h else free_back_loop m (pos a xs))"
    using ne by (subst free_back_loop.simps) (simp only: pr Let_def if_True not_False_eq_True)
  show ?case
  proof (cases u)
    case True
    then show ?thesis unfolding step using has_magic_flags [OF fl] b by simp
  next
    case False
    have "free_back_loop m (pos a xs) = ret (pos a (rev (dropWhile free_block (rev xs))))"
      using snoc.prems b by (intro snoc.IH [of "b # ys"]) (simp_all add: hpre_append hprev_append)
    then show ?thesis unfolding step using has_magic_flags [OF fl] False b by simp
  qed
qed

lemma free_merge_loop_run:
  assumes "hchain m h ((l, False) # gs @ ys)" and "fits h ((l, False) # gs @ ys)"
    and "\<forall>g\<in>set gs. free_block g" and "ys = [] \<or> snd (hd ys)" and "h_prev m h = p"
    and "case gs of [] \<Rightarrow> hprev m h (next_hdr h l) ys
         | g # gs' \<Rightarrow> hprev_tail m (pos h [(l, False), g]) (gs' @ ys)"
  shows "\<exists>m'. free_merge_loop m h = ret m' \<and> hchain m' h ((l + extent gs, False) # ys) \<and>
     hprev m' p h ((l + extent gs, False) # ys) \<and>
     (\<forall>x. unat x < unat h \<or> unat h + extent ((l, False) # gs @ ys) \<le> unat x \<or>
        live (unat h) ((l, False) # gs @ ys) (unat x) \<longrightarrow> m' x = m x)"
  using assms
proof (induction gs arbitrary: m l)
  case Nil
  have "free_merge_loop m h = ret m"
  proof (cases ys)
    case Nil
    then show ?thesis using Nil.prems(1) by (simp add: free_merge_loop.simps [of m h])
  next
    case (Cons y ys')
    obtain k u where y: "y = (k, u)" by (cases y)
    have "h_next m h = next_hdr h l" "h_flags m (next_hdr h l) = flags_of u" "u"
      using Nil.prems(1,4) Cons y by simp_all
    moreover have "next_hdr h l \<noteq> 0" using Nil.prems(2) by (intro fits_nonzero [OF fits_tail]) simp
    ultimately show ?thesis
      using has_magic_flags [of m "next_hdr h l" u] by (simp add: free_merge_loop.simps [of m h])
  qed
  then show ?case using Nil.prems by auto
next
  case (Cons g gs)
  obtain k where g: "g = (k, False)" using Cons.prems(3) by (cases g) auto
  let ?b = "next_hdr h l"
  note c = Cons.prems(1) [unfolded g append_Cons] and f = Cons.prems(2) [unfolded g append_Cons]
  have t: "hprev_tail m (next_hdr ?b k) (gs @ ys)" using Cons.prems(6) g by simp
  note st = merge_step [OF c f Cons.prems(5) t]
  let ?m = "merge_next h ?b m"
  have ne: "?b \<noteq> 0" using f by (intro fits_nonzero [OF fits_tail])
  have "h_next m h = ?b" "h_flags m ?b = flags_of False" using c by simp_all
  then have step: "free_merge_loop m h = free_merge_loop ?m h"
    using ne has_magic_flags [of m ?b False] by (simp add: free_merge_loop.simps [of m h])
  have nx: "pos h [(l + 32 + k, False), g'] = next_hdr (next_hdr h (l + 32 + k)) (fst g')" for g'
    by (cases g') simp
  have "\<exists>m'. free_merge_loop ?m h = ret m' \<and> hchain m' h ((l + 32 + k + extent gs, False) # ys) \<and>
     hprev m' p h ((l + 32 + k + extent gs, False) # ys) \<and>
     (\<forall>x. unat x < unat h \<or> unat h + extent ((l + 32 + k, False) # gs @ ys) \<le> unat x \<or>
        live (unat h) ((l + 32 + k, False) # gs @ ys) (unat x) \<longrightarrow> m' x = ?m x)"
    using st(1-3) Cons.prems(3,4)
    by (intro Cons.IH) (auto simp: nx split: list.splits intro: hprev_imp_tail)
  then obtain m' where m': "free_merge_loop ?m h = ret m'" "hchain m' h ((l + 32 + k + extent gs, False) # ys)"
     "hprev m' p h ((l + 32 + k + extent gs, False) # ys)"
     "\<And>x. unat x < unat h \<or> unat h + extent ((l + 32 + k, False) # gs @ ys) \<le> unat x \<or>
        live (unat h) ((l + 32 + k, False) # gs @ ys) (unat x) \<Longrightarrow> m' x = ?m x"
    by blast
  have e: "l + 32 + k + extent gs = l + extent (g # gs)" by (simp add: g)
  have fr: "m' x = m x" if "unat x < unat h \<or> unat h + extent ((l, False) # (g # gs) @ ys) \<le> unat x \<or>
        live (unat h) ((l, False) # (g # gs) @ ys) (unat x)" for x
  proof -
    have "m' x = ?m x" using that by (intro m'(4)) (auto simp: g add.assoc)
    also have "\<dots> = m x" using that by (intro st(4)) (auto simp: g)
    finally show ?thesis .
  qed
  show ?case using m'(1-3) fr unfolding step e by blast
qed

section \<open>free\<close>

definition clear_used :: "u64 \<Rightarrow> 64 mem \<Rightarrow> 64 mem" where
  "clear_used h m = set_flags h (h_flags m h AND NOT HF_ALLOC) m"

lemma clear_used_frame:
  assumes "fits a (xs @ (n, u) # ys)" and "\<not> (unat (pos a xs) \<le> unat x \<and> unat x < unat (pos a xs) + 32)"
  shows "clear_used (pos a xs) m x = m x"
  using assms(2) in_span [OF fits_pos [OF assms(1)], of 32 x] unfolding clear_used_def
  by (intro store_frame) simp

lemma clear_used_chain:
  assumes c: "hchain m a (xs @ (n, True) # ys)" and f: "fits a (xs @ (n, True) # ys)"
  defines "m1 \<equiv> clear_used (pos a xs) m"
  shows "hchain m1 a (xs @ (n, False) # ys)" and "hpre m1 a xs" and "hprev m1 p a xs = hprev m p a xs"
    and "h_prev m1 (pos a xs) = h_prev m (pos a xs)"
    and "hprev m1 q (next_hdr (pos a xs) n) ys = hprev m q (next_hdr (pos a xs) n) ys"
proof -
  note fr = clear_used_frame [OF f, of _ m, folded m1_def]
  have up: "unat (pos a xs) = unat a + extent xs" using f by (rule unat_pos)
  have fp: "fits (pos a xs) ((n, True) # ys)" using f by (rule fits_pos)
  have un: "unat (next_hdr (pos a xs) n) = unat (pos a xs) + 32 + n" using fp by (rule unat_next_hdr)
  show 1: "hpre m1 a xs"
    using c hpre_cong [OF f, of m1 m] fr up by (simp add: hchain_append)
  show "hprev m1 p a xs = hprev m p a xs" using hprev_cong [OF f, of m1 m] fr up by simp
  show "h_prev m1 (pos a xs) = h_prev m (pos a xs)" by (simp add: m1_def clear_used_def fields)
  show "hprev m1 q (next_hdr (pos a xs) n) ys = hprev m q (next_hdr (pos a xs) n) ys"
    using un fits_tail [OF fp] by (intro hprev_cong [where ys = "[]"] fr) simp_all
  have "hchain m1 (next_hdr (pos a xs) n) ys = hchain m (next_hdr (pos a xs) n) ys"
    using un by (intro hchain_cong [OF fits_tail [OF fp]] fr) simp_all
  then show "hchain m1 a (xs @ (n, False) # ys)"
    using c 1 by (simp add: hchain_append m1_def clear_used_def fields)
qed

lemma dropWhile_run:
  "\<forall>b\<in>set fs. free_block b \<Longrightarrow> xs = [] \<or> snd (last xs) \<Longrightarrow> rev (dropWhile free_block (rev (xs @ fs))) = xs"
proof -
  assume a: "\<forall>b\<in>set fs. free_block b" "xs = [] \<or> snd (last xs)"
  have "dropWhile free_block (rev fs @ rev xs) = dropWhile free_block (rev xs)"
    using a(1) by (intro dropWhile_append2) auto
  moreover have "dropWhile free_block (rev xs) = rev xs" using a(2) by (cases xs rule: rev_cases) auto
  ultimately show ?thesis by simp
qed

lemma heap_free_run:
  assumes c: "hchain m a (xs @ (n, True) # ys)" and f: "fits a (xs @ (n, True) # ys)"
    and pv: "hprev m 0 a xs" "h_prev m (pos a xs) = last_hdr 0 a xs"
    and xs: "xs = xs0 @ fs" and ys: "ys = gs @ ys0" and run: "fs @ (n, False) # gs = (l, False) # G"
    and fr: "\<forall>b\<in>set fs. free_block b" "\<forall>b\<in>set gs. free_block b"
    and bd: "xs0 = [] \<or> snd (last xs0)" "ys0 = [] \<or> snd (hd ys0)"
    and A: "case G of [] \<Rightarrow> hprev (clear_used (pos a xs) m) (pos a xs0) (next_hdr (pos a xs0) l) ys0
       | g # G' \<Rightarrow> hprev_tail (clear_used (pos a xs) m) (pos (pos a xs0) [(l, False), g]) (G' @ ys0)"
  shows "\<exists>m'. heap_free m (pos a xs + HEADER) = ret m' \<and> hchain m' a (xs0 @ (l + extent G, False) # ys0) \<and>
     hprev m' 0 a (xs0 @ (l + extent G, False) # ys0) \<and>
     (\<forall>x. unat x < unat a \<or> unat a + extent (xs @ (n, True) # ys) \<le> unat x \<or>
        live (unat a) (xs @ (n, False) # ys) (unat x) \<longrightarrow> m' x = m x)"
proof -
  let ?m1 = "clear_used (pos a xs) m" and ?h = "pos a xs0"
  note c1 = clear_used_chain [OF c f]
  have list: "xs @ (n, False) # ys = xs0 @ (l, False) # G @ ys0" using xs ys run by simp
  have f1: "fits a (xs0 @ (l, False) # G @ ys0)" using f by (simp add: fits_def list [symmetric])
  have uh: "unat ?h = unat a + extent xs0" using f1 by (rule unat_pos)
  have ext: "extent (xs @ (n, True) # ys) = extent xs0 + extent ((l, False) # G @ ys0)"
    using arg_cong [OF list, of extent] by simp
  have fh: "fits ?h ((l, False) # G @ ys0)" using f1 by (rule fits_pos)
  have ch: "hpre ?m1 a xs0" "hchain ?m1 ?h ((l, False) # G @ ys0)"
    using c1(1) by (simp_all add: list hchain_append)
  have bk: "free_back_loop ?m1 (pos a xs) = ret ?h"
    using free_back_loop_pos [OF c1(2) f] c1(3,4) pv dropWhile_run [OF fr(1) bd(1)] xs by simp
  have hp: "h_prev ?m1 ?h = last_hdr 0 a xs0" "hprev ?m1 0 a xs0"
    using c1(3) [of 0] c1(4) pv xs by (cases fs; auto simp: hprev_append)+
  have "\<forall>g\<in>set ((l, False) # G). free_block g" unfolding run [symmetric] using fr by (simp add: ball_Un)
  then have G: "\<forall>g\<in>set G. free_block g" by simp
  from free_merge_loop_run [OF ch(2) fh G bd(2) hp(1) A]
  obtain m' where m': "free_merge_loop ?m1 ?h = ret m'" "hchain m' ?h ((l + extent G, False) # ys0)"
    "hprev m' (last_hdr 0 a xs0) ?h ((l + extent G, False) # ys0)"
    "\<And>x. unat x < unat ?h \<or> unat ?h + extent ((l, False) # G @ ys0) \<le> unat x \<or>
        live (unat ?h) ((l, False) # G @ ys0) (unat x) \<Longrightarrow> m' x = ?m1 x"
    by blast
  have fl: "h_flags m (pos a xs) = flags_of True" using c by (simp add: hchain_append)
  have "heap_free m (pos a xs + HEADER) = ret m'"
    using has_magic_flags [OF fl] bk m'(1) by (simp add: heap_free_def Let_def clear_used_def [symmetric])
  moreover have "hpre m' a xs0 = hpre ?m1 a xs0" "hprev m' 0 a xs0 = hprev ?m1 0 a xs0"
    using uh by (intro hpre_cong [OF f1] hprev_cong [OF f1] m'(4); simp)+
  then have "hchain m' a (xs0 @ (l + extent G, False) # ys0)" "hprev m' 0 a (xs0 @ (l + extent G, False) # ys0)"
    using m'(2,3) ch(1) hp(2) by (simp_all add: hchain_append hprev_append)
  moreover have "m' x = m x" if x: "unat x < unat a \<or> unat a + extent (xs @ (n, True) # ys) \<le> unat x \<or>
        live (unat a) (xs @ (n, False) # ys) (unat x)" for x
  proof -
    have "m' x = ?m1 x"
      using x live_bounds [of "unat a" xs0 "unat x"] ext
      by (intro m'(4)) (auto simp: uh list live_append simp del: live.simps extent.simps)
    also have "\<dots> = m x"
      using x live_bounds [of "unat a" xs "unat x"] live_bounds [of "unat a + extent xs + 32 + n" ys "unat x"]
        unat_pos [OF f]
      by (intro clear_used_frame [OF f]) (auto simp: live_append add.assoc)
    finally show ?thesis .
  qed
  ultimately show ?thesis by blast
qed

section \<open>The state alloc leaves\<close>

lemma alloc_loop_shape:
  assumes "hchain m a bs" and "fits a bs" and "bs \<noteq> []" and "unat sz + 32 < 2 ^ 64"
    and "heap_alloc_loop m a sz = ret (Some q, m')"
  shows "\<exists>xs N ys. bs = xs @ (N, False) # ys \<and> q = pos a xs + HEADER \<and>
    (unat sz + 32 < N \<and> m' = split_block (pos a xs) sz m \<or> N = unat sz \<and> m' = mark_used (pos a xs) m)"
  using assms
proof (induction m a bs rule: hchain.induct)
  case (2 m a n u bs)
  have fl: "h_flags m a = flags_of u" "h_length m a = of_nat n" using "2.prems"(1) by simp_all
  have mg: "has_magic m a" "is_used m a \<longleftrightarrow> u" using has_magic_flags [OF fl(1)] by simp_all
  have szw: "unat (sz + 32) = unat sz + 32" using "2.prems"(4) by (subst unat_add_small) simp_all
  have gt: "h_length m a > sz + HEADER \<longleftrightarrow> unat sz + 32 < n" "h_length m a = sz \<longleftrightarrow> n = unat sz"
    using fits_length [OF "2.prems"(2)] szw by (auto simp: fl HEADER_def word_less_nat_alt word_unat_eq_iff)
  have step: "heap_alloc_loop m a sz = (if u then heap_alloc_loop m (h_next m a) sz
      else if unat sz + 32 < n then ret (Some (a + HEADER), split_block a sz m)
      else if n = unat sz then ret (Some (a + HEADER), mark_used a m)
      else heap_alloc_loop m (h_next m a) sz)"
    using mg gt fits_nonzero [OF "2.prems"(2)] by (simp add: heap_alloc_loop.simps [of m a] opt_some_def)
  show ?case
  proof (cases "\<not> u \<and> (unat sz + 32 < n \<or> n = unat sz)")
    case True
    then show ?thesis using "2.prems"(5) unfolding step by (intro exI [of _ "[]"]) (auto split: if_splits)
  next
    case False
    have nx: "heap_alloc_loop m (h_next m a) sz = ret (Some q, m')"
      using False "2.prems"(5) unfolding step by (auto split: if_splits)
    have ne: "bs \<noteq> []"
    proof
      assume "bs = []"
      then have "h_next m a = 0" using "2.prems"(1) by simp
      then show False using nx by (simp add: heap_alloc_loop.simps [of m 0] opt_none_def)
    qed
    then have "\<exists>xs N ys. bs = xs @ (N, False) # ys \<and> q = pos (next_hdr a n) xs + HEADER \<and>
      (unat sz + 32 < N \<and> m' = split_block (pos (next_hdr a n) xs) sz m \<or>
       N = unat sz \<and> m' = mark_used (pos (next_hdr a n) xs) m)"
      using "2.prems" nx by (intro "2.IH" fits_tail) simp_all
    then obtain xs N ys where "bs = xs @ (N, False) # ys" "q = pos (next_hdr a n) xs + HEADER"
      "unat sz + 32 < N \<and> m' = split_block (pos (next_hdr a n) xs) sz m \<or>
       N = unat sz \<and> m' = mark_used (pos (next_hdr a n) xs) m" by blast
    then show ?thesis by (intro exI [of _ "(n, u) # xs"]) auto
  qed
qed simp

lemma hprev_tail_cong:
  assumes "fits a bs" and "\<And>x. unat a \<le> unat x \<Longrightarrow> unat x < unat a + extent bs \<Longrightarrow> m' x = m x"
  shows "hprev_tail m' a bs = hprev_tail m a bs"
proof (cases bs)
  case (Cons b ds)
  obtain n u where b: "b = (n, u)" by (cases b)
  have f: "fits a ((n, u) # ds)" using assms(1) Cons b by simp
  show ?thesis using Cons b unat_next_hdr [OF f] fits_tail [OF f] assms(2)
    by (simp, intro hprev_cong [where ys = "[]"]) simp_all
qed simp

lemma split_block_prev:
  assumes c: "hchain m a ((n, u) # bs)" and f: "fits a ((n, u) # bs)" and s: "unat sz + 32 \<le> n"
  shows "h_prev (split_block a sz m) a = h_prev m a"
    and "hprev_tail (split_block a sz m) (next_hdr a n) bs = hprev_tail m (next_hdr a n) bs"
    and "\<not> (unat a \<le> unat x \<and> unat x < unat a + 32 + n) \<Longrightarrow> split_block a sz m x = m x"
proof -
  define b where "b = next_hdr a (unat sz)"
  have f1: "fits a ((unat sz, True) # (n - unat sz - 32, False) # bs)" using f s by (simp add: fits_def)
  have ub: "unat b = unat a + 32 + unat sz" unfolding b_def using f1 by (rule unat_next_hdr)
  have fb: "fits b ((n - unat sz - 32, False) # bs)" unfolding b_def using f1 by (rule fits_tail)
  have ap: "apart a b" "apart b a" using apart_nat [of a b] ub fb by (simp_all add: fits_def)
  show "h_prev (split_block a sz m) a = h_prev m a"
    using ap by (simp add: split_block_def Let_def mark_used_def fields b_def next_hdr_def)
  note fr = split_block_chain(2) [OF c f s]
  show "\<not> (unat a \<le> unat x \<and> unat x < unat a + 32 + n) \<Longrightarrow> split_block a sz m x = m x"
    using s by (intro fr) auto
  show "hprev_tail (split_block a sz m) (next_hdr a n) bs = hprev_tail m (next_hdr a n) bs"
    using s unat_next_hdr [OF f] by (intro hprev_tail_cong [OF fits_tail [OF f]] fr) simp_all
qed

text \<open>
  What \<open>free\<close> of the new block needs of the links: those before it, and those behind the block
  that follows.  The link of the block behind a cut-off rest is stale and not among them.
\<close>

lemma alloc_taken_whole:
  assumes c: "hchain m a (xs @ (N, False) # ys)" and f: "fits a (xs @ (N, False) # ys)"
    and p: "hprev m 0 a (xs @ (N, False) # ys)"
  defines "m1 \<equiv> mark_used (pos a xs) m"
  shows "hchain m1 a (xs @ (N, True) # ys)" and "fits a (xs @ (N, True) # ys)" and "hprev m1 0 a xs"
    and "h_prev m1 (pos a xs) = last_hdr 0 a xs"
    and "hprev (clear_used (pos a xs) m1) (pos a xs) (next_hdr (pos a xs) N) ys"
proof -
  have up: "unat (pos a xs) = unat a + extent xs" using f by (rule unat_pos)
  have fp: "fits (pos a xs) ((N, False) # ys)" using f by (rule fits_pos)
  have cp: "hpre m a xs" "hchain m (pos a xs) ((N, False) # ys)" using c by (simp_all add: hchain_append)
  note mu = mark_used_block [OF cp(2) fp, folded m1_def]
  show f1: "fits a (xs @ (N, True) # ys)" using f by (simp add: fits_def)
  have "hpre m1 a xs" "hprev m1 0 a xs = hprev m 0 a xs"
    using cp(1) hpre_cong [OF f, of m1 m] hprev_cong [OF f, of m1 m] mu(2) up by simp_all
  then show c1: "hchain m1 a (xs @ (N, True) # ys)" and p1: "hprev m1 0 a xs"
    using mu(1) p by (simp_all add: hchain_append hprev_append)
  show "h_prev m1 (pos a xs) = last_hdr 0 a xs"
    using p by (simp add: hprev_append m1_def mark_used_def fields)
  have "hprev m1 q (next_hdr (pos a xs) N) ys = hprev m q (next_hdr (pos a xs) N) ys" for q
    using unat_next_hdr [OF fp] fits_tail [OF fp] by (intro hprev_cong [where ys = "[]"] mu(2)) simp_all
  then show "hprev (clear_used (pos a xs) m1) (pos a xs) (next_hdr (pos a xs) N) ys"
    using p clear_used_chain(5) [OF c1 f1] by (simp add: hprev_append)
qed

lemma alloc_taken_split:
  assumes c: "hchain m a (xs @ (N, False) # ys)" and f: "fits a (xs @ (N, False) # ys)"
    and p: "hprev m 0 a (xs @ (N, False) # ys)" and s: "unat sz + 32 < N"
  defines "m1 \<equiv> split_block (pos a xs) sz m" and "S \<equiv> unat sz"
  shows "hchain m1 a (xs @ (S, True) # (N - S - 32, False) # ys)"
    and "fits a (xs @ (S, True) # (N - S - 32, False) # ys)" and "hprev m1 0 a xs"
    and "h_prev m1 (pos a xs) = last_hdr 0 a xs"
    and "hprev_tail (clear_used (pos a xs) m1) (pos (pos a xs) [(S, False), (N - S - 32, False)]) ys"
proof -
  let ?c = "pos a xs"
  have up: "unat ?c = unat a + extent xs" using f by (rule unat_pos)
  have fp: "fits ?c ((N, False) # ys)" using f by (rule fits_pos)
  have cp: "hpre m a xs" "hchain m ?c ((N, False) # ys)" using c by (simp_all add: hchain_append)
  have s': "unat sz + 32 \<le> N" using s by simp
  note sp = split_block_chain(1) [OF cp(2) fp s', folded m1_def S_def]
    and pv = split_block_prev [OF cp(2) fp s', folded m1_def]
  show f1: "fits a (xs @ (S, True) # (N - S - 32, False) # ys)" using f s by (simp add: fits_def S_def)
  have "hpre m1 a xs" "hprev m1 0 a xs = hprev m 0 a xs"
    using cp(1) hpre_cong [OF f, of m1 m] hprev_cong [OF f, of m1 m] pv(3) up by simp_all
  then show c1: "hchain m1 a (xs @ (S, True) # (N - S - 32, False) # ys)" and p1: "hprev m1 0 a xs"
    using sp p by (simp_all add: hchain_append hprev_append)
  show "h_prev m1 ?c = last_hdr 0 a xs" using p pv(1) by (simp add: hprev_append)
  have f2: "fits ?c ((S, True) # (N - S - 32, False) # ys)" using f1 by (rule fits_pos)
  have f3: "fits (next_hdr ?c S) ((N - S - 32, False) # ys)" using f2 by (rule fits_tail)
  have e: "next_hdr (next_hdr ?c S) (N - S - 32) = next_hdr ?c N"
    using unat_next_hdr [OF f2] unat_next_hdr [OF f3] unat_next_hdr [OF fp] s
    by (simp add: word_unat_eq_iff S_def)
  have "hprev_tail m1 (next_hdr ?c N) ys" using p pv(2) by (auto simp: hprev_append intro: hprev_imp_tail)
  moreover have "hprev_tail (clear_used ?c m1) (next_hdr ?c N) ys = hprev_tail m1 (next_hdr ?c N) ys"
    using unat_next_hdr [OF fp] by (intro hprev_tail_cong [OF fits_tail [OF fp]] clear_used_frame [OF f]) simp_all
  ultimately show "hprev_tail (clear_used ?c m1) (pos ?c [(S, False), (N - S - 32, False)]) ys"
    using e by simp
qed

end
