(* ===== verification/HeapProps.thy ===== *)
theory HeapProps
  imports HeapFree
begin

text \<open>
  The properties of the kernel heap: \<open>reset\<close> sets up one free block, \<open>alloc\<close> is first fit and
  keeps the bytes of all live blocks, \<open>free\<close> coalesces and undoes \<open>alloc\<close>, misuse is refused.
  What goes wrong is in theory HeapFaults.
\<close>

unbundle bit_operations_syntax

definition heap_blocks :: "heap \<Rightarrow> 64 mem \<Rightarrow> blocks \<Rightarrow> bool" where
  "heap_blocks hp m bs \<longleftrightarrow> bs \<noteq> [] \<and> fits (m_base hp) bs \<and> hchain m (m_base hp) bs"

definition heap_linked :: "heap \<Rightarrow> 64 mem \<Rightarrow> blocks \<Rightarrow> bool" where
  "heap_linked hp m bs \<longleftrightarrow> heap_blocks hp m bs \<and> hprev m 0 (m_base hp) bs"

section \<open>Construction and destruction\<close>

lemma place_root_blocks:
  assumes "0 < unat base" and "32 \<le> unat sz" and "unat base + unat sz < 2 ^ 64"
  shows "heap_linked \<lparr>m_base = base, m_size = sz\<rparr> (place_root base sz m) [(unat sz - 32, False)]"
proof -
  have "sz - HEADER = of_nat (unat sz - 32)" using assms(2) by (simp add: HEADER_def of_nat_diff)
  then show ?thesis using assms
    by (simp add: heap_linked_def heap_blocks_def fits_def place_root_def fields)
qed

lemma heap_check_loop_chain:
  "hchain m a bs \<Longrightarrow> fits a bs \<Longrightarrow> bs \<noteq> [] \<Longrightarrow>
   heap_check_loop m a = (if \<exists>b\<in>set bs. snd b then halt (Panic ''Tried to destroy heap with living objects'') else ret ())"
proof (induction m a bs rule: hchain.induct)
  case (2 m a n u bs)
  have mg: "has_magic m a" "is_used m a \<longleftrightarrow> u" using "2.prems"(1) has_magic_flags [of m a u] by simp_all
  have step: "heap_check_loop m a = (if u then halt (Panic ''Tried to destroy heap with living objects'')
      else heap_check_loop m (h_next m a))"
    using mg fits_nonzero [OF "2.prems"(2)] by (simp add: heap_check_loop.simps [of m a])
  show ?case
  proof (cases "bs = []")
    case True
    then show ?thesis using "2.prems"(1) by (simp add: step heap_check_loop.simps [of m 0])
  next
    case False
    then show ?thesis using "2.IH" "2.prems"(1) fits_tail [OF "2.prems"(2)] by (simp add: step)
  qed
qed simp

text \<open>
  The destructor of a heap inspects every block: it returns exactly when no block is in use
  and halts with its message otherwise; \<open>reset\<close> makes the same check first, and then the heap
  is one free block that covers the new region, with correct links.
\<close>

lemma heap_reset_destroy:
  assumes "heap_blocks hp m bs" and "m_size hp \<noteq> 0"
    and "0 < unat base" and "32 \<le> unat sz" and "unat base + unat sz < 2 ^ 64"
  shows "if \<exists>b\<in>set bs. snd b
     then heap_destroy hp m = halt (Panic ''Tried to destroy heap with living objects'') \<and>
       heap_reset hp m base sz = halt (Panic ''Tried to destroy heap with living objects'')
     else heap_destroy hp m = ret () \<and>
       (\<exists>hp' m'. heap_reset hp m base sz = ret (hp', m') \<and> heap_valid hp' \<and> heap_linked hp' m' [(unat sz - 32, False)])"
proof -
  have c: "heap_check_loop m (m_base hp) =
      (if \<exists>b\<in>set bs. snd b then halt (Panic ''Tried to destroy heap with living objects'') else ret ())"
    using assms(1) by (intro heap_check_loop_chain) (simp_all add: heap_blocks_def)
  have new: "hp\<lparr>m_base := base, m_size := sz\<rparr> = \<lparr>m_base = base, m_size = sz\<rparr>" by (cases hp) simp
  have "sz \<noteq> 0" "base \<noteq> 0" using assms(3,4) by auto
  then show ?thesis using c assms(2) place_root_blocks [OF assms(3-5), of m]
    by (simp add: heap_destroy_def heap_reset_def rootHeader_def Let_def heap_valid_def new)
qed

definition small_heap :: "heap \<times> 64 mem" where
  "small_heap = heap_new 0x80000000 0x400 (\<lambda>_. 0)"

lemma small_heap_linked: "heap_linked (fst small_heap) (snd small_heap) [(992, False)]"
  using place_root_blocks [of "0x80000000" "0x400" "\<lambda>_. 0"]
  by (simp add: small_heap_def heap_new_def Let_def rootHeader_def)

lemma small_heap_base: "m_base (fst small_heap) = 0x80000000" "m_size (fst small_heap) = 0x400"
  by (simp_all add: small_heap_def heap_new_def Let_def)

section \<open>alloc\<close>

text \<open>
  C6. \<open>Heap::alloc\<close> refines a first-fit search of the block list: it returns, with \<open>none\<close> and
  the heap unchanged when no free block has the size or room for the size and a header, and
  otherwise with the bytes after the first such header, cut to the size asked for.  The block
  returned overlaps no live block and lies in the heap, and no byte of a live block or outside
  the heap changes.
\<close>

theorem heap_alloc_refines:
  assumes "heap_blocks hp m bs" and "unat sz + 32 < 2 ^ 64"
  shows "case first_fit (unat (m_base hp)) (unat sz) bs of
       None \<Rightarrow> heap_alloc hp m sz = ret (None, m)
     | Some (p, bs') \<Rightarrow> \<exists>m'. heap_alloc hp m sz = ret (Some (of_nat p), m') \<and> heap_blocks hp m' bs' \<and>
         unat (m_base hp) < p \<and> p + unat sz \<le> unat (m_base hp) + extent bs \<and>
         (\<forall>x. live (unat (m_base hp)) bs' x \<longleftrightarrow> live (unat (m_base hp)) bs x \<or> p \<le> x \<and> x < p + unat sz) \<and>
         (\<forall>x. live (unat (m_base hp)) bs x \<longrightarrow> \<not> (p \<le> x \<and> x < p + unat sz)) \<and>
         (\<forall>x. \<not> (unat (m_base hp) \<le> unat x \<and> unat x < unat (m_base hp) + extent bs) \<or>
            live (unat (m_base hp)) bs (unat x) \<longrightarrow> m' x = m x)"
proof -
  have h: "hchain m (m_base hp) bs" "fits (m_base hp) bs" "bs \<noteq> []"
    using assms(1) by (simp_all add: heap_blocks_def)
  note r = heap_alloc_loop_first_fit [OF h assms(2)]
  show ?thesis
  proof (cases "first_fit (unat (m_base hp)) (unat sz) bs")
    case None
    then show ?thesis using r by (simp add: heap_alloc_def rootHeader_def)
  next
    case (Some q)
    obtain p bs' where q: "q = (p, bs')" by (cases q)
    note sh = first_fit_shape [OF Some [unfolded q]]
    have "fits (m_base hp) bs'" using h(2) sh by (simp add: fits_def)
    then show ?thesis using r sh Some q
      by (auto simp: heap_alloc_def rootHeader_def heap_blocks_def)
  qed
qed

theorem heap_alloc_refines_witness:
  "\<exists>m'. heap_alloc (fst small_heap) (snd small_heap) 100 = ret (Some 0x80000020, m') \<and>
     heap_blocks (fst small_heap) m' [(100, True), (860, False)]"
  using heap_alloc_refines [of "fst small_heap" "snd small_heap" "[(992, False)]" 100] small_heap_linked
  by (auto simp: heap_linked_def small_heap_base)

section \<open>free\<close>

text \<open>The block list after a block in the middle has been freed.\<close>

definition coalesce :: "blocks \<Rightarrow> nat \<Rightarrow> blocks \<Rightarrow> blocks" where
  "coalesce xs n ys =
     (let xs0 = rev (dropWhile free_block (rev xs)); fs = rev (takeWhile free_block (rev xs));
          gs = takeWhile free_block ys; ys0 = dropWhile free_block ys in
      xs0 @ (extent (fs @ (n, False) # gs) - 32, False) # ys0)"

lemma hprev_run_tail:
  assumes "hprev m p a (xs0 @ (l, u) # G @ ys0)"
  shows "case G of [] \<Rightarrow> hprev m (pos a xs0) (next_hdr (pos a xs0) l) ys0
       | g # G' \<Rightarrow> hprev_tail m (pos (pos a xs0) [(l, False), g]) (G' @ ys0)"
proof (cases G)
  case Nil
  then show ?thesis using assms by (simp add: hprev_append)
next
  case (Cons g G')
  obtain k v where "g = (k, v)" by (cases g)
  then show ?thesis using Cons assms by (auto simp: hprev_append intro: hprev_imp_tail)
qed

lemma takeWhile_run:
  "xs = rev (dropWhile P (rev xs)) @ rev (takeWhile P (rev xs))"
  by (metis rev_append rev_rev_ident takeWhile_dropWhile_id)

lemma dropWhile_boundary:
  "dropWhile free_block ys = [] \<or> snd (hd (dropWhile free_block ys))"
  "rev (dropWhile free_block ys) = [] \<or> snd (last (rev (dropWhile free_block ys)))"
  using hd_dropWhile [of free_block ys] by (auto simp: last_rev)

lemma heap_free_coalesced:
  assumes "heap_linked hp m (xs @ (n, True) # ys)" and "p = pos (m_base hp) xs + HEADER"
  shows "\<exists>m'. heap_free m p = ret m' \<and> heap_linked hp m' (coalesce xs n ys) \<and>
     (\<forall>x. unat x < unat (m_base hp) \<or> unat (m_base hp) + extent (xs @ (n, True) # ys) \<le> unat x \<or>
        live (unat (m_base hp)) (xs @ (n, False) # ys) (unat x) \<longrightarrow> m' x = m x)"
proof -
  let ?a = "m_base hp"
  define xs0 fs gs ys0 where "xs0 = rev (dropWhile free_block (rev xs))"
    and "fs = rev (takeWhile free_block (rev xs))"
    and "gs = takeWhile free_block ys" and "ys0 = dropWhile free_block ys"
  have h: "hchain m ?a (xs @ (n, True) # ys)" "fits ?a (xs @ (n, True) # ys)" "hprev m 0 ?a (xs @ (n, True) # ys)"
    using assms(1) by (simp_all add: heap_linked_def heap_blocks_def)
  have xy: "xs = xs0 @ fs" "ys = gs @ ys0"
    by (simp_all add: xs0_def fs_def gs_def ys0_def takeWhile_run [symmetric])
  have fr: "\<forall>b\<in>set fs. free_block b" "\<forall>b\<in>set gs. free_block b"
    unfolding fs_def gs_def by (auto dest: set_takeWhileD)
  have bd: "xs0 = [] \<or> snd (last xs0)" "ys0 = [] \<or> snd (hd ys0)"
    unfolding xs0_def ys0_def by (rule dropWhile_boundary)+
  obtain l G where run: "fs @ (n, False) # gs = (l, False) # G"
    using fr by (cases fs) auto
  have pv: "hprev m 0 ?a xs" "h_prev m (pos ?a xs) = last_hdr 0 ?a xs" using h(3) by (simp_all add: hprev_append)
  note c1 = clear_used_chain [OF h(1,2)]
  have "hprev (clear_used (pos ?a xs) m) 0 ?a (xs @ (n, False) # ys)"
    using h(3) c1(3-5) by (simp add: hprev_append)
  moreover have list: "xs @ (n, False) # ys = xs0 @ (l, False) # G @ ys0" using xy run by simp
  ultimately have A: "case G of [] \<Rightarrow> hprev (clear_used (pos ?a xs) m) (pos ?a xs0) (next_hdr (pos ?a xs0) l) ys0
       | g # G' \<Rightarrow> hprev_tail (clear_used (pos ?a xs) m) (pos (pos ?a xs0) [(l, False), g]) (G' @ ys0)"
    by (simp only: hprev_run_tail)
  have len: "coalesce xs n ys = xs0 @ (l + extent G, False) # ys0"
    using run by (simp add: coalesce_def Let_def xs0_def [symmetric] fs_def [symmetric] gs_def [symmetric] ys0_def [symmetric]
        del: extent_append)
  have "extent (coalesce xs n ys) = extent (xs @ (n, True) # ys)"
    unfolding len using arg_cong [OF list, of extent] by simp
  then have "fits ?a (coalesce xs n ys)" using h(2) by (simp add: fits_def)
  then show ?thesis
    using heap_free_run [OF h(1,2) pv xy run fr bd A] assms(2)
    by (auto simp: heap_linked_def heap_blocks_def len)
qed

text \<open>
  C11. In a heap with correct links \<open>Heap::free\<close> of a block in use returns, marks the block free
  and merges it with all free blocks directly before and behind it; the links are correct
  again, and no byte of another live block or outside the heap changes.
\<close>

theorem heap_free_coalesces:
  assumes "heap_linked hp m (xs @ (n, True) # ys)" and "p = pos (m_base hp) xs + HEADER"
  shows "\<exists>m'. heap_free m p = ret m' \<and> heap_linked hp m' (coalesce xs n ys) \<and>
     (\<forall>x. unat x < unat (m_base hp) \<or> unat (m_base hp) + extent (xs @ (n, True) # ys) \<le> unat x \<or>
        live (unat (m_base hp)) (xs @ (n, False) # ys) (unat x) \<longrightarrow> m' x = m x)"
  using assms by (rule heap_free_coalesced)

lemma small_heap_alloc:
  obtains m1 where "heap_alloc (fst small_heap) (snd small_heap) 100 = ret (Some 0x80000020, m1)"
    "heap_linked (fst small_heap) m1 [(100, True), (860, False)]"
proof -
  let ?a = "0x80000000 :: u64" and ?m = "snd small_heap"
  have l: "hchain ?m ?a ([] @ (992, False) # [])" "fits ?a ([] @ (992, False) # [])"
    "hprev ?m 0 ?a ([] @ (992, False) # [])"
    using small_heap_linked by (simp_all add: heap_linked_def heap_blocks_def small_heap_base)
  have s: "unat (100 :: u64) + 32 < 992" by simp
  note t = alloc_taken_split [OF l s]
  have b: "h_prev (split_block ?a 100 ?m) (next_hdr ?a 100) = ?a"
  proof -
    have ap: "apart ?a (next_hdr ?a 100)" "apart (next_hdr ?a 100) ?a"
      using apart_nat [of ?a "next_hdr ?a 100"] by (simp_all add: next_hdr_def HEADER_def)
    then show ?thesis
      by (simp add: split_block_def Let_def mark_used_def fields next_hdr_def)
  qed
  have "heap_linked (fst small_heap) (split_block ?a 100 ?m) [(100, True), (860, False)]"
    using t(1,2,4) b by (simp add: heap_linked_def heap_blocks_def small_heap_base)
  moreover have "heap_alloc (fst small_heap) ?m 100 = ret (Some 0x80000020, split_block ?a 100 ?m)"
  proof -
    have "h_flags ?m ?a = flags_of False" "h_length ?m ?a = 992" using l(1) by simp_all
    then show ?thesis
      using has_magic_flags [of ?m ?a False]
      by (simp add: heap_alloc_def rootHeader_def small_heap_base heap_alloc_loop.simps [of ?m ?a] HEADER_def opt_some_def)
  qed
  ultimately show ?thesis using that by blast
qed

theorem heap_free_coalesces_witness:
  "\<exists>m1 m2. heap_alloc (fst small_heap) (snd small_heap) 100 = ret (Some 0x80000020, m1) \<and>
     heap_free m1 0x80000020 = ret m2"
proof -
  obtain m1 where m1: "heap_alloc (fst small_heap) (snd small_heap) 100 = ret (Some 0x80000020, m1)"
    "heap_linked (fst small_heap) m1 ([] @ (100, True) # [(860, False)])"
    using small_heap_alloc by auto
  then show ?thesis using heap_free_coalesces [OF m1(2), of "0x80000020"]
    by (auto simp: small_heap_base HEADER_def)
qed

section \<open>Round trips\<close>

fun coalesced :: "blocks \<Rightarrow> bool" where
  "coalesced ((n, u) # (k, v) # bs) \<longleftrightarrow> (u \<or> v) \<and> coalesced ((k, v) # bs)"
| "coalesced bs \<longleftrightarrow> True"

lemma coalesced_around:
  "coalesced (xs @ (N, False) # ys) \<Longrightarrow> (xs = [] \<or> snd (last xs)) \<and> (ys = [] \<or> snd (hd ys))"
proof (induction xs)
  case Nil
  then show ?case by (cases ys) auto
next
  case (Cons b xs)
  then show ?case by (cases b; cases xs; cases ys) auto
qed

text \<open>
  C29. \<open>alloc\<close> followed by \<open>free\<close> of the block it returned restores the heap: in a heap with
  correct links and no two free neighbours, the same blocks, with correct links again.
\<close>

theorem heap_alloc_free_roundtrip:
  assumes "heap_linked hp m bs" and "coalesced bs" and "unat sz + 32 < 2 ^ 64"
    and "heap_alloc hp m sz = ret (Some p, m1)"
  shows "\<exists>m2. heap_free m1 p = ret m2 \<and> heap_linked hp m2 bs"
proof -
  let ?a = "m_base hp"
  have h: "hchain m ?a bs" "fits ?a bs" "bs \<noteq> []" "hprev m 0 ?a bs"
    using assms(1) by (simp_all add: heap_linked_def heap_blocks_def)
  obtain xs N ys where b: "bs = xs @ (N, False) # ys" "p = pos ?a xs + HEADER"
    "unat sz + 32 < N \<and> m1 = split_block (pos ?a xs) sz m \<or> N = unat sz \<and> m1 = mark_used (pos ?a xs) m"
    using alloc_loop_shape [OF h(1-3) assms(3)] assms(4) by (auto simp: heap_alloc_def rootHeader_def)
  have bd: "xs = [] \<or> snd (last xs)" "ys = [] \<or> snd (hd ys)"
    using coalesced_around assms(2) b(1) by blast+
  note hb = h(1,2,4) [unfolded b(1)]
  have "\<exists>m2. heap_free m1 p = ret m2 \<and> hchain m2 ?a bs \<and> hprev m2 0 ?a bs"
  proof (cases "N = unat sz")
    case True
    then have m1: "m1 = mark_used (pos ?a xs) m" using b(3) by auto
    note t = alloc_taken_whole [OF hb, folded m1]
    show ?thesis
      using heap_free_run [OF t(1-4), of xs "[]" "[]" ys N "[]"] t(5) bd b(1,2) by auto
  next
    case False
    then have m1: "m1 = split_block (pos ?a xs) sz m" and s: "unat sz + 32 < N" using b(3) by auto
    note t = alloc_taken_split [OF hb s, folded m1]
    have "unat sz + (32 + (N - unat sz - 32)) = N" using s by simp
    then show ?thesis
      using heap_free_run [OF t(1-4), of xs "[]" "[(N - unat sz - 32, False)]" ys "unat sz" "[(N - unat sz - 32, False)]"]
        t(5) bd b(1,2) by (auto simp: add.assoc)
  qed
  then show ?thesis using h(2,3) by (auto simp: heap_linked_def heap_blocks_def)
qed

theorem heap_alloc_free_roundtrip_witness:
  "\<exists>m1 m2. heap_alloc (fst small_heap) (snd small_heap) 100 = ret (Some 0x80000020, m1) \<and>
     heap_free m1 0x80000020 = ret m2 \<and> heap_linked (fst small_heap) m2 [(992, False)]"
proof -
  obtain m1 where "heap_alloc (fst small_heap) (snd small_heap) 100 = ret (Some 0x80000020, m1)"
    using small_heap_alloc by auto
  from heap_alloc_free_roundtrip [OF small_heap_linked _ _ this] this show ?thesis by auto
qed

section \<open>Misuse\<close>

text \<open>
  On a header of the heap \<open>free\<close> panics when the block is not in use, so a double free of a
  block that was not merged away is caught, and \<open>freeChecked\<close> accepts exactly the length the
  header records and then behaves as \<open>free\<close>.
\<close>

lemma heap_free_checks:
  assumes "heap_blocks hp m (xs @ (n, u) # ys)" and "p = pos (m_base hp) xs + HEADER"
  shows "(\<not> u \<longrightarrow> heap_free m p =
       halt (Panic ''Heap object double-free detected: tried to free non-allocated pointer'')) \<and>
     heap_freeChecked m p sz = (if unat sz = n then heap_free m p else halt (AssertFail ''sz == hdr->length''))"
proof -
  have c: "hchain m (pos (m_base hp) xs) ((n, u) # ys)" "fits (pos (m_base hp) xs) ((n, u) # ys)"
    using assms(1) fits_pos [of "m_base hp" xs "(n, u) # ys"] by (simp_all add: heap_blocks_def hchain_append)
  have fl: "h_flags m (pos (m_base hp) xs) = flags_of u" "h_length m (pos (m_base hp) xs) = of_nat n"
    using c(1) by simp_all
  have "sz = of_nat n \<longleftrightarrow> unat sz = n" using fits_length [OF c(2)] by auto
  then show ?thesis
    using has_magic_flags [OF fl(1)] fl(2) assms(2) by (simp add: heap_free_def heap_freeChecked_def Let_def)
qed

end
