(* ===== verification/HeapFaults.thy ===== *)
theory HeapFaults
  imports HeapProps
begin

text \<open>
  Where the heap fails, on concrete runs that are computed in the model: the link that a split
  leaves stale makes a correct program halt, a size close to \<open>2^64\<close> wraps, and \<open>allocAligned\<close>
  returns blocks that are too small or does not return.
\<close>

unbundle bit_operations_syntax

text \<open>The stores of a split and of a merge, in one term each.\<close>

lemma split_block_eq:
  "apart a (a + 32 + sz) \<Longrightarrow> split_block a sz m =
     set_length a sz (set_next a (a + 32 + sz) (set_length (a + 32 + sz) (h_length m a - sz - 32)
     (set_flags (a + 32 + sz) headerMagic (set_next (a + 32 + sz) (h_next m a) (set_prev (a + 32 + sz) a
     (set_flags a (h_flags m a OR HF_ALLOC) m))))))"
  using apart_sym [of a "a + 32 + sz"]
  by (simp add: split_block_def Let_def mark_used_def fields HEADER_def)

lemma merge_next_eq:
  "apart h n \<Longrightarrow> merge_next h n m =
     memset (if h_next m n = 0 then set_next h 0 (set_length h (h_length m h + (32 + h_length m n)) m)
       else set_prev (h_next m n) h (set_next h (h_next m n) (set_length h (h_length m h + (32 + h_length m n)) m))) n 0 32"
  by (simp add: merge_next_def Let_def fields HEADER_def)

lemma apart_num: "32 \<le> unat (b - a) \<Longrightarrow> 32 \<le> unat (a - b) \<Longrightarrow> apart a b"
  unfolding apart_def by (rule region_disjoint)

lemma alloc_step:
  "heap_alloc_loop m a sz =
     (if a = 0 then ret (None, m) else if h_flags m a AND headerMagic \<noteq> headerMagic then halt (Panic ''Heap is broken'')
      else if h_flags m a AND HF_ALLOC \<noteq> 0 then heap_alloc_loop m (h_next m a) sz
      else if h_length m a > sz + 32 then ret (Some (a + 32), split_block a sz m)
      else if h_length m a = sz then ret (Some (a + 32), set_flags a (h_flags m a OR HF_ALLOC) m)
      else heap_alloc_loop m (h_next m a) sz)"
  by (subst heap_alloc_loop.simps)
    (simp add: has_magic_def is_used_def mark_used_def opt_some_def opt_none_def HEADER_def)

lemma back_step:
  "free_back_loop m a =
     (if h_prev m a = 0 then ret a
      else if h_flags m (h_prev m a) AND headerMagic \<noteq> headerMagic then halt (AssertFail (magic_msg ''prev''))
      else if h_flags m (h_prev m a) AND HF_ALLOC \<noteq> 0 then ret a else free_back_loop m (h_prev m a))"
  by (subst free_back_loop.simps) (simp add: has_magic_def is_used_def Let_def)

lemma merge_loop_step:
  "free_merge_loop m a =
     (if h_next m a = 0 then ret m
      else if h_flags m (h_next m a) AND headerMagic \<noteq> headerMagic then halt (AssertFail (magic_msg ''next''))
      else if h_flags m (h_next m a) AND HF_ALLOC \<noteq> 0 then ret m
      else free_merge_loop (merge_next a (h_next m a) m) a)"
  by (subst free_merge_loop.simps) (simp add: has_magic_def is_used_def Let_def)

lemma free_step:
  "h_flags m (p - 32) AND headerMagic = headerMagic \<Longrightarrow> h_flags m (p - 32) AND HF_ALLOC \<noteq> 0 \<Longrightarrow>
   heap_free m p = bindR (free_back_loop (set_flags (p - 32) (h_flags m (p - 32) AND NOT HF_ALLOC) m) (p - 32))
     (free_merge_loop (set_flags (p - 32) (h_flags m (p - 32) AND NOT HF_ALLOC) m))"
  by (simp add: heap_free_def has_magic_def is_used_def Let_def HEADER_def)

text \<open>The headers of a heap by their fields: address, flags, length, prev, next.\<close>

definition hd_at :: "64 mem \<Rightarrow> u64 \<times> bool \<times> u64 \<times> u64 \<times> u64 \<Rightarrow> bool" where
  "hd_at m = (\<lambda>(h, u, l, p, n). h_flags m h = flags_of u \<and> h_length m h = l \<and> h_prev m h = p \<and> h_next m h = n)"

definition hds :: "64 mem \<Rightarrow> (u64 \<times> bool \<times> u64 \<times> u64 \<times> u64) list \<Rightarrow> bool" where
  "hds m hs \<longleftrightarrow> (\<forall>h\<in>set hs. hd_at m h)"

lemma memset_fields:
  "h_flags (memset m h 0 32) h = 0"
  "apart h h' \<Longrightarrow> h_flags (memset m h 0 32) h' = h_flags m h'"
  "apart h h' \<Longrightarrow> h_length (memset m h 0 32) h' = h_length m h'"
  "apart h h' \<Longrightarrow> h_prev (memset m h 0 32) h' = h_prev m h'"
  "apart h h' \<Longrightarrow> h_next (memset m h 0 32) h' = h_next m h'"
  using memset_header [of h h' m] by (simp_all add: HEADER_def h_flags_def ld64_memset_zero field_sub)

lemma magic_tests: "headerMagic AND HF_ALLOC = 0" "headerMagic \<noteq> 0" "0 \<noteq> headerMagic"
  by (simp_all add: headerMagic_def HF_ALLOC_def)

lemmas run_heap = magic_tests hds_def hd_at_def heap_alloc_def rootHeader_def alloc_step back_step merge_loop_step free_step
  split_block_eq merge_next_eq fields memset_fields apart_num

definition demo :: heap where "demo = \<lparr>m_base = 0x80000000, m_size = 0x400\<rparr>"

lemma demo_base [simp]: "m_base demo = 0x80000000" by (simp add: demo_def)

lemma demo_0: "hds (place_root 0x80000000 0x400 m) [(0x80000000, False, 992, 0, 0)]"
  by (simp add: run_heap place_root_def HEADER_def)

lemma demo_1:
  assumes "hds m [(0x80000000, False, 992, 0, 0)]"
  shows "\<exists>m'. heap_alloc demo m 16 = ret (Some 0x80000020, m') \<and>
    hds m' [(0x80000000, True, 16, 0, 0x80000030), (0x80000030, False, 944, 0x80000000, 0)]"
  using assms by (simp add: run_heap)

lemma demo_2:
  assumes "hds m [(0x80000000, True, 16, 0, 0x80000030), (0x80000030, False, 944, 0x80000000, 0)]"
  shows "\<exists>m'. heap_alloc demo m 200 = ret (Some 0x80000050, m') \<and>
    hds m' [(0x80000000, True, 16, 0, 0x80000030), (0x80000030, True, 200, 0x80000000, 0x80000118),
      (0x80000118, False, 712, 0x80000030, 0)]"
  using assms by (simp add: run_heap)

lemma demo_3:
  assumes "hds m [(0x80000000, True, 16, 0, 0x80000030), (0x80000030, True, 200, 0x80000000, 0x80000118),
      (0x80000118, False, 712, 0x80000030, 0)]"
  shows "\<exists>m'. heap_alloc demo m 16 = ret (Some 0x80000138, m') \<and>
    hds m' [(0x80000000, True, 16, 0, 0x80000030), (0x80000030, True, 200, 0x80000000, 0x80000118),
      (0x80000118, True, 16, 0x80000030, 0x80000148), (0x80000148, False, 664, 0x80000118, 0)]"
  using assms by (simp add: run_heap)

lemma demo_4:
  assumes "hds m [(0x80000000, True, 16, 0, 0x80000030), (0x80000030, True, 200, 0x80000000, 0x80000118),
      (0x80000118, True, 16, 0x80000030, 0x80000148), (0x80000148, False, 664, 0x80000118, 0)]"
  shows "\<exists>m'. heap_free m 0x80000050 = ret m' \<and>
    hds m' [(0x80000000, True, 16, 0, 0x80000030), (0x80000030, False, 200, 0x80000000, 0x80000118),
      (0x80000118, True, 16, 0x80000030, 0x80000148), (0x80000148, False, 664, 0x80000118, 0)]"
  using assms by (simp add: run_heap)

lemma demo_5:
  assumes "hds m [(0x80000000, True, 16, 0, 0x80000030), (0x80000030, False, 200, 0x80000000, 0x80000118),
      (0x80000118, True, 16, 0x80000030, 0x80000148), (0x80000148, False, 664, 0x80000118, 0)]"
  shows "\<exists>m'. heap_alloc demo m 100 = ret (Some 0x80000050, m') \<and>
    hds m' [(0x80000000, True, 16, 0, 0x80000030), (0x80000030, True, 100, 0x80000000, 0x800000B4),
      (0x800000B4, False, 68, 0x80000030, 0x80000118), (0x80000118, True, 16, 0x80000030, 0x80000148)]"
  using assms by (simp add: run_heap)

lemma demo_6:
  assumes "hds m [(0x80000000, True, 16, 0, 0x80000030), (0x80000030, True, 100, 0x80000000, 0x800000B4),
      (0x800000B4, False, 68, 0x80000030, 0x80000118), (0x80000118, True, 16, 0x80000030, 0x80000148)]"
  shows "\<exists>m'. heap_alloc demo m 68 = ret (Some 0x800000D4, m') \<and>
    hds m' [(0x80000000, True, 16, 0, 0x80000030), (0x80000030, True, 100, 0x80000000, 0x800000B4),
      (0x800000B4, True, 68, 0x80000030, 0x80000118), (0x80000118, True, 16, 0x80000030, 0x80000148)]"
  using assms by (simp add: run_heap)

lemma demo_7:
  assumes "hds m [(0x80000000, True, 16, 0, 0x80000030), (0x80000030, True, 100, 0x80000000, 0x800000B4),
      (0x800000B4, True, 68, 0x80000030, 0x80000118), (0x80000118, True, 16, 0x80000030, 0x80000148)]"
  shows "\<exists>m'. heap_free m 0x80000020 = ret m' \<and>
    hds m' [(0x80000000, False, 16, 0, 0x80000030), (0x80000030, True, 100, 0x80000000, 0x800000B4),
      (0x800000B4, True, 68, 0x80000030, 0x80000118), (0x80000118, True, 16, 0x80000030, 0x80000148)]"
  using assms by (simp add: run_heap)

lemma demo_8:
  assumes "hds m [(0x80000000, False, 16, 0, 0x80000030), (0x80000030, True, 100, 0x80000000, 0x800000B4),
      (0x800000B4, True, 68, 0x80000030, 0x80000118), (0x80000118, True, 16, 0x80000030, 0x80000148)]"
  shows "\<exists>m'. heap_free m 0x80000050 = ret m' \<and> h_flags m' 0x80000030 = 0 \<and>
    hds m' [(0x80000118, True, 16, 0x80000030, 0x80000148)]"
  using assms by (simp add: run_heap)

lemma demo_9:
  assumes "h_flags m 0x80000030 = 0" and "hds m [(0x80000118, True, 16, 0x80000030, 0x80000148)]"
  shows "heap_free m 0x80000138 = halt (AssertFail (magic_msg ''prev''))"
  using assms by (simp add: run_heap)

text \<open>A program over the heap: allocations that must succeed, and frees.\<close>

definition with_block :: "heap \<Rightarrow> u64 \<Rightarrow> (u64 \<Rightarrow> 64 mem \<Rightarrow> 'a run) \<Rightarrow> 64 mem \<Rightarrow> 'a run" where
  "with_block hp n k m = bindR (heap_alloc hp m n) (\<lambda>(r, m'). bindR (orPanic r ''out of memory'') (\<lambda>p. k p m'))"

definition with_free :: "u64 \<Rightarrow> (64 mem \<Rightarrow> 'a run) \<Rightarrow> 64 mem \<Rightarrow> 'a run" where
  "with_free p k m = bindR (heap_free m p) k"

definition stale_program :: "heap \<Rightarrow> 64 mem \<Rightarrow> 64 mem run" where
  "stale_program hp =
     with_block hp 16 (\<lambda>d. with_block hp 200 (\<lambda>a. with_block hp 16 (\<lambda>b.
     with_free a (with_block hp 100 (\<lambda>c. with_block hp 68 (\<lambda>f.
     with_free d (with_free c (with_free b ret))))))))"

text \<open>
  C30. A correct program can halt the machine: after a block has been split by \<open>alloc\<close>, the
  \<open>prev\<close> link of the block behind it still names the old header; when that header is merged
  away, freeing the block behind it fails the assertion on the magic number.  The run makes six
  allocations and three frees, each of a block it owns.
\<close>

theorem stale_link_halts:
  "stale_program demo (place_root 0x80000000 0x400 m) = halt (AssertFail (magic_msg ''prev''))"
proof -
  obtain m1 where 1: "heap_alloc demo (place_root 0x80000000 0x400 m) 16 = ret (Some 0x80000020, m1)"
    and h1: "hds m1 [(0x80000000, True, 16, 0, 0x80000030), (0x80000030, False, 944, 0x80000000, 0)]"
    using demo_1 [OF demo_0] by blast
  obtain m2 where 2: "heap_alloc demo m1 200 = ret (Some 0x80000050, m2)" and h2: "hds m2
      [(0x80000000, True, 16, 0, 0x80000030), (0x80000030, True, 200, 0x80000000, 0x80000118),
       (0x80000118, False, 712, 0x80000030, 0)]"
    using demo_2 [OF h1] by blast
  obtain m3 where 3: "heap_alloc demo m2 16 = ret (Some 0x80000138, m3)" and h3: "hds m3
      [(0x80000000, True, 16, 0, 0x80000030), (0x80000030, True, 200, 0x80000000, 0x80000118),
       (0x80000118, True, 16, 0x80000030, 0x80000148), (0x80000148, False, 664, 0x80000118, 0)]"
    using demo_3 [OF h2] by blast
  obtain m4 where 4: "heap_free m3 0x80000050 = ret m4" and h4: "hds m4
      [(0x80000000, True, 16, 0, 0x80000030), (0x80000030, False, 200, 0x80000000, 0x80000118),
       (0x80000118, True, 16, 0x80000030, 0x80000148), (0x80000148, False, 664, 0x80000118, 0)]"
    using demo_4 [OF h3] by blast
  obtain m5 where 5: "heap_alloc demo m4 100 = ret (Some 0x80000050, m5)" and h5: "hds m5
      [(0x80000000, True, 16, 0, 0x80000030), (0x80000030, True, 100, 0x80000000, 0x800000B4),
       (0x800000B4, False, 68, 0x80000030, 0x80000118), (0x80000118, True, 16, 0x80000030, 0x80000148)]"
    using demo_5 [OF h4] by blast
  obtain m6 where 6: "heap_alloc demo m5 68 = ret (Some 0x800000D4, m6)" and h6: "hds m6
      [(0x80000000, True, 16, 0, 0x80000030), (0x80000030, True, 100, 0x80000000, 0x800000B4),
       (0x800000B4, True, 68, 0x80000030, 0x80000118), (0x80000118, True, 16, 0x80000030, 0x80000148)]"
    using demo_6 [OF h5] by blast
  obtain m7 where 7: "heap_free m6 0x80000020 = ret m7" and h7: "hds m7
      [(0x80000000, False, 16, 0, 0x80000030), (0x80000030, True, 100, 0x80000000, 0x800000B4),
       (0x800000B4, True, 68, 0x80000030, 0x80000118), (0x80000118, True, 16, 0x80000030, 0x80000148)]"
    using demo_7 [OF h6] by blast
  obtain m8 where 8: "heap_free m7 0x80000050 = ret m8" and h8: "h_flags m8 0x80000030 = 0"
      "hds m8 [(0x80000118, True, 16, 0x80000030, 0x80000148)]"
    using demo_8 [OF h7] by blast
  show ?thesis
    by (simp add: stale_program_def with_block_def with_free_def 1 2 3 4 5 6 7 8 demo_9 [OF h8])
qed

section \<open>Sizes that wrap\<close>

text \<open>
  C31. \<open>alloc\<close> of a size from \<open>2^64 - 32\<close> on succeeds: \<open>size + sizeof(HeapHeader)\<close> wraps, the
  first free block with more bytes than the wrapped sum is taken, and its header then claims the
  size asked for.
\<close>

theorem heap_alloc_wraps:
  assumes "heap_blocks hp m ((n, False) # bs)" and "2 ^ 64 \<le> unat sz + 32" and "unat sz + 32 - 2 ^ 64 < n"
  shows "\<exists>m'. heap_alloc hp m sz = ret (Some (m_base hp + 32), m') \<and> h_length m' (m_base hp) = sz \<and>
     n < unat sz"
proof -
  let ?a = "m_base hp"
  have c: "hchain m ?a ((n, False) # bs)" "fits ?a ((n, False) # bs)" using assms(1) by (simp_all add: heap_blocks_def)
  have fl: "h_flags m ?a = flags_of False" "h_length m ?a = of_nat n" using c(1) by simp_all
  have "unat (sz + 32) = unat sz + 32 - 2 ^ 64"
    using assms(2) unat_lt_64 [of sz] by (simp add: unat_word_ariths le_mod_geq)
  then have gt: "h_length m ?a > sz + 32"
    using assms(3) fits_length [OF c(2)] by (simp add: fl word_less_nat_alt)
  have "heap_alloc hp m sz = ret (Some (?a + 32), split_block ?a sz m)"
    using fl gt fits_nonzero [OF c(2)] magic_tests by (simp add: heap_alloc_def rootHeader_def alloc_step)
  moreover have "h_length (split_block ?a sz m) ?a = sz" by (simp add: split_block_def Let_def fields)
  moreover have "n < unat sz"
  proof -
    have "n < 2 ^ 64 - 1 - 32" using c(2) by (simp add: fits_def)
    then show ?thesis using assms(2) by simp
  qed
  ultimately show ?thesis by blast
qed

theorem heap_alloc_wraps_witness:
  "\<exists>m'. heap_alloc (fst small_heap) (snd small_heap) 0xFFFFFFFFFFFFFFFF = ret (Some 0x80000020, m')"
  using heap_alloc_wraps [of "fst small_heap" "snd small_heap" 992 "[]" "0xFFFFFFFFFFFFFFFF"] small_heap_linked
  by (auto simp: heap_linked_def small_heap_base)

section \<open>allocAligned\<close>

lemma aligned_dvd: "2 ^ k dvd unat (x AND - (2 ^ k))" if "k < 64" for x :: u64
proof -
  have "x AND - (2 ^ k) = x AND NOT (mask k)" by (simp add: minus_exp_eq_not_mask)
  then show ?thesis by (simp only: unat_and_not_mask) simp
qed

lemma dvd_add_word: "2 ^ k dvd unat (x + y)" if "k \<le> 64" "2 ^ k dvd unat x" "2 ^ k dvd unat y" for x y :: u64
proof -
  have "(2 :: nat) ^ k dvd 2 ^ 64" using that(1) by (rule le_imp_power_dvd)
  moreover have "unat (x + y) = (unat x + unat y) mod 2 ^ 64" by (simp add: unat_word_ariths)
  ultimately show ?thesis using that(2,3) by (simp add: dvd_mod)
qed

lemma aligned_fit_aligned:
  assumes "aligned_fit m h sz (2 ^ k) na = Some r" and "k < 64" and "2 ^ k dvd unat na"
  shows "\<forall>p m'. r = Inr (Some (p, m')) \<longrightarrow> 2 ^ k dvd unat p"
proof -
  have u: "unat ((2 :: u64) ^ k) = 2 ^ k"
    using unat_of_nat_small [where ?'a = 64, of "2 ^ k"] power_strict_increasing [of k 64 "2 :: nat"] assms(2) by simp
  then have nx: "2 ^ k dvd unat (x + 2 ^ k)" if "2 ^ k dvd unat x" for x :: u64
    using that assms(2) by (intro dvd_add_word) simp_all
  let ?P = "\<lambda>(m :: 64 mem) (h :: u64) (sz :: u64) (al :: u64) na r. al = 2 ^ k \<longrightarrow> 2 ^ k dvd unat na \<longrightarrow>
    (\<forall>p m'. r = Inr (Some (p, m')) \<longrightarrow> 2 ^ k dvd unat p)"
  have "?P m h sz (2 ^ k) na r"
  proof (rule aligned_fit.raw_induct [where P = ?P, OF _ assms(1)], goal_cases)
    case (1 fit m h sz al na r)
    show ?case
    proof (intro impI allI)
      fix p m' assume a: "al = 2 ^ k" "2 ^ k dvd unat na" and r: "r = Inr (Some (p, m'))"
      show "2 ^ k dvd unat p"
        using 1(2) 1(1) [of m h sz al "na + al" r] 1(1) [of m h sz al na r] a r nx [OF a(2)]
        by (auto simp: Let_def split: if_splits)
    qed
  qed
  then show ?thesis using assms(3) by blast
qed

text \<open>
  C32. Every block \<open>allocAligned\<close> returns for a power of two starts at a multiple of it, whatever
  the state of the heap.
\<close>

theorem allocAligned_aligned:
  assumes "heap_allocAligned hp m sz (2 ^ k) = ret (Some p, m')" and "k < 64"
  shows "2 ^ k dvd unat p"
proof -
  let ?P = "\<lambda>(m :: 64 mem) (h :: u64) (sz :: u64) (al :: u64) (r :: (u64 option \<times> 64 mem) res). al = 2 ^ k \<longrightarrow> (\<forall>p m'. r = Inr (Some p, m') \<longrightarrow> 2 ^ k dvd unat p)"
  have "?P m (m_base hp) sz (2 ^ k) (Inr (Some p, m'))"
  proof (rule heap_allocAligned_loop.raw_induct [where P = ?P, OF _ assms(1) [unfolded heap_allocAligned_def rootHeader_def]], goal_cases)
    case (1 loop m h sz al r)
    show ?case
    proof (intro impI allI)
      fix p m' assume a: "al = 2 ^ k" and r: "r = Inr (Some p, m')"
      have fit: "2 ^ k dvd unat q" if "aligned_fit m h sz al (alignUp (h + HEADER) al) = ret (Some (q, m2))" for q m2
        using aligned_fit_aligned [of m h sz k _ "Inr (Some (q, m2))"] that a assms(2) aligned_dvd [OF assms(2)]
        by (auto simp: alignUp_def)
      show "2 ^ k dvd unat p"
        using 1(2) 1(1) [of m "h_next m h" sz al r] a r fit
        by (auto simp: bindR_eq_ret opt_some_def opt_none_def split: if_splits)
    qed
  qed
  then show ?thesis by simp
qed

lemma small_heap_head:
  "has_magic (snd small_heap) 0x80000000" "\<not> is_used (snd small_heap) 0x80000000"
  "h_length (snd small_heap) 0x80000000 = 992"
proof -
  have "h_flags (snd small_heap) 0x80000000 = flags_of False" "h_length (snd small_heap) 0x80000000 = 992"
    using small_heap_linked by (simp_all add: heap_linked_def heap_blocks_def small_heap_base)
  then show "has_magic (snd small_heap) 0x80000000" "\<not> is_used (snd small_heap) 0x80000000"
    "h_length (snd small_heap) 0x80000000 = 992"
    using has_magic_flags [of "snd small_heap" "0x80000000" False] by simp_all
qed

theorem allocAligned_aligned_witness:
  "\<exists>p m'. heap_allocAligned (fst small_heap) (snd small_heap) 64 (2 ^ 8) = ret (Some p, m') \<and> 256 dvd unat p"
proof -
  have "heap_allocAligned (fst small_heap) (snd small_heap) 64 (2 ^ 8) =
      ret (Some 0x80000100, cut_middle 0x80000000 0x80000100 224 768 64 (snd small_heap))"
    by (simp add: heap_allocAligned_def rootHeader_def small_heap_base heap_allocAligned_loop.simps [of "snd small_heap"]
        small_heap_head aligned_fit.simps [of "snd small_heap"] HEADER_def alignUp_def opt_some_def)
  from allocAligned_aligned [OF this] this show ?thesis by auto
qed

text \<open>
  C33. When the first free block starts on the boundary, \<open>allocAligned\<close> does not look at its
  length: it returns the block for any size, also one larger than the block.
\<close>

theorem allocAligned_overruns:
  assumes "heap_blocks hp m ((n, False) # bs)" and "n < 2 ^ 63" and "n < unat sz"
    and "alignUp (m_base hp + 32) align = m_base hp + 32"
  shows "\<exists>m'. heap_allocAligned hp m sz align = ret (Some (m_base hp + 32), m') \<and> h_length m' (m_base hp) = sz"
proof -
  let ?a = "m_base hp"
  have c: "hchain m ?a ((n, False) # bs)" "fits ?a ((n, False) # bs)" using assms(1) by (simp_all add: heap_blocks_def)
  have fl: "h_flags m ?a = flags_of False" "h_length m ?a = of_nat n" using c(1) by simp_all
  have "\<not> sint (of_nat n :: u64) < 0"
    using assms(2) fits_length [OF c(2)] by (simp add: sint_small)
  moreover have "(of_nat n :: u64) \<noteq> sz" using assms(3) fits_length [OF c(2)] by auto
  ultimately have "aligned_fit m ?a sz align (?a + 32) = ret (Some (?a + 32, split_block ?a sz m))"
    by (simp add: aligned_fit.simps [of m] HEADER_def fl)
  then have "heap_allocAligned hp m sz align = ret (Some (?a + 32), split_block ?a sz m)"
    using has_magic_flags [OF fl(1)] fits_nonzero [OF c(2)] assms(4)
    by (simp add: heap_allocAligned_def rootHeader_def heap_allocAligned_loop.simps [of m] HEADER_def opt_some_def)
  moreover have "h_length (split_block ?a sz m) ?a = sz" by (simp add: split_block_def Let_def fields)
  ultimately show ?thesis by blast
qed

theorem allocAligned_overruns_witness:
  "\<exists>m'. heap_allocAligned (fst small_heap) (snd small_heap) 0x100000 16 = ret (Some 0x80000020, m')"
  using allocAligned_overruns [of "fst small_heap" "snd small_heap" 992 "[]" "0x100000" 16] small_heap_linked
  by (auto simp: heap_linked_def small_heap_base alignUp_def)

text \<open>
  C34. \<open>allocAligned\<close> never returns when the first free block has room for the padding in front of
  the boundary but the rest is neither the size asked for nor larger than it by more than a
  header: the inner \<open>while (1)\<close> changes nothing any more.
\<close>

theorem allocAligned_diverges:
  assumes "heap_blocks hp m ((n, False) # bs)" and "n < 2 ^ 63"
    and "alignUp (m_base hp + 32) align = m_base hp + 32 + pad" and "32 \<le> unat pad" and "unat pad \<le> n"
    and "n - unat pad \<le> unat sz + 32" and "n - unat pad \<noteq> unat sz" and "unat sz + 32 < 2 ^ 64"
  shows "heap_allocAligned hp m sz align = None"
proof -
  let ?a = "m_base hp" and ?na = "m_base hp + 32 + pad"
  have c: "hchain m ?a ((n, False) # bs)" "fits ?a ((n, False) # bs)" using assms(1) by (simp_all add: heap_blocks_def)
  have fl: "h_flags m ?a = flags_of False" "h_length m ?a = of_nat n" using c(1) by simp_all
  have ac: "unat (of_nat n - pad :: u64) = n - unat pad"
    using assms(5) fits_length [OF c(2)] by (simp add: unat_sub_ge)
  have "\<not> sint (of_nat n - pad :: u64) < 0"
    using assms(2) ac by (simp add: sint_small)
  moreover have "of_nat n - pad \<noteq> sz" "\<not> sz + 32 < of_nat n - pad"
    using ac assms(6-8) by (auto simp: word_less_nat_alt unat_add_small)
  moreover have "pad \<noteq> 0" "\<not> pad < 32" using assms(4) by (auto simp: word_less_nat_alt)
  ultimately have stuck: "\<not> sint (of_nat n - pad :: u64) < 0" "of_nat n - pad \<noteq> sz" "\<not> sz + 32 < of_nat n - pad"
    "pad \<noteq> 0" "\<not> pad < 32" by blast+
  have None: "aligned_fit m ?a sz align ?na = None"
  proof (rule ccontr)
    assume "aligned_fit m ?a sz align ?na \<noteq> None"
    then obtain r where r: "aligned_fit m ?a sz align ?na = Some r" by blast
    let ?P = "\<lambda>m' h (sz' :: u64) (al :: u64) na (r :: (u64 \<times> 64 mem) option res).
      \<not> (m' = m \<and> h = ?a \<and> sz' = sz \<and> na = ?na)"
    have "?P m ?a sz align ?na r"
    proof (rule aligned_fit.raw_induct [where P = ?P, OF _ r], goal_cases)
      case (1 fit m' h sz' al na r)
      show ?case
      proof
        assume e: "m' = m \<and> h = ?a \<and> sz' = sz \<and> na = ?na"
        have "fit m' h sz' al na = Some r"
          using 1(2) e stuck by (simp add: Let_def HEADER_def fl)
        from 1(1) [OF this] e show False by blast
      qed
    qed
    then show False by blast
  qed
  then show ?thesis
    using has_magic_flags [OF fl(1)] fits_nonzero [OF c(2)] assms(3)
    by (simp add: heap_allocAligned_def rootHeader_def heap_allocAligned_loop.simps [of m] HEADER_def)
qed

theorem allocAligned_diverges_witness:
  "heap_allocAligned (fst small_heap) (snd small_heap) 750 256 = None"
proof (rule allocAligned_diverges [of _ _ 992 "[]" _ 224])
  show "heap_blocks (fst small_heap) (snd small_heap) [(992, False)]"
    using small_heap_linked by (simp add: heap_linked_def)
qed (simp_all add: small_heap_base alignUp_def)

end
