(* ===== verification/KernelBoot.thy ===== *)
theory KernelBoot
  imports HeapProps MemManagerProps
begin

text \<open>
  The start of the kernel: kernel/main.cpp with \<open>validateLoaderData\<close>, the struct of
  loader/loader.hpp it reads, and the rest of kernel/mem/pm.cpp: \<open>retainLoaderPaging\<close>, which takes
  over the tables and the bit field of the loader, \<open>dump\<close> and \<open>dumpAlloc\<close>.
\<close>

unbundle bit_operations_syntax

section \<open>LoaderData\<close>

record LoaderData =
  loaderMagic :: u32
  loaderPagingBase :: u32
  loaderPagingSize :: u32
  loaderPagingTracking :: u32
  multibootInfo :: u32
  checksum :: u8

definition LOADER_MAGIC :: u32 where "LOADER_MAGIC = 0x310AD007"

definition sizeof_LoaderData :: nat where "sizeof_LoaderData = 21"

definition read_LoaderData :: "64 mem \<Rightarrow> u64 \<Rightarrow> LoaderData" where
  "read_LoaderData m p =
     \<lparr>loaderMagic = ld32 m p, loaderPagingBase = ld32 m (p + 4), loaderPagingSize = ld32 m (p + 8),
      loaderPagingTracking = ld32 m (p + 12), multibootInfo = ld32 m (p + 16), checksum = m (p + 20)\<rparr>"

fun byte_sum :: "'a::len mem \<Rightarrow> 'a word \<Rightarrow> nat \<Rightarrow> u32" where
  "byte_sum m p 0 = 0"
| "byte_sum m p (Suc n) = byte_sum m p n + ucast (m (p + of_nat n))"

definition validateLoaderData :: "64 mem \<Rightarrow> u64 \<Rightarrow> unit run" where
  "validateLoaderData m data =
     (let sum = byte_sum m data sizeof_LoaderData in assertR (sum AND 0xFF = 0) ''(sum & 0xFF) == 0'' (ret ()))"

section \<open>dump and dumpAlloc\<close>

definition indices :: "u64 list" where "indices = map of_nat [0..<512]"

text \<open>The rows printed: first and end address of the page and of the frame.\<close>

definition dump_pd :: "pmst \<Rightarrow> u64 \<Rightarrow> u64 \<Rightarrow> u64 \<Rightarrow> (u64 \<times> u64 \<times> u64 \<times> u64) list" where
  "dump_pd s pml4i pdpti pd = concat (map (\<lambda>pdi.
     let pde = at64 s pd pdi in
     if \<not> present pde then []
     else
       let vaddr = push_bit 39 pml4i OR push_bit 30 pdpti OR push_bit 21 pdi; paddr = pde AND NOT 0xFFF in
       [(vaddr, vaddr + 0x200000, paddr, paddr + 0x200000)]) indices)"

definition dump_pdpt :: "pmst \<Rightarrow> u64 \<Rightarrow> u64 \<Rightarrow> (u64 \<times> u64 \<times> u64 \<times> u64) list" where
  "dump_pdpt s pml4i pdpt = concat (map (\<lambda>pdpti.
     let pdpte = at64 s pdpt pdpti in
     if \<not> present pdpte then [] else dump_pd s pml4i pdpti (entry_addr pdpte)) indices)"

definition pml4_dump :: "pmst \<Rightarrow> u64 \<Rightarrow> (u64 \<times> u64 \<times> u64 \<times> u64) list" where
  "pml4_dump s this = concat (map (\<lambda>pml4i.
     let pml4e = at64 s this pml4i in
     if \<not> present pml4e then [] else dump_pdpt s pml4i (entry_addr pml4e)) indices)"

partial_function (option) pm_dumpAlloc_loop :: "pmst \<Rightarrow> u64 \<Rightarrow> (u64 \<times> u64 \<times> u64) list option" where
  "pm_dumpAlloc_loop s i =
     (if i < rend (pagingRange s) then
        let idx = PM_TRACKING_INDEX (i - rstart (pagingRange s));
            b = PM_TRACKING_BIT (i - rstart (pagingRange s));
            row = (if at64 s (trackingStructure s) idx AND b \<noteq> 0
              then [(idx, drop_bit 12 (i - rstart (pagingRange s)) AND 0x3F, i)] else []) in
        Option.bind (pm_dumpAlloc_loop s (i + 0x1000)) (\<lambda>rows. Some (row @ rows))
      else Some [])"

definition pm_dumpAlloc :: "pmst \<Rightarrow> (u64 \<times> u64 \<times> u64) list option" where
  "pm_dumpAlloc s = pm_dumpAlloc_loop s (rstart (pagingRange s))"

section \<open>retainLoaderPaging\<close>

definition KERNEL_LOCATION :: u64 where "KERNEL_LOCATION = 0x400000"

text \<open>Step 2: the new bit field and the counters are placed below the kernel and cleared.\<close>

definition retain_place :: "pmst \<Rightarrow> LoaderData \<Rightarrow> pmst \<times> u64" where
  "retain_place s d =
     (let r = \<lparr>rstart = ucast (loaderPagingBase d), rend = ucast (loaderPagingBase d + loaderPagingSize d)\<rparr>;
          expandDelta = KERNEL_LOCATION - rend r;
          trackingDelta = drop_bit 18 expandDelta * 8;
          trackingOld = drop_bit 18 (rend r - rstart r) * 8;
          trackingAddr = (KERNEL_LOCATION - trackingDelta - trackingOld) AND NOT 0xFFF;
          rcSize = drop_bit 12 (KERNEL_LOCATION - rstart r) * 2;
          refcountAddr = trackingAddr + trackingDelta + trackingOld in
      (s\<lparr>mem := memset (memset (mem s) trackingAddr 0 (trackingOld + trackingDelta)) refcountAddr 0 rcSize,
         pagingRange := r, trackingStructure := trackingAddr, refcountStructure := refcountAddr,
         refcountSize := rcSize\<rparr>, trackingOld))"

text \<open>Step 3: the pages of the loader are marked and the present entries of each are counted.\<close>

partial_function (option) retain_entries :: "pmst \<Rightarrow> u64 \<Rightarrow> u64 \<Rightarrow> pmst run" where
  "retain_entries s t i =
     (if i < 512 then
        if at64 s t i AND 1 \<noteq> 0 then bindR (pm_incRefs s t) (\<lambda>r. retain_entries (snd r) t (i + 1))
        else retain_entries s t (i + 1)
      else ret s)"

definition old_bit :: "64 mem \<Rightarrow> u64 \<Rightarrow> u32 \<Rightarrow> bool" where
  "old_bit m oldTracking oldAddr \<longleftrightarrow>
     ld32 m (oldTracking + 4 * ucast (drop_bit 17 oldAddr)) AND push_bit (unat (drop_bit 12 oldAddr AND 0x1F)) 1 \<noteq> 0"

partial_function (option) retain_loop :: "pmst \<Rightarrow> u64 \<Rightarrow> u64 \<Rightarrow> u32 \<Rightarrow> u64 \<Rightarrow> (u64 \<times> pmst) run" where
  "retain_loop s oldTracking trackingOld oldAddr maxStruct =
     (if ucast oldAddr < (push_bit 17 (trackingOld div 4) :: u64) then
        if old_bit (mem s) oldTracking oldAddr then
          let t = ucast oldAddr + rstart (pagingRange s) in
          bindR (pm_setAlloc s t) (\<lambda>s1.
          bindR (retain_entries s1 t 0) (\<lambda>s2.
          retain_loop s2 oldTracking trackingOld (oldAddr + 0x1000) (if t > maxStruct then t else maxStruct)))
        else retain_loop s oldTracking trackingOld (oldAddr + 0x1000) maxStruct
      else ret (maxStruct, s))"

text \<open>Steps 1 to 3, with the address of the last page of the loader.\<close>

definition retain_take :: "pmst \<Rightarrow> u64 \<Rightarrow> (u64 \<times> pmst) run" where
  "retain_take s loaderData =
     (let d = read_LoaderData (mem s) loaderData; oldTracking = ucast (loaderPagingTracking d) in
      case retain_place s d of (s1, trackingOld) \<Rightarrow> retain_loop s1 oldTracking trackingOld 0 0)"

text \<open>Step 6: the address and the number of bytes \<open>memset\<close> is called with, if it is called.\<close>

definition retain_cleanup :: "pmst \<Rightarrow> u64 \<Rightarrow> (u64 \<times> u64) option" where
  "retain_cleanup s maxStruct =
     (let trackingAddr = trackingStructure s in
      if maxStruct \<noteq> trackingAddr
      then Some (maxStruct + 0x1000, (trackingAddr AND NOT 0xFFF) - (maxStruct + 0x1000)) else None)"

text \<open>
  Steps 4 to 6; the rows of \<open>dumpAlloc\<close> are only printed.  The local variables of the model are not
  in its memory, so its \<open>memset\<close> clears all it is asked to; in the program the stack lies in that
  range, and \<open>memset\<close> ends early when it overwrites its own length.
\<close>

definition retain_finish :: "pmst \<Rightarrow> u64 \<Rightarrow> pmst run" where
  "retain_finish s maxStruct =
     (let s1 = s\<lparr>pagingRange := (pagingRange s)\<lparr>rend := trackingStructure s AND NOT 0xFFF\<rparr>\<rparr> in
      Option.bind (pm_dumpAlloc s1) (\<lambda>rows.
      let s2 = s1\<lparr>kernelPml4 := rstart (pagingRange s1), currentPml4 := rstart (pagingRange s1)\<rparr> in
      case retain_cleanup s2 maxStruct of
        Some (a, n) \<Rightarrow> ret (s2\<lparr>mem := memset (mem s2) a 0 n\<rparr>)
      | None \<Rightarrow> ret s2))"

definition pm_retainLoaderPaging :: "pmst \<Rightarrow> u64 \<Rightarrow> pmst run" where
  "pm_retainLoaderPaging s loaderData =
     bindR (retain_take s loaderData) (\<lambda>(maxStruct, s2). retain_finish s2 maxStruct)"

section \<open>kernel_main\<close>

text \<open>Everything before the final \<open>while (true)\<close>, with the rows \<open>dump\<close> prints.\<close>

definition kernel_boot :: "kst \<Rightarrow> u64 \<Rightarrow> (kst \<times> (u64 \<times> u64 \<times> u64 \<times> u64) list) run" where
  "kernel_boot k loaderData =
     bindR (validateLoaderData (kmem k) loaderData) (\<lambda>u.
     bindR (pm_retainLoaderPaging (paging (mm k)) loaderData) (\<lambda>pg.
     let k1 = k\<lparr>mm := mm_init ((mm k)\<lparr>paging := pg\<rparr>)\<rparr>;
         rows = pml4_dump (paging (mm k1)) (pm_kernel (paging (mm k1))) in
     bindR (heap_init k1) (\<lambda>k2. ret (k2, rows))))"

definition kernel_main :: "kst \<Rightarrow> u64 \<Rightarrow> unit run" where
  "kernel_main k loaderData = bindR (kernel_boot k loaderData) (\<lambda>r. None)"

end
