(* ===== verification/KernelBootProps.thy ===== *)
theory KernelBootProps
  imports KernelBoot
begin

text \<open>
  The start of the kernel.  What the loader leaves in memory (\<open>loader_left\<close>) is what
  \<open>retainLoaderPaging\<close> needs to set up the state in which the lemmas about \<open>pm.cpp\<close>, \<open>mm.cpp\<close> and
  \<open>heap.cpp\<close> hold; \<open>kernel_main\<close> then reaches its endless loop with page tables, frames and heap
  well formed.
\<close>

unbundle bit_operations_syntax

section \<open>Where the structures go\<close>

text \<open>The kernel's view of the state while the loader's pages are taken over, with the final range.\<close>

definition final_range :: "u64 rng" where
  "final_range = \<lparr>rstart = 0x100000, rend = 0x3FF000\<rparr>"

definition E :: "pmst \<Rightarrow> pmst" where
  "E s = s\<lparr>pagingRange := final_range\<rparr>"

definition placed :: "pmst \<Rightarrow> bool" where
  "placed s \<longleftrightarrow> pagingRange s = \<lparr>rstart = 0x100000, rend = 0x200000\<rparr> \<and>
     trackingStructure s = 0x3FF000 \<and> refcountStructure s = 0x3FF060 \<and> refcountSize s = 1536"

lemma E_simps [simp]:
  "mem (E s) = mem s" "pagingRange (E s) = final_range" "trackingStructure (E s) = trackingStructure s"
  "refcountStructure (E s) = refcountStructure s" "at64 (E s) t i = at64 s t i" "at16 (E s) t i = at16 s t i"
  by (simp_all add: E_def at64_def at16_def)

lemma E_put [simp]: "E (put64 s p i v) = put64 (E s) p i v" "E (put16 s p i w) = put16 (E s) p i w"
  by (simp_all add: E_def put64_def put16_def)

lemma placed_put [simp]: "placed (put64 s p i v) = placed s" "placed (put16 s p i w) = placed s"
  by (simp_all add: placed_def put64_def put16_def)

lemma put_refcountSize [simp]: "refcountSize (put64 s p i v) = refcountSize s" "refcountSize (put16 s p i w) = refcountSize s"
  by (simp_all add: put64_def put16_def)

lemma final_range_simps [simp]: "rstart final_range = 0x100000" "rend final_range = 0x3FF000"
  by (simp_all add: final_range_def)

lemma E_sizes: "range_size (E s) = 0x2FF000" "tracking_bytes (E s) = 96" "refcount_bytes (E s) = 1536"
  by (simp_all add: range_size_def tracking_bytes_def refcount_bytes_def)

lemma E_geom: "placed s \<Longrightarrow> geom (E s)"
proof -
  have "region (0x3FF000 :: u64) 96 \<inter> region 0x100000 0x2FF000 = {}"
    "region (0x3FF060 :: u64) 1536 \<inter> region 0x100000 0x2FF000 = {}"
    "region (0x3FF000 :: u64) 96 \<inter> region 0x3FF060 1536 = {}"
    by (intro region_disjoint; simp)+
  then show "placed s \<Longrightarrow> geom (E s)" by (simp add: geom_def E_sizes placed_def)
qed

definition loader_page :: "u64 \<Rightarrow> bool" where
  "loader_page t \<longleftrightarrow> t AND 0xFFF = 0 \<and> 0x100000 \<le> t \<and> t < 0x200000"

lemma loader_page_inpage: "placed s \<Longrightarrow> loader_page t \<Longrightarrow> inpage s t \<and> inpage (E s) t"
  by (auto simp: placed_def loader_page_def inpage_def elim: order_less_trans)

lemma E_inpage: "inpage (E s) t \<longleftrightarrow> t AND 0xFFF = 0 \<and> 0x100000 \<le> t \<and> t < 0x3FF000"
  by (simp add: inpage_def)

text \<open>Marking and counting while the range still ends at the loader are the same stores.\<close>

lemma setAlloc_E:
  assumes "placed s" and "loader_page t"
  shows "\<exists>s'. pm_setAlloc s t = ret s' \<and> placed s' \<and>
    E s' = put_tracking (E s) t (tracking_cell (E s) t OR PM_TRACKING_BIT (t - rstart (pagingRange (E s))))"
  using loader_page_inpage [OF assms] assms(1)
  by (auto simp: pm_setAlloc_eq put_tracking_def tracking_cell_def placed_def)

lemma incRefs_E:
  assumes "placed s" and "loader_page t"
  shows "\<exists>s'. pm_incRefs s t = ret (refs (E s) t + 1, s') \<and> placed s' \<and> E s' = put_refs (E s) t (refs (E s) t + 1)"
  using loader_page_inpage [OF assms] assms(1)
  by (auto simp: pm_incRefs_eq put_refs_def refs_def placed_def)

section \<open>Counting the entries of a page\<close>

definition counted_from :: "pmst \<Rightarrow> u64 \<Rightarrow> u64 \<Rightarrow> nat" where
  "counted_from s t i = card {k. i \<le> k \<and> k < 512 \<and> present (at64 s t k)}"

lemma counted_from_0: "counted_from s t 0 = entries s t"
  by (simp add: counted_from_def entries_def)

lemma counted_from_step:
  assumes "i < 512"
  shows "counted_from s t i = (if present (at64 s t i) then 1 else 0) + counted_from s t (i + 1)"
proof -
  have n: "unat (i + 1) = Suc (unat i)" using assms by (rule unat_suc_less)
  have "i \<le> k \<longleftrightarrow> k = i \<or> i + 1 \<le> k" for k
    using n by (auto simp: word_le_nat_alt word_unat_eq_iff [of k i])
  then have "{k. i \<le> k \<and> k < 512 \<and> present (at64 s t k)} =
      (if present (at64 s t i) then {i} else {}) \<union> {k. i + 1 \<le> k \<and> k < 512 \<and> present (at64 s t k)}"
    using assms by auto
  moreover have "i \<notin> {k. i + 1 \<le> k \<and> k < 512 \<and> present (at64 s t k)}"
    using n by (simp add: word_le_nat_alt)
  ultimately show ?thesis by (simp add: counted_from_def del: mem_Collect_eq)
qed

text \<open>What changes from \<open>s\<close> to \<open>s'\<close>: the two arrays only.\<close>

definition arrays_only :: "pmst \<Rightarrow> pmst \<Rightarrow> bool" where
  "arrays_only s s' \<longleftrightarrow> only_mem s s' \<and> (\<forall>x. x \<notin> region 0x3FF000 0x660 \<longrightarrow> mem s' x = mem s x)"

lemma arrays_only_refl [simp]: "arrays_only s s"
  by (simp add: arrays_only_def)

lemma arrays_only_trans: "arrays_only s s' \<Longrightarrow> arrays_only s' s'' \<Longrightarrow> arrays_only s s''"
  unfolding arrays_only_def by (intro conjI allI impI, erule only_mem_trans [OF conjunct1], auto)

lemma array_regions:
  "region (0x3FF000 :: u64) 96 \<subseteq> region 0x3FF000 0x660" "region (0x3FF060 :: u64) 1536 \<subseteq> region 0x3FF000 0x660"
  by (rule region_sub; simp)+

lemma arrays_only_put_refs:
  "placed s \<Longrightarrow> loader_page t \<Longrightarrow> arrays_only (E s) (put_refs (E s) t v)"
  using refs_store_frame [OF E_geom, of s t _ v] loader_page_inpage [of s t] array_regions(2)
  by (auto simp: arrays_only_def E_sizes placed_def)

lemma arrays_only_put_tracking:
  "placed s \<Longrightarrow> loader_page t \<Longrightarrow> arrays_only (E s) (put_tracking (E s) t v)"
  using tracking_store_frame [OF E_geom, of s t _ v] loader_page_inpage [of s t] array_regions(1)
  by (auto simp: arrays_only_def E_sizes placed_def)

lemma retain_entries_run:
  assumes "placed s" and t: "loader_page t" and "i \<le> 512"
  shows "\<exists>s'. retain_entries s t i = ret s' \<and> placed s' \<and> arrays_only (E s) (E s') \<and>
    (\<forall>a. inpage (E s) a \<longrightarrow> tracked (E s') a = tracked (E s) a \<and>
       refs (E s') a = refs (E s) a + (if a = t then of_nat (counted_from (E s) t i) else 0) \<and>
       (\<forall>j < 512. at64 (E s') a j = at64 (E s) a j))"
  using assms(1,3)
proof (induction "512 - unat i" arbitrary: s i)
  case 0
  then have "i = 512" by (simp add: word_le_nat_alt word_unat_eq_iff)
  moreover have "counted_from (E s) t 512 = 0"
  proof -
    have "{k. 512 \<le> k \<and> k < 512 \<and> present (at64 (E s) t k)} = {}" by auto
    then show ?thesis unfolding counted_from_def by (simp only: card.empty)
  qed
  ultimately show ?case using 0 by (intro exI [of _ s]) (simp add: retain_entries.simps)
next
  case (Suc n)
  then have lt: "i < 512" by (simp add: word_less_nat_alt)
  then have u: "unat (i + 1) = Suc (unat i)" by (rule unat_suc_less)
  have n: "n = 512 - unat (i + 1)" "i + 1 \<le> 512" using Suc.hyps(2) u by (simp_all add: word_le_nat_alt)
  have cnt: "counted_from (E s) t i = (if present (at64 s t i) then 1 else 0) + counted_from (E s) t (i + 1)"
    using counted_from_step [OF lt, of "E s" t] by simp
  show ?case
  proof (cases "present (at64 s t i)")
    case False
    then have "retain_entries s t i = retain_entries s t (i + 1)"
      using lt by (simp add: retain_entries.simps [of s t i] present_def F_PRESENT_def)
    moreover have "counted_from (E s) t i = counted_from (E s) t (i + 1)" using cnt False by simp
    ultimately show ?thesis using Suc.hyps(1) [OF n(1) Suc.prems(1) n(2)] by (simp only:)
  next
    case True
    obtain s1 where s1: "pm_incRefs s t = ret (refs (E s) t + 1, s1)" "placed s1" "E s1 = put_refs (E s) t (refs (E s) t + 1)"
      using incRefs_E [OF Suc.prems(1) t] by blast
    have step: "retain_entries s t i = retain_entries s1 t (i + 1)"
      using lt True s1(1) by (simp add: retain_entries.simps [of s t i] present_def F_PRESENT_def)
    note g = E_geom [OF Suc.prems(1)] conjunct2 [OF loader_page_inpage [OF Suc.prems(1) t]]
    have p: "inpage (E s1) a = inpage (E s) a" for a by (simp add: inpage_def)
    have c1: "counted_from (E s1) t (i + 1) = counted_from (E s) t (i + 1)"
      unfolding counted_from_def using put_refs(1) [OF g g(2)] s1(3) by (metis (no_types, lifting))
    obtain s' where s': "retain_entries s1 t (i + 1) = ret s'" "placed s'" "arrays_only (E s1) (E s')"
        "\<And>a. inpage (E s) a \<Longrightarrow> tracked (E s') a = tracked (E s1) a \<and>
          refs (E s') a = refs (E s1) a + (if a = t then of_nat (counted_from (E s1) t (i + 1)) else 0) \<and>
          (\<forall>j < 512. at64 (E s') a j = at64 (E s1) a j)"
      using Suc.hyps(1) [OF n(1) s1(2) n(2)] unfolding p by blast
    have "arrays_only (E s) (E s')"
      using arrays_only_trans [OF _ s'(3)] arrays_only_put_refs [OF Suc.prems(1) t] s1(3) by metis
    moreover have "refs (E s1) a = (if a = t then refs (E s) t + 1 else refs (E s) a)"
        "tracked (E s1) a = tracked (E s) a" "\<And>j. j < 512 \<Longrightarrow> at64 (E s1) a j = at64 (E s) a j"
      if "inpage (E s) a" for a
      using put_refs [OF g] that s1(3) by simp_all
    ultimately show ?thesis using step s' cnt True c1 by (intro exI [of _ s']) (simp add: add.assoc)
  qed
qed

section \<open>Taking over the pages of the loader\<close>

text \<open>The \<open>n\<close>-th page of the loader's range, and whether the loader's bit field marks it.\<close>

definition lp :: "nat \<Rightarrow> u64" where
  "lp n = 0x100000 + of_nat (0x1000 * n)"

definition was :: "64 mem \<Rightarrow> u64 \<Rightarrow> nat \<Rightarrow> bool" where
  "was m oldTracking n \<longleftrightarrow> old_bit m oldTracking (of_nat (0x1000 * n))"

lemma unat_lp: "n < 256 \<Longrightarrow> unat (lp n) = 0x100000 + 0x1000 * n"
  unfolding lp_def using unat_of_nat_small [where ?'a = 64, of "0x1000 * n"] by (subst unat_add_small) simp_all

lemma lp_inj: "n < 256 \<Longrightarrow> k < 256 \<Longrightarrow> lp n = lp k \<longleftrightarrow> n = k"
  by (auto simp: word_unat_eq_iff unat_lp)

lemma loader_page_lp: "n < 256 \<Longrightarrow> loader_page (lp n)"
  by (simp add: loader_page_def and_fff_0 unat_lp word_le_nat_alt word_less_nat_alt)

lemma loader_pageE:
  assumes "loader_page t" obtains n where "n < 256" "t = lp n"
proof -
  have t: "4096 dvd unat t" "0x100000 \<le> unat t" "unat t < 0x200000"
    using assms by (simp_all add: loader_page_def and_fff_0 word_le_nat_alt word_less_nat_alt)
  then obtain k where k: "unat t = 4096 * k" by (auto elim: dvdE)
  then have "k - 256 < 256" "unat t = unat (lp (k - 256))" using t by (simp_all add: unat_lp)
  then show ?thesis using that [of "k - 256"] by (simp add: word_unat_eq_iff)
qed

lemma old_addr:
  assumes "n \<le> 256"
  shows "unat (of_nat (0x1000 * n) :: u32) = 0x1000 * n" "ucast (of_nat (0x1000 * n) :: u32) = (of_nat (0x1000 * n) :: u64)"
    "(of_nat (0x1000 * n) :: u32) + 0x1000 = of_nat (0x1000 * Suc n)"
proof -
  show u: "unat (of_nat (0x1000 * n) :: u32) = 0x1000 * n"
    using assms by (intro unat_of_nat_small) simp
  have "unat (of_nat (0x1000 * n) :: u64) = 0x1000 * n"
    using assms by (intro unat_of_nat_small) simp
  then show "ucast (of_nat (0x1000 * n) :: u32) = (of_nat (0x1000 * n) :: u64)"
    using u unat_ucast_32_64 [of "of_nat (0x1000 * n)"] by (simp only: word_unat_eq_iff)
  show "(of_nat (0x1000 * n) :: u32) + 0x1000 = of_nat (0x1000 * Suc n)" by simp
qed

lemma was_frame:
  assumes "n < 256" and "\<And>x. x \<in> region oldTracking 32 \<Longrightarrow> m x = m' x"
  shows "was m oldTracking n = was m' oldTracking n"
proof -
  have "unat (drop_bit 17 (of_nat (0x1000 * n) :: u32)) = n div 32"
    using old_addr(1) [of n] assms(1) div_mult_mult1 [of 4096 n 32] by (simp only: unat_shr) simp
  then have "unat (ucast (drop_bit 17 (of_nat (0x1000 * n) :: u32)) :: u64) = n div 32"
    by (simp only: unat_ucast_32_64)
  moreover have "n div 32 < 8" using assms(1) by simp
  ultimately have "region (oldTracking + 4 * ucast (drop_bit 17 (of_nat (0x1000 * n) :: u32))) 4 \<subseteq> region oldTracking 32"
    by (intro region_sub) (simp add: unat_word_ariths)
  then have "ld32 m (oldTracking + 4 * ucast (drop_bit 17 (of_nat (0x1000 * n) :: u32))) =
      ld32 m' (oldTracking + 4 * ucast (drop_bit 17 (of_nat (0x1000 * n) :: u32)))"
    using assms(2) by (intro c32.ld_cong) auto
  then show ?thesis by (simp only: was_def old_bit_def)
qed

text \<open>The pages from the \<open>n\<close>-th on that the bit field marks.\<close>

definition left_from :: "64 mem \<Rightarrow> u64 \<Rightarrow> nat \<Rightarrow> u64 \<Rightarrow> bool" where
  "left_from m oldTracking n a \<longleftrightarrow> (\<exists>k. n \<le> k \<and> k < 256 \<and> a = lp k \<and> was m oldTracking k)"

lemma left_from_step:
  assumes "n < 256"
  shows "left_from m T n a \<longleftrightarrow> (a = lp n \<and> was m T n) \<or> left_from m T (Suc n) a"
  unfolding left_from_def using assms by (metis Suc_leD Suc_leI le_neq_implies_less order_refl)

lemma left_from_cong:
  "(\<And>x. x \<in> region T 32 \<Longrightarrow> m x = m' x) \<Longrightarrow> left_from m T n a = left_from m' T n a"
  unfolding left_from_def using was_frame [of _ T m m'] by metis

lemma retain_loop_run:
  assumes T: "region T 32 \<inter> region 0x3FF000 0x660 = {}" and "n \<le> 256" and "placed s"
    and "\<And>a. left_from (mem s) T n a \<Longrightarrow> ms \<le> a"
  shows "\<exists>ms' s'. retain_loop s T 32 (of_nat (0x1000 * n)) ms = ret (ms', s') \<and> placed s' \<and> arrays_only (E s) (E s') \<and>
    (\<forall>a. inpage (E s) a \<longrightarrow> (tracked (E s') a \<longleftrightarrow> tracked (E s) a \<or> left_from (mem s) T n a) \<and>
       refs (E s') a = refs (E s) a + (if left_from (mem s) T n a then of_nat (entries (E s) a) else 0) \<and>
       (\<forall>j < 512. at64 (E s') a j = at64 (E s) a j)) \<and>
    (ms' = ms \<or> left_from (mem s) T n ms') \<and> (\<forall>a. left_from (mem s) T n a \<longrightarrow> a \<le> ms')"
  using assms(2-4)
proof (induction "256 - n" arbitrary: s n ms)
  case 0
  then have n: "n = 256" by simp
  have "\<not> left_from (mem s) T n a" for a by (simp add: left_from_def n)
  then show ?case using 0 n by (intro exI [of _ ms] exI [of _ s]) (simp add: retain_loop.simps)
next
  case (Suc k)
  then have n: "n < 256" and k: "k = 256 - Suc n" "Suc n \<le> 256" by simp_all
  have lt: "(of_nat (0x1000 * n) :: u64) < push_bit 17 (32 div 4)"
    using n unat_of_nat_small [where ?'a = 64, of "0x1000 * n"] by (simp add: word_less_nat_alt)
  note oa = old_addr [OF less_imp_le [OF n]]
  show ?case
  proof (cases "was (mem s) T n")
    case False
    then have step: "retain_loop s T 32 (of_nat (0x1000 * n)) ms = retain_loop s T 32 (of_nat (0x1000 * Suc n)) ms"
      using lt by (simp only: retain_loop.simps [of s T 32 "of_nat (0x1000 * n)"] was_def oa if_True if_False)
    have "left_from (mem s) T n a = left_from (mem s) T (Suc n) a" for a
      using left_from_step [OF n] False by simp
    then show ?thesis using Suc.hyps(1) [OF k Suc.prems(2), of ms] Suc.prems(3) unfolding step by simp
  next
    case True
    define t where "t = lp n"
    have t: "loader_page t" unfolding t_def by (rule loader_page_lp [OF n])
    have tw: "of_nat (0x1000 * n) + rstart (pagingRange s) = t"
      using Suc.prems(2) by (simp add: placed_def t_def lp_def)
    obtain s1 where s1: "pm_setAlloc s t = ret s1" "placed s1"
        "E s1 = put_tracking (E s) t (tracking_cell (E s) t OR PM_TRACKING_BIT (t - rstart (pagingRange (E s))))"
      using setAlloc_E [OF Suc.prems(2) t] by blast
    obtain s2 where s2: "retain_entries s1 t 0 = ret s2" "placed s2" "arrays_only (E s1) (E s2)"
        "\<And>a. inpage (E s1) a \<Longrightarrow> tracked (E s2) a = tracked (E s1) a \<and>
          refs (E s2) a = refs (E s1) a + (if a = t then of_nat (entries (E s1) t) else 0) \<and>
          (\<forall>j < 512. at64 (E s2) a j = at64 (E s1) a j)"
      using retain_entries_run [OF s1(2) t, of 0] by (auto simp: counted_from_0)
    define ms1 where "ms1 = (if t > ms then t else ms)"
    have step: "retain_loop s T 32 (of_nat (0x1000 * n)) ms = retain_loop s2 T 32 (of_nat (0x1000 * Suc n)) ms1"
      using lt True s1(1) s2(1)
      by (simp only: retain_loop.simps [of s T 32 "of_nat (0x1000 * n)"] was_def oa if_True tw Let_def bindR_simps ms1_def)
    note g = E_geom [OF Suc.prems(2)] conjunct2 [OF loader_page_inpage [OF Suc.prems(2) t]]
    have p: "inpage (E s1) a = inpage (E s) a" "inpage (E s2) a = inpage (E s) a" for a by (simp_all add: inpage_def)
    have ar: "arrays_only (E s) (E s2)"
      using arrays_only_trans [OF _ s2(3)] arrays_only_put_tracking [OF Suc.prems(2) t] s1(3) by metis
    have same: "mem s2 x = mem s x" if "x \<in> region T 32" for x using ar T that by (auto simp: arrays_only_def)
    have lf: "left_from (mem s2) T (Suc n) a = left_from (mem s) T (Suc n) a" for a
      using same by (rule left_from_cong)
    have st: "left_from (mem s) T n a \<longleftrightarrow> a = t \<or> left_from (mem s) T (Suc n) a" for a
      using left_from_step [OF n] True by (simp add: t_def)
    have nt: "\<not> left_from (mem s) T (Suc n) t" using n lp_inj by (auto simp: left_from_def t_def)
    have above: "t \<le> a" if "left_from (mem s) T (Suc n) a" for a
      using that n by (auto simp: left_from_def t_def word_le_nat_alt unat_lp)
    have f1: "tracked (E s2) a \<longleftrightarrow> a = t \<or> tracked (E s) a"
        "refs (E s2) a = refs (E s) a + (if a = t then of_nat (entries (E s) t) else 0)"
        "entries (E s2) a = entries (E s) a"
        "\<And>j. j < 512 \<Longrightarrow> at64 (E s2) a j = at64 (E s) a j" if a: "inpage (E s) a" for a
    proof -
      note q = put_tracking [OF g, folded s1(3)] and r = s2(4) [unfolded p, OF a]
      have e: "entries (E s1) b = entries (E s) b" if "inpage (E s) b" for b
        using that put_tracking(1) [OF g] s1(3) by (intro entries_cong) simp
      show "tracked (E s2) a \<longleftrightarrow> a = t \<or> tracked (E s) a" using r tracked_set [OF g a] s1(3) by simp
      show "refs (E s2) a = refs (E s) a + (if a = t then of_nat (entries (E s) t) else 0)"
        using r put_tracking(2) [OF g a] s1(3) e [OF g(2)] by simp
      show at: "\<And>j. j < 512 \<Longrightarrow> at64 (E s2) a j = at64 (E s) a j"
        using r put_tracking(1) [OF g a] s1(3) by simp
      show "entries (E s2) a = entries (E s) a" by (rule entries_cong) (rule at)
    qed
    have "ms1 \<le> a" if "left_from (mem s2) T (Suc n) a" for a
      using that above Suc.prems(3) by (simp add: lf st ms1_def)
    then obtain ms' s' where s': "retain_loop s2 T 32 (of_nat (0x1000 * Suc n)) ms1 = ret (ms', s')" "placed s'"
        "arrays_only (E s2) (E s')"
        "\<And>a. inpage (E s) a \<Longrightarrow> (tracked (E s') a \<longleftrightarrow> tracked (E s2) a \<or> left_from (mem s) T (Suc n) a) \<and>
          refs (E s') a = refs (E s2) a + (if left_from (mem s) T (Suc n) a then of_nat (entries (E s2) a) else 0) \<and>
          (\<forall>j < 512. at64 (E s') a j = at64 (E s2) a j)"
        "ms' = ms1 \<or> left_from (mem s) T (Suc n) ms'" "\<And>a. left_from (mem s) T (Suc n) a \<Longrightarrow> a \<le> ms'"
      using Suc.hyps(1) [OF k s2(2), of ms1] unfolding lf p by blast
    have "arrays_only (E s) (E s')" using ar s'(3) by (rule arrays_only_trans)
    moreover have "ms' = ms \<or> left_from (mem s) T n ms'" using s'(5) by (auto simp: st ms1_def)
    moreover have "a \<le> ms'" if "left_from (mem s) T n a" for a
    proof -
      have "ms1 \<le> ms'" using s'(5) Suc.prems(3) [of ms'] above [of ms'] by (auto simp: ms1_def st)
      then have "t \<le> ms'" by (simp add: ms1_def split: if_splits)
      then show ?thesis using that s'(6) by (auto simp: st)
    qed
    ultimately show ?thesis using step s' f1 nt st by (intro exI [of _ ms'] exI [of _ s']) (auto simp: add.assoc)
  qed
qed

section \<open>dumpAlloc\<close>

lemma pm_dumpAlloc_loop_run:
  assumes "geom s" and "inpage s i \<or> i = rend (pagingRange s)"
  shows "\<exists>rows. pm_dumpAlloc_loop s i = Some rows \<and>
    (\<lambda>(idx, b, a). a) ` set rows = {a. inpage s a \<and> i \<le> a \<and> tracked s a}"
  using assms
proof (induction "unat (rend (pagingRange s)) - unat i" arbitrary: i rule: less_induct)
  case less
  show ?case
  proof (cases "inpage s i")
    case False
    then have "pm_dumpAlloc_loop s i = Some []" "{a. inpage s a \<and> i \<le> a \<and> tracked s a} = {}"
      using less.prems by (auto simp: pm_dumpAlloc_loop.simps [of s i] inpage_def)
    then show ?thesis by simp
  next
    case True
    then have lt: "i < rend (pagingRange s)" by (simp add: inpage_def)
    note nx = next_page [OF assms(1) True]
    have "unat (rend (pagingRange s)) - unat (i + 0x1000) < unat (rend (pagingRange s)) - unat i"
      using nx(1) lt by (simp add: word_less_nat_alt)
    from less.hyps [OF this assms(1) nx(2)] obtain rows where
      rows: "pm_dumpAlloc_loop s (i + 0x1000) = Some rows"
        "(\<lambda>(idx, b, a). a) ` set rows = {a. inpage s a \<and> i + 0x1000 \<le> a \<and> tracked s a}" by blast
    have ge: "i \<le> a" if "i + 0x1000 \<le> a" for a using that nx(1) by (simp add: word_le_nat_alt)
    have "{a. inpage s a \<and> i \<le> a \<and> tracked s a} =
        (if tracked s i then {i} else {}) \<union> {a. inpage s a \<and> i + 0x1000 \<le> a \<and> tracked s a}"
      using nx(3) ge True by auto
    then show ?thesis using rows lt
      by (simp add: pm_dumpAlloc_loop.simps [of s i] tracked_def Let_def)
  qed
qed

lemma pm_dumpAlloc_run:
  assumes "geom s"
  shows "\<exists>rows. pm_dumpAlloc s = Some rows \<and> (\<lambda>(idx, b, a). a) ` set rows = {a. inpage s a \<and> tracked s a}"
proof -
  have "inpage s (rstart (pagingRange s)) \<or> rstart (pagingRange s) = rend (pagingRange s)"
    using assms by (auto simp: geom_def inpage_def)
  from pm_dumpAlloc_loop_run [OF assms this] show ?thesis by (simp add: pm_dumpAlloc_def inpage_def conj_ac)
qed

section \<open>retainLoaderPaging\<close>

text \<open>
  What the loader leaves: its range and bit field in \<open>LoaderData\<close>, the bit field away from where
  the kernel puts its own, and tables rooted in the first page of the range that form a tree over
  marked pages.
\<close>

definition loader_left :: "pmst \<Rightarrow> LoaderData \<Rightarrow> (u64 \<Rightarrow> role) \<Rightarrow> bool" where
  "loader_left s d \<rho> \<longleftrightarrow>
     loaderPagingBase d = 0x100000 \<and> loaderPagingSize d = 0x100000 \<and>
     region (ucast (loaderPagingTracking d) :: u64) 32 \<inter> region 0x3FF000 0x660 = {} \<and>
     (\<forall>t. \<rho> t \<noteq> NoRole \<longrightarrow> left_from (mem s) (ucast (loaderPagingTracking d)) 0 t) \<and>
     (\<forall>t. \<rho> t = Root \<longleftrightarrow> t = 0x100000) \<and>
     (\<forall>t i. \<rho> t = PdptOf i \<longleftrightarrow> i < 512 \<and> link s 0x100000 i = Some t) \<and>
     (\<forall>t i j. \<rho> t = PdOf i j \<longleftrightarrow> j < 512 \<and> (\<exists>q. \<rho> q = PdptOf i \<and> link s q j = Some t))"

lemma retain_place_run:
  assumes "loaderPagingBase d = 0x100000" and "loaderPagingSize d = 0x100000"
  shows "\<exists>s1. retain_place s d = (s1, 32) \<and> placed s1 \<and> (\<forall>x. x \<notin> region 0x3FF000 0x660 \<longrightarrow> mem s1 x = mem s x) \<and>
    (\<forall>a. inpage (E s1) a \<longrightarrow> \<not> tracked (E s1) a \<and> refs (E s1) a = 0)"
proof -
  define s1 where "s1 = s\<lparr>mem := memset (memset (mem s) 0x3FF000 0 96) 0x3FF060 0 1536,
     pagingRange := \<lparr>rstart = 0x100000, rend = 0x200000\<rparr>, trackingStructure := 0x3FF000,
     refcountStructure := 0x3FF060, refcountSize := 1536\<rparr>"
  have pl: "placed s1" by (simp add: placed_def s1_def)
  have z: "mem s1 x = 0" if "x \<in> region 0x3FF000 96 \<or> x \<in> region 0x3FF060 1536" for x
    using that by (auto simp: s1_def memset_apply)
  have "retain_place s d = (s1, 32)"
    using assms by (simp add: retain_place_def s1_def Let_def KERNEL_LOCATION_def)
  moreover have "mem s1 x = mem s x" if "x \<notin> region 0x3FF000 0x660" for x
  proof -
    have "x \<notin> region 0x3FF000 96" "x \<notin> region 0x3FF060 1536" using that array_regions by auto
    then show ?thesis by (simp add: s1_def memset_apply)
  qed
  moreover have "\<not> tracked (E s1) a \<and> refs (E s1) a = 0" if a: "inpage (E s1) a" for a
  proof
    have "ld64 (mem s1) (elem 0x3FF000 8 (unat (PM_TRACKING_INDEX (a - 0x100000)))) = 0"
      using tracking_index_sub [OF E_geom [OF pl] a, of "0x3FF000"] unfolding ld64_def
      by (intro rd_zero z) (auto simp: E_sizes)
    then show "\<not> tracked (E s1) a" using pl by (simp add: tracked_def at64_def elem_word placed_def)
    have "ld16 (mem s1) (elem 0x3FF060 2 (unat (PM_REFCOUNT_INDEX (a - 0x100000)))) = 0"
      using refcount_index_sub [OF E_geom [OF pl] a, of "0x3FF060"] unfolding ld16_def
      by (intro rd_zero z) (auto simp: E_sizes)
    then show "refs (E s1) a = 0" using pl by (simp add: refs_def at16_def elem_word placed_def)
  qed
  ultimately show ?thesis using pl by blast
qed

text \<open>Clearing everything behind the last page in use.\<close>

definition clear_above :: "pmst \<Rightarrow> u64 \<Rightarrow> pmst" where
  "clear_above s ms = (E s)\<lparr>mem := memset (mem s) (ms + 0x1000) 0 (0x3FF000 - (ms + 0x1000))\<rparr>"

lemma clear_above_mem:
  assumes "unat ms < 0x200000"
  shows "mem (clear_above s ms) x =
    (if unat ms + 0x1000 \<le> unat x \<and> unat x < 0x3FF000 then 0 else mem s x)"
proof -
  have u: "unat (ms + 0x1000) = unat ms + 0x1000" using assms by (subst unat_add_small) simp_all
  then have l: "unat (0x3FF000 - (ms + 0x1000)) = 0x3FF000 - (unat ms + 0x1000)"
    using assms by (subst unat_sub_ge) simp_all
  have "x \<in> region (ms + 0x1000) (unat (0x3FF000 - (ms + 0x1000))) \<longleftrightarrow>
      unat ms + 0x1000 \<le> unat x \<and> unat x < 0x3FF000"
    using assms u l by (subst in_region_nat) auto
  then show ?thesis by (simp add: clear_above_def memset_apply)
qed

lemma only_mem_clear_above: "only_mem (E s) (clear_above s ms)"
  by (simp add: clear_above_def)

lemma clear_above_pages:
  assumes pl: "placed s" and ms: "loader_page ms" and a: "inpage (E s) a"
  shows "tracked (clear_above s ms) a = tracked (E s) a" and "refs (clear_above s ms) a = refs (E s) a"
    and "i < 512 \<Longrightarrow> a \<le> ms \<Longrightarrow> at64 (clear_above s ms) a i = at64 (E s) a i"
proof -
  have m: "unat ms < 0x200000" using ms by (simp add: loader_page_def word_less_nat_alt)
  note f = clear_above_mem [OF m, of s]
  have "mem (E s) x = mem (clear_above s ms) x" if "x \<in> region 0x3FF000 0x660" for x
    using that by (simp add: f in_region_nat)
  then have e: "\<And>x. x \<in> region 0x3FF000 96 \<Longrightarrow> mem (E s) x = mem (clear_above s ms) x"
    "\<And>x. x \<in> region 0x3FF060 1536 \<Longrightarrow> mem (E s) x = mem (clear_above s ms) x"
    using array_regions by blast+
  show "tracked (clear_above s ms) a = tracked (E s) a"
    using pl e(1) by (intro tracked_frame E_geom a only_mem_clear_above) (simp_all add: E_sizes placed_def)
  show "refs (clear_above s ms) a = refs (E s) a"
    using pl e(2) by (intro refs_frame E_geom a only_mem_clear_above) (simp_all add: E_sizes placed_def)
  show "at64 (clear_above s ms) a i = at64 (E s) a i" if i: "i < 512" and le: "a \<le> ms"
  proof -
    have "x \<in> region a 4096 \<Longrightarrow> unat x < unat ms + 0x1000" for x
      using le m by (simp add: in_region_nat word_le_nat_alt)
    then have "mem (clear_above s ms) x = mem s x" if "x \<in> region (elem a 8 (unat i)) 8" for x
      using that page_entry_sub [OF i, of a] unfolding f by force
    then show ?thesis unfolding at64_def elem_word E_simps by (intro c64.ld_cong)
  qed
qed

lemma set_roots [simp]:
  "mem (s\<lparr>kernelPml4 := a, currentPml4 := b\<rparr>) = mem s" "at64 (s\<lparr>kernelPml4 := a, currentPml4 := b\<rparr>) t i = at64 s t i"
  "inpage (s\<lparr>kernelPml4 := a, currentPml4 := b\<rparr>) t = inpage s t" "tracked (s\<lparr>kernelPml4 := a, currentPml4 := b\<rparr>) t = tracked s t"
  "refs (s\<lparr>kernelPml4 := a, currentPml4 := b\<rparr>) t = refs s t" "link (s\<lparr>kernelPml4 := a, currentPml4 := b\<rparr>) t i = link s t i"
  "entries (s\<lparr>kernelPml4 := a, currentPml4 := b\<rparr>) t = entries s t" "geom (s\<lparr>kernelPml4 := a, currentPml4 := b\<rparr>) = geom s"
  by (simp_all add: at64_def at16_def inpage_def tracked_def refs_def link_def entries_def geom_def
      range_size_def tracking_bytes_def refcount_bytes_def)

lemma leaf_set_roots [simp]: "leaf (s\<lparr>kernelPml4 := a, currentPml4 := b\<rparr>) p i j k = leaf s p i j k"
  by (simp add: leaf_def cong: if_cong)

lemma retain_finish_run:
  assumes pl: "placed s" and ms: "loader_page ms"
  shows "retain_finish s ms = ret ((clear_above s ms)\<lparr>kernelPml4 := 0x100000, currentPml4 := 0x100000\<rparr>)"
proof -
  obtain rows where rows: "pm_dumpAlloc (E s) = Some rows" using pm_dumpAlloc_run [OF E_geom [OF pl]] by blast
  have "ms \<noteq> 0x3FF000" using ms by (auto simp: loader_page_def)
  moreover have "(0x3FF000 :: u64) AND NOT 0xFFF = 0x3FF000" by simp
  ultimately show ?thesis using pl rows [unfolded E_def final_range_def]
    by (simp add: retain_finish_def retain_cleanup_def Let_def placed_def E_def clear_above_def final_range_def)
qed

lemma left_loader_page: "left_from m T n a \<Longrightarrow> loader_page a"
  by (auto simp: left_from_def loader_page_lp)

lemma retain_run:
  fixes s :: pmst and ld :: u64
  assumes left: "loader_left s (read_LoaderData (mem s) ld) \<rho>"
  defines "T \<equiv> ucast (loaderPagingTracking (read_LoaderData (mem s) ld))"
  shows "\<exists>s' ms. pm_retainLoaderPaging s ld = ret s' \<and> pagingRange s' = final_range \<and>
    kernelPml4 s' = 0x100000 \<and> currentPml4 s' = 0x100000 \<and> trackingStructure s' = 0x3FF000 \<and>
    refcountStructure s' = 0x3FF060 \<and> pt_ok s' 0x100000 \<and>
    (\<forall>a. inpage s' a \<longrightarrow> tracked s' a = left_from (mem s) T 0 a) \<and>
    (\<forall>v. canonical v \<longrightarrow> pml4_get s' 0x100000 v = pml4_get s 0x100000 v) \<and>
    loader_page ms \<and> (\<exists>s2. retain_take s ld = ret (ms, s2) \<and> trackingStructure s2 = 0x3FF000) \<and>
    (\<forall>a. left_from (mem s) T 0 a \<longrightarrow> a \<le> ms) \<and>
    (\<forall>x. mem s' x = 0 \<or> \<not> (unat ms + 0x1000 \<le> unat x \<and> unat x < 0x3FF000)) \<and>
    (\<forall>x. unat x < unat ms + 0x1000 \<or> 0x400000 \<le> unat x \<longrightarrow> mem s' x = mem s x)"
proof -
  note l = left [unfolded loader_left_def]
  obtain s1 where s1: "retain_place s (read_LoaderData (mem s) ld) = (s1, 32)" "placed s1"
      "\<And>x. x \<notin> region 0x3FF000 0x660 \<Longrightarrow> mem s1 x = mem s x"
      "\<And>a. inpage (E s1) a \<Longrightarrow> \<not> tracked (E s1) a \<and> refs (E s1) a = 0"
    using retain_place_run [of "read_LoaderData (mem s) ld" s] l by blast
  have T: "region T 32 \<inter> region 0x3FF000 0x660 = {}" using l by (simp add: T_def)
  have lf: "left_from (mem s1) T 0 a = left_from (mem s) T 0 a" for a
    using T s1(3) by (intro left_from_cong) auto
  from retain_loop_run [OF T _ s1(2), of 0 0] obtain ms s2 where
    s2: "retain_loop s1 T 32 0 0 = ret (ms, s2)" "placed s2" "arrays_only (E s1) (E s2)"
      "\<And>a. inpage (E s1) a \<Longrightarrow> (tracked (E s2) a \<longleftrightarrow> tracked (E s1) a \<or> left_from (mem s) T 0 a) \<and>
         refs (E s2) a = refs (E s1) a + (if left_from (mem s) T 0 a then of_nat (entries (E s1) a) else 0) \<and>
         (\<forall>j < 512. at64 (E s2) a j = at64 (E s1) a j)"
      "ms = 0 \<or> left_from (mem s) T 0 ms" "\<And>a. left_from (mem s) T 0 a \<Longrightarrow> a \<le> ms"
    unfolding lf by auto
  have in_tree: "left_from (mem s) T 0 t" if "\<rho> t \<noteq> NoRole" for t using l that unfolding T_def by blast
  have "\<rho> 0x100000 = Root" using l by blast
  then have "left_from (mem s) T 0 0x100000" by (intro in_tree) simp
  then have "0x100000 \<le> ms" using s2(6) by blast
  then have ms: "loader_page ms" using s2(5) left_loader_page by auto
  then have m: "unat ms < 0x200000" by (simp add: loader_page_def word_less_nat_alt)
  define G where "G = clear_above s2 ms"
  define s' where "s' = G\<lparr>kernelPml4 := 0x100000, currentPml4 := 0x100000\<rparr>"
  have tk: "retain_take s ld = ret (ms, s2)" "trackingStructure s2 = 0x3FF000"
    using s1(1) s2(1,2) by (simp_all add: retain_take_def Let_def T_def placed_def)
  have run: "pm_retainLoaderPaging s ld = ret s'"
    using tk(1) retain_finish_run [OF s2(2) ms] by (simp add: pm_retainLoaderPaging_def s'_def G_def)
  note om = only_mem_clear_above [of s2 ms, folded G_def]
  have p: "inpage G a = inpage (E s2) a" "inpage (E s1) a = inpage (E s2) a" for a
    using only_mem_inpage [OF om] by (simp_all add: inpage_def)
  note c = clear_above_pages [OF s2(2) ms, folded G_def]
  have outside: "mem s2 x = mem s x" if "x \<notin> region 0x3FF000 0x660" for x
    using s2(3) s1(3) that by (auto simp: arrays_only_def)
  have at: "at64 G a j = at64 s a j" if a: "left_from (mem s) T 0 a" and j: "j < 512" for a j
  proof -
    have lp: "inpage (E s2) a" using loader_page_inpage [OF s2(2) left_loader_page [OF a]] by simp
    have "unat a + 4096 \<le> unat (0x3FF000 :: u64)"
      using left_loader_page [OF a] by (simp add: loader_page_def word_less_nat_alt)
    then have "region a 4096 \<inter> region 0x3FF000 0x660 = {}" by (intro region_disjoint_nat) simp_all
    then have "at64 (E s2) a j = at64 s a j"
      using page_entry_sub [OF j, of a] outside unfolding at64_def elem_word E_simps
      by (intro c64.ld_cong) blast
    then show ?thesis using c(3) [OF lp j s2(6) [OF a]] by simp
  qed
  have lk: "link G t i = link s t i" if "\<rho> t \<noteq> NoRole" "i < 512" for t i
    using at [OF in_tree [OF that(1)] that(2)] by (simp add: link_def)
  have facts: "tracked G a = left_from (mem s) T 0 a"
      "refs G a = (if left_from (mem s) T 0 a then of_nat (entries (E s1) a) else 0)" if "inpage G a" for a
    using that c(1,2) [of a] s2(4) [of a] s1(4) [of a] by (simp_all add: p)
  have tree: "tree G 0x100000 \<rho>" unfolding tree_def
  proof (intro conjI allI impI)
    fix t assume "\<rho> t \<noteq> NoRole"
    then have t: "left_from (mem s) T 0 t" by (rule in_tree)
    then show "inpage G t" using loader_page_inpage [OF s2(2) left_loader_page] p by blast
    then show "tracked G t" using facts t by simp
  next
    fix t show "(\<rho> t = Root) = (t = 0x100000)" using l by blast
  next
    fix t i show "(\<rho> t = PdptOf i) = (i < 512 \<and> link G 0x100000 i = Some t)"
      using l lk [of "0x100000" i] \<open>\<rho> 0x100000 = Root\<close> by auto
  next
    fix t i j show "(\<rho> t = PdOf i j) = (j < 512 \<and> (\<exists>q. \<rho> q = PdptOf i \<and> link G q j = Some t))"
      using l lk [of _ j] by (metis role.distinct(3))
  qed
  have "entries (E s1) a = entries G a" if a: "left_from (mem s) T 0 a" for a
  proof (rule entries_cong)
    fix k :: u64 assume k: "k < 512"
    have lp: "inpage (E s2) a" using loader_page_inpage [OF s2(2) left_loader_page [OF a]] by simp
    show "at64 (E s1) a k = at64 G a k"
      using s2(4) [of a] p lp k c(3) [OF lp k s2(6) [OF a]] by simp
  qed
  then have "counted G \<rho>" unfolding counted_def using facts in_tree tree_inpage [OF tree] by auto
  then have "pt_ok G 0x100000" using tree only_mem_geom [OF om] E_geom [OF s2(2)] by (auto simp: pt_ok_def)
  then have ok: "pt_ok s' 0x100000" by (simp add: pt_ok_def s'_def tree_def counted_def)
  have get: "pml4_get s' 0x100000 v = pml4_get s 0x100000 v" if "canonical v" for v
  proof -
    have "leaf s 0x100000 (pml4_index v) (pdpt_index v) (pd_index v) =
        leaf G 0x100000 (pml4_index v) (pdpt_index v) (pd_index v)"
      using that at in_tree by (intro leaf_cong [OF tree]) (auto simp: canonical_def pml4_index_bound)
    then show ?thesis by (simp add: pml4_get_leaf s'_def)
  qed
  have mem: "mem s' x = (if unat ms + 0x1000 \<le> unat x \<and> unat x < 0x3FF000 then 0 else mem s2 x)" for x
    using clear_above_mem [OF m, of s2 x] by (simp add: s'_def G_def)
  have "x \<notin> region 0x3FF000 0x660" if "unat x < 0x3FF000 \<or> 0x400000 \<le> unat x" for x :: u64
    using that by (subst in_region_nat) auto
  then have "mem s' x = mem s x" if "unat x < unat ms + 0x1000 \<or> 0x400000 \<le> unat x" for x
    using that m outside [of x] by (auto simp: mem)
  moreover have "pagingRange s' = final_range" by (simp add: s'_def G_def clear_above_def E_def)
  moreover have "kernelPml4 s' = 0x100000" "currentPml4 s' = 0x100000" "trackingStructure s' = 0x3FF000"
    "refcountStructure s' = 0x3FF060"
    using s2(2) by (simp_all add: s'_def G_def clear_above_def placed_def)
  moreover have "tracked s' a = left_from (mem s) T 0 a" if "inpage s' a" for a
    using that facts by (simp add: s'_def)
  ultimately show ?thesis using run ok get ms s2(6) mem tk
    by (intro exI [of _ s'] exI [of _ ms]) auto
qed

text \<open>
  C7. \<open>retainLoaderPaging\<close> returns for every state a loader can leave (\<open>loader_left\<close>) and sets up
  the layout of the kernel: the range up to the bit field at 0x3FF000, the root in the first page,
  well-formed tables with counters equal to the numbers of entries, exactly the pages marked that
  the loader had marked, and every address translated as before.
\<close>

theorem retain_establishes:
  assumes "loader_left s (read_LoaderData (mem s) ld) \<rho>"
  shows "\<exists>s'. pm_retainLoaderPaging s ld = ret s' \<and>
    pagingRange s' = \<lparr>rstart = 0x100000, rend = 0x3FF000\<rparr> \<and> pm_kernel s' = 0x100000 \<and> pm_current s' = 0x100000 \<and>
    pt_ok s' 0x100000 \<and>
    (\<forall>a. inpage s' a \<longrightarrow> tracked s' a = left_from (mem s) (ucast (loaderPagingTracking (read_LoaderData (mem s) ld))) 0 a) \<and>
    (\<forall>v. canonical v \<longrightarrow> pml4_get s' 0x100000 v = pml4_get s 0x100000 v)"
  using retain_run [OF assms] by (auto simp: final_range_def pm_kernel_def pm_current_def)

section \<open>A loader that left only a root\<close>

definition left_mem :: "64 mem" where
  "left_mem = (\<lambda>_. 0)(0x210000 := 0x07, 0x210001 := 0xD0, 0x210002 := 0x0A, 0x210003 := 0x31, 0x210006 := 0x10,
     0x21000A := 0x10, 0x21000C := 0x40, 0x21000E := 0x21, 0x210014 := 0x6D, 0x210040 := 1)"

definition left_state :: pmst where
  "left_state = \<lparr>mem = left_mem, pagingRange = \<lparr>rstart = 0, rend = 0\<rparr>, trackingStructure = 0,
     refcountStructure = 0, refcountSize = 0, kernelPml4 = 0, currentPml4 = 0\<rparr>"

lemma left_data:
  "read_LoaderData left_mem 0x210000 = \<lparr>loaderMagic = LOADER_MAGIC, loaderPagingBase = 0x100000,
     loaderPagingSize = 0x100000, loaderPagingTracking = 0x210040, multibootInfo = 0, checksum = 0x6D\<rparr>"
  by (simp add: read_LoaderData_def left_mem_def ld32_def rd_numeral LOADER_MAGIC_def)

lemma left_was: "was left_mem 0x210040 0"
  by (simp add: was_def old_bit_def left_mem_def ld32_def rd_numeral)

lemma left_entry: "i < 512 \<Longrightarrow> at64 left_state 0x100000 i = 0"
proof -
  assume i: "i < 512"
  have "left_mem x = 0" if "x \<in> region 0x100000 4096" for x
    using that by (auto simp: left_mem_def in_region_nat)
  then show ?thesis using page_entry_sub [OF i, of "0x100000"]
    unfolding at64_def elem_word ld64_def left_state_def by (intro rd_zero) auto
qed

lemma left_ok:
  "loader_left left_state (read_LoaderData (mem left_state) 0x210000) (\<lambda>t. if t = 0x100000 then Root else NoRole)"
proof -
  have d: "region (0x210040 :: u64) 32 \<inter> region 0x3FF000 0x660 = {}" by (rule region_disjoint_nat) simp_all
  have "left_from left_mem 0x210040 0 0x100000"
    using left_was by (auto simp: left_from_def lp_def intro!: exI [of _ 0])
  moreover have "link left_state 0x100000 i = None" if "i < 512" for i
    using that by (simp add: link_def left_entry)
  moreover have "mem left_state = left_mem" by (simp add: left_state_def)
  ultimately show ?thesis using d by (auto simp: loader_left_def left_data)
qed

theorem retain_establishes_witness:
  "\<exists>s'. pm_retainLoaderPaging left_state 0x210000 = ret s' \<and> pt_ok s' 0x100000"
  using retain_establishes [OF left_ok] by blast

end
