(* ===== verification/KernelStart.thy ===== *)
theory KernelStart
  imports KernelBootProps MemRuns
begin

text \<open>
  The whole start of the kernel: the listing \<open>Pml4::dump\<close> prints, \<open>heap::init\<close> on top of
  \<open>mm::alloc\<close>, and \<open>kernel_main\<close> from what the loader left to its endless loop.
\<close>

unbundle bit_operations_syntax

section \<open>Pml4::dump\<close>

lemma set_indices: "set indices = {i. i < 512}"
proof -
  have "i \<in> of_nat ` {0..<512}" if "i < 512" for i :: u64
    using that by (intro image_eqI [of _ _ "unat i"]) (simp_all add: word_less_nat_alt)
  moreover have "(of_nat n :: u64) < 512" if "n < 512" for n
    using that by (simp add: word_less_nat_alt unat_of_nat_small)
  ultimately show ?thesis by (auto simp: indices_def)
qed

text \<open>An address of a page is the three indices put together.\<close>

definition page_of :: "u64 \<Rightarrow> u64 \<Rightarrow> u64 \<Rightarrow> u64" where
  "page_of i j k = push_bit 39 i OR push_bit 30 j OR push_bit 21 k"

lemma high_bits: "unat i < 2 ^ m \<Longrightarrow> m \<le> n \<Longrightarrow> \<not> bit i n" for i :: u64
proof -
  assume i: "unat i < 2 ^ m" and n: "m \<le> n"
  have "(2::nat) ^ m \<le> 2 ^ n" using n by (rule power_increasing) simp
  then have "unat i < 2 ^ n" using i by (rule order_less_le_trans [rotated])
  then have "unat (drop_bit n i) = 0" by (simp only: unat_shr div_less)
  then show ?thesis by (simp add: bit_iff_odd_drop_bit unat_eq_0)
qed

lemma page_of_indices:
  assumes "i < 512" and "j < 512" and "k < 512"
  shows "pml4_index (page_of i j k) = i" "pdpt_index (page_of i j k) = j" "pd_index (page_of i j k) = k"
    "vpage (page_of i j k)"
proof -
  have hb: "9 \<le> n \<Longrightarrow> \<not> bit i n" "9 \<le> n \<Longrightarrow> \<not> bit j n" "9 \<le> n \<Longrightarrow> \<not> bit k n" for n
    using high_bits [of i 9 n] high_bits [of j 9 n] high_bits [of k 9 n] assms by (simp_all add: word_less_nat_alt)
  have lt: "bit i n \<Longrightarrow> n < 9" "bit j n \<Longrightarrow> n < 9" "bit k n \<Longrightarrow> n < 9" for n
    using hb [of n] by (meson not_le)+
  show "pml4_index (page_of i j k) = i"
    by (rule bit_word_eqI) (use hb in \<open>auto simp: pml4_index_def page_of_def bit_simps dest: lt\<close>)
  show "pdpt_index (page_of i j k) = j"
    by (rule bit_word_eqI) (use hb in \<open>auto simp: pdpt_index_def page_of_def mask_literals bit_simps not_le dest: lt\<close>)
  show "pd_index (page_of i j k) = k"
    by (rule bit_word_eqI) (use hb in \<open>auto simp: pd_index_def page_of_def mask_literals bit_simps not_le dest: lt\<close>)
  have "page_of i j k AND 0x1FFFFF = 0"
    by (rule bit_word_eqI) (auto simp: page_of_def mask_literals bit_simps)
  moreover have "drop_bit 48 (page_of i j k) = 0"
    by (rule bit_word_eqI) (use hb in \<open>auto simp: page_of_def bit_simps\<close>)
  then have "unat (page_of i j k) div 2 ^ 48 = 0" by (metis unat_shr unat_0)
  then have "canonical (page_of i j k)" by (simp add: canonical_def word_less_nat_alt div_eq_0_iff)
  ultimately show "vpage (page_of i j k)" by (simp add: vpage_def)
qed

lemma page_of_eq: "vpage v \<Longrightarrow> page_of (pml4_index v) (pdpt_index v) (pd_index v) = v"
proof -
  assume "vpage v"
  then have v: "v AND 0x1FFFFF = 0" by (simp add: vpage_def)
  have lo: "\<not> bit v n" if "n < 21" for n
    using v that by (auto simp: mask_literals bit_simps dest: arg_cong [of "v AND mask 21" _ "\<lambda>w. bit w n"])
  show ?thesis
  proof (rule bit_word_eqI)
    fix n assume "n < LENGTH(64)"
    then show "bit (page_of (pml4_index v) (pdpt_index v) (pd_index v)) n = bit v n"
      using lo [of n] by (cases "n < 21"; cases "n < 30"; cases "n < 39")
        (auto simp: page_of_def pml4_index_def pdpt_index_def pd_index_def mask_literals bit_simps not_less)
  qed
qed

lemma pml4_dump_pages:
  "fst ` set (pml4_dump s p) = {v. vpage v \<and> pml4_get s p v \<noteq> None}"
proof -
  have "fst ` set (pml4_dump s p) = {page_of i j k | i j k. i < 512 \<and> j < 512 \<and> k < 512 \<and> leaf s p i j k \<noteq> None}"
    by (fastforce simp: pml4_dump_def dump_pdpt_def dump_pd_def leaf_def link_def page_of_def set_indices Let_def
      image_iff split: if_splits)
  also have "\<dots> = {v. vpage v \<and> pml4_get s p v \<noteq> None}"
  proof (intro set_eqI iffI; clarsimp)
    fix i j k e assume a: "i < 512" "j < 512" "k < 512" "leaf s p i j k = Some e"
    then show "vpage (page_of i j k) \<and> (\<exists>y. pml4_get s p (page_of i j k) = Some y)"
      using page_of_indices [OF a(1-3)] by (simp add: pml4_get_leaf)
  next
    fix v y assume a: "vpage v" "pml4_get s p v = Some y"
    then have "\<exists>e. leaf s p (pml4_index v) (pdpt_index v) (pd_index v) = Some e" by (auto simp: pml4_get_leaf)
    moreover have "pml4_index v < 512" using a(1) by (simp add: vpage_def canonical_def pml4_index_bound)
    ultimately show "\<exists>i j k. v = page_of i j k \<and> i < 512 \<and> j < 512 \<and> k < 512 \<and> (\<exists>y. leaf s p i j k = Some y)"
      using page_of_eq [OF a(1)] index_bounds by metis
  qed
  finally show ?thesis .
qed

section \<open>heap::init\<close>

definition heap_frames :: "u64 list" where
  "heap_frames = (replicate 4096 0)[0 := 0x7FFF8]"

lemma first_frames:
  "\<exists>ps. allocPhysicalPages (replicate 4096 0) 16 = (mk_result 0, ps, heap_frames)"
  by (simp add: allocPhysicalPages_def allocPhysicalPages_loop.simps PHYS_SIZE_def phys_index_def
      phys_bit_def int_one_shl_def heap_frames_def)

lemma kernel_heap_alloc:
  assumes ok: "mm_ok s p" and tr: "physicalTracking s = replicate 4096 0"
    and room: "32 \<le> card (free_pages (paging s))" and fr: "range_free (paging s) p 16 0x80000000"
  shows "\<exists>s'. mm_alloc s p 16 AF_RW = ret (Some 0x80000000, s') \<and> mm_ok s' p \<and> pt_only (paging s) (paging s') \<and>
    physicalTracking s' = heap_frames \<and> card (free_pages (paging s)) \<le> card (free_pages (paging s')) + 32 \<and>
    (\<forall>x. canonical x \<longrightarrow> (\<forall>i<16. frame_addr x \<noteq> page_at 0x80000000 i) \<longrightarrow>
       pml4_get (paging s') p x = pml4_get (paging s) p x) \<and>
    (\<forall>i<16. pml4_get (paging s') p (page_at 0x80000000 i) \<noteq> None)"
proof -
  have n: "0 < unat (16 :: u64)" "unat (16 :: u64) \<le> 32" by simp_all
  have f: "List.find (range_free (paging s) p (unat (16 :: u64))) candidates = Some 0x80000000"
    using fr by (simp add: candidates_first)
  obtain ps where ps: "allocPhysicalPages (physicalTracking s) 16 = (mk_result 0, ps, heap_frames)"
    using first_frames tr by auto
  have rm: "2 * unat (16 :: u64) \<le> card (free_pages (paging s))" using room by simp
  obtain s' where s': "mm_alloc s p 16 AF_RW = ret (Some 0x80000000, s')" "physicalTracking s' = heap_frames"
      "card (free_pages (paging s)) \<le> card (free_pages (paging s')) + 2 * unat (16 :: u64)"
    by (rule mm_alloc_first [OF ok n f ps rm])
  note g = mm_alloc_granted [OF ok n s'(1), simplified]
  have "pml4_get (paging s') p (page_at 0x80000000 i) \<noteq> None" if "i < 16" for i
  proof -
    have "vpage (page_at 0x80000000 i)" using that by (intro candidate_pages(2) [of _ 16]) (simp_all add: candidates_first)
    then have "canonical (page_at 0x80000000 i)" "frame_addr (page_at 0x80000000 i) = page_at 0x80000000 i"
      by (simp_all add: vpage_def frame_addr_aligned)
    then show ?thesis using g that by fastforce
  qed
  moreover have "pml4_get (paging s') p x = pml4_get (paging s) p x"
    if "canonical x" "\<forall>i<16. frame_addr x \<noteq> page_at 0x80000000 i" for x
    using g that by blast
  ultimately show ?thesis using s' mm_alloc_pt_only [OF ok n s'(1)] g by (intro exI [of _ s']) simp
qed

lemma place_root_frame: "x \<notin> region base 32 \<Longrightarrow> place_root base sz m x = m x"
proof -
  assume x: "x \<notin> region base 32"
  have "x \<notin> region base 8" "x \<notin> region (base + 8) 8" "x \<notin> region (base + 16) 8" "x \<notin> region (base + 24) 8"
    using x region_sub [of base base 8 32] region_sub [of "base + 8" base 8 32]
      region_sub [of "base + 16" base 8 32] region_sub [of "base + 24" base 8 32] by auto
  then show ?thesis
    by (simp add: place_root_def set_flags_def set_length_def set_prev_def set_next_def c64.st_frame)
qed

text \<open>The pages \<open>heap::init\<close> asks for, as the first request that \<open>mm::alloc\<close> grants.\<close>

definition heap_pages :: "(u64 \<times> u32) list" where
  "heap_pages = map (\<lambda>i. (page_at 0x80000000 i, AF_RW)) [0..<16]"

lemma heap_init_run:
  assumes ok: "mm_ok (mm k) p" and p: "pm_kernel (paging (mm k)) = p"
    and tr: "physicalTracking (mm k) = replicate 4096 0"
    and room: "32 \<le> card (free_pages (paging (mm k)))" and fr: "range_free (paging (mm k)) p 16 0x80000000"
    and h: "m_size (kernelHeap k) = 0" and away: "region 0x80000000 0x2000000 \<inter> pt_region (paging (mm k)) = {}"
  shows "\<exists>k'. heap_init k = ret k' \<and> pt_region (paging (mm k')) = pt_region (paging (mm k)) \<and> mm_ok (mm k') p \<and> heap_valid (kernelHeap k') \<and>
    heap_linked (kernelHeap k') (kmem k') [(0x2000000 - 32, False)] \<and> m_base (kernelHeap k') = 0x80000000 \<and>
    (\<forall>x. canonical x \<longrightarrow> (\<forall>i<16. frame_addr x \<noteq> page_at 0x80000000 i) \<longrightarrow>
       pml4_get (paging (mm k')) p x = pml4_get (paging (mm k)) p x) \<and>
    (\<forall>i<16. pml4_get (paging (mm k')) p (page_at 0x80000000 i) \<noteq> None) \<and>
    (\<exists>fr. granted p (mm k) heap_pages fr (mm k')) \<and> physicalTracking (mm k') = heap_frames \<and>
    card (free_pages (paging (mm k))) \<le> card (free_pages (paging (mm k'))) + 32"
proof -
  obtain s' where s': "mm_alloc (mm k) p 16 AF_RW = ret (Some 0x80000000, s')" "mm_ok s' p"
      "pt_only (paging (mm k)) (paging s')" "physicalTracking s' = heap_frames"
      "card (free_pages (paging (mm k))) \<le> card (free_pages (paging s')) + 32"
      "\<And>x. canonical x \<Longrightarrow> \<forall>i<16. frame_addr x \<noteq> page_at 0x80000000 i \<Longrightarrow>
         pml4_get (paging s') p x = pml4_get (paging (mm k)) p x"
      "\<And>i. i < 16 \<Longrightarrow> pml4_get (paging s') p (page_at 0x80000000 i) \<noteq> None"
    using kernel_heap_alloc [OF ok tr room fr] by blast
  define m where "m = place_root 0x80000000 0x2000000 (mem (paging s'))"
  define pg where "pg = (paging s')\<lparr>mem := m\<rparr>"
  define k' where "k' = k\<lparr>mm := s'\<lparr>paging := pg\<rparr>, kernelHeap := \<lparr>m_base = 0x80000000, m_size = 0x2000000\<rparr>\<rparr>"
  have "(kernelHeap k)\<lparr>m_base := 0x80000000, m_size := 0x2000000\<rparr> = \<lparr>m_base = 0x80000000, m_size = 0x2000000\<rparr>"
    by (cases "kernelHeap k") simp
  then have run: "heap_init k = ret k'"
    using s'(1) h by (simp add: heap_init_def p heap_reset_def rootHeader_def Let_def k'_def pg_def m_def
      set_kmem_def kmem_def)
  have pr: "pt_region (paging s') = pt_region (paging (mm k))"
    by (rule only_mem_region [OF pt_only_mem [OF s'(3)]])
  have eq: "mem pg x = mem (paging s') x" if "x \<in> pt_region (paging s')" for x
    using that away pr region_sub [of "0x80000000" "0x80000000" 32 "0x2000000"]
    by (auto simp: pg_def m_def intro!: place_root_frame)
  have om: "only_mem (paging s') pg" by (simp add: pg_def)
  note f = pt_ok_frame [OF _ om eq]
  have pt: "pt_ok (paging s') p" using s'(2) by (simp add: mm_ok_def)
  have "mm_ok (mm k') p" using f(1) [OF pt] s'(2) by (simp add: mm_ok_def k'_def)
  moreover have "heap_linked (kernelHeap k') (kmem k') [(0x2000000 - 32, False)]"
    using place_root_blocks [of "0x80000000" "0x2000000" "mem (paging s')"]
    by (simp add: k'_def kmem_def pg_def m_def)
  moreover have "heap_valid (kernelHeap k')" by (simp add: k'_def heap_valid_def)
  moreover have "pml4_get (paging (mm k')) p x = pml4_get (paging s') p x" if "canonical x" for x
    using f(2) [OF pt _ that] by (simp add: k'_def)
  moreover obtain gr where "granted p (mm k) heap_pages gr s'"
    using granted_more [OF granted_none ok _ _ s'(1)] by (auto simp: heap_pages_def)
  then have "\<exists>fr. granted p (mm k) heap_pages fr (mm k')"
    using f(2) [OF pt] by (intro exI [of _ gr], elim granted_frame) (simp_all add: k'_def)
  moreover have "canonical (page_at 0x80000000 i)" if "i < 16" for i
  proof -
    have "vpage (page_at 0x80000000 i)"
      using that by (intro candidate_pages(2) [of _ 16]) (simp_all add: candidates_first)
    then show ?thesis by (simp add: vpage_def)
  qed
  moreover have "pt_region (paging (mm k')) = pt_region (paging (mm k))"
    using pr only_mem_region [OF om] by (simp add: k'_def)
  moreover have "physicalTracking (mm k') = heap_frames" "free_pages (paging (mm k')) = free_pages (paging s')"
    using s'(4) f(3) [OF pt] by (simp_all add: k'_def)
  ultimately show ?thesis using run s'(5,6,7) by (intro exI [of _ k']) (simp add: k'_def)
qed

section \<open>kernel_main\<close>

lemma kernel_room:
  assumes r: "pagingRange s = final_range" and t: "\<And>a. inpage s a \<Longrightarrow> tracked s a \<Longrightarrow> loader_page a"
  shows "64 \<le> card (free_pages s)"
proof -
  let ?f = "\<lambda>i. 0x200000 + of_nat (0x1000 * i) :: u64"
  have u: "unat (?f i) = 0x200000 + 0x1000 * i" if "i < 64" for i
    using that unat_of_nat_small [where ?'a = 64, of "0x1000 * i"] by (subst unat_add_small) simp_all
  have "?f i \<in> free_pages s" if "i < 64" for i
  proof -
    have "inpage s (?f i)"
      using u [OF that] that r by (simp add: inpage_def and_fff_0 word_le_nat_alt word_less_nat_alt)
    moreover have "\<not> loader_page (?f i)" using u [OF that] by (simp add: loader_page_def word_less_nat_alt)
    ultimately show ?thesis using t by (auto simp: free_pages_def)
  qed
  then have "?f ` {..<64} \<subseteq> free_pages s" by auto
  then have "card (?f ` {..<64}) \<le> card (free_pages s)" by (rule card_mono [OF free_pages_finite])
  moreover have "inj_on ?f {..<64}"
  proof (rule inj_onI)
    fix i j assume "i \<in> {..<64}" "j \<in> {..<64}" "?f i = ?f j"
    then have "0x200000 + 0x1000 * i = 0x200000 + 0x1000 * j" using u by (metis lessThan_iff)
    then show "i = j" by simp
  qed
  then have "card (?f ` {..<64}) = 64" by (simp add: card_image)
  ultimately show ?thesis by simp
qed

text \<open>The structures end below the kernel, the heap and all pages of \<open>mm::alloc\<close> lie behind it.\<close>

lemma tables_low:
  assumes "pagingRange s = final_range" and "trackingStructure s = 0x3FF000" and "refcountStructure s = 0x3FF060"
  shows "pt_region s \<subseteq> {x. x < 0x400000}"
proof -
  have "range_size s = 0x2FF000" "tracking_bytes s = 96" "refcount_bytes s = 1536"
    using assms(1) by (simp_all add: range_size_def tracking_bytes_def refcount_bytes_def)
  moreover have "region 0x100000 0x2FF000 \<subseteq> {x :: u64. x < 0x400000}" "region 0x3FF000 96 \<subseteq> {x :: u64. x < 0x400000}"
    "region 0x3FF060 1536 \<subseteq> {x :: u64. x < 0x400000}"
    by (auto simp: in_region_nat word_less_nat_alt)
  ultimately show ?thesis using assms by (auto simp: pt_region_def)
qed

lemma heap_away: "pt_region s \<subseteq> {x. x < 0x400000} \<Longrightarrow> region 0x80000000 0x2000000 \<inter> pt_region s = {}"
proof -
  assume "pt_region s \<subseteq> {x. x < 0x400000}"
  moreover have "0x400000 \<le> x" if "x \<in> region (0x80000000 :: u64) 0x2000000" for x
    using that by (simp add: in_region_nat word_le_nat_alt)
  ultimately show ?thesis by (force simp: not_less [symmetric])
qed

lemma kernel_main_checksum:
  "byte_sum (kmem k) ld sizeof_LoaderData AND 0xFF \<noteq> 0 \<Longrightarrow>
   kernel_main k ld = halt (AssertFail ''(sum & 0xFF) == 0'')"
  by (simp add: kernel_main_def kernel_boot_def validateLoaderData_def Let_def)

lemma kernel_boot_full:
  assumes left: "loader_left (paging (mm k)) (read_LoaderData (kmem k) ld) \<rho>"
    and sum: "byte_sum (kmem k) ld sizeof_LoaderData AND 0xFF = 0"
    and h: "m_size (kernelHeap k) = 0"
    and free: "\<forall>i<16. pml4_get (paging (mm k)) 0x100000 (page_at 0x80000000 i) = None"
  shows "kernel_main k ld = None \<and>
    (\<exists>k' rows. kernel_boot k ld = ret (k', rows) \<and>
       pt_region (paging (mm k')) \<subseteq> {x. x < 0x400000} \<and>
       (\<exists>s0 fr. granted 0x100000 s0 heap_pages fr (mm k') \<and>
          (\<forall>x. canonical x \<longrightarrow> pml4_get (paging s0) 0x100000 x = pml4_get (paging (mm k)) 0x100000 x)) \<and>
       physicalTracking (mm k') = heap_frames \<and> 32 \<le> card (free_pages (paging (mm k'))) \<and>
       fst ` set rows = {v. vpage v \<and> pml4_get (paging (mm k)) 0x100000 v \<noteq> None} \<and>
       mm_ok (mm k') 0x100000 \<and> heap_valid (kernelHeap k') \<and> m_base (kernelHeap k') = 0x80000000 \<and>
       heap_linked (kernelHeap k') (kmem k') [(0x2000000 - 32, False)] \<and>
       (\<forall>i<16. pml4_get (paging (mm k')) 0x100000 (page_at 0x80000000 i) \<noteq> None) \<and>
       (\<forall>x. canonical x \<longrightarrow> (\<forall>i<16. frame_addr x \<noteq> page_at 0x80000000 i) \<longrightarrow>
          pml4_get (paging (mm k')) 0x100000 x = pml4_get (paging (mm k)) 0x100000 x))"
proof -
  obtain s' where s': "pm_retainLoaderPaging (paging (mm k)) ld = ret s'" "pagingRange s' = final_range"
      "kernelPml4 s' = 0x100000" "trackingStructure s' = 0x3FF000" "refcountStructure s' = 0x3FF060" "pt_ok s' 0x100000"
      "\<And>a. inpage s' a \<Longrightarrow> tracked s' a \<Longrightarrow> loader_page a"
      "\<And>v. canonical v \<Longrightarrow> pml4_get s' 0x100000 v = pml4_get (paging (mm k)) 0x100000 v"
    using retain_run [of "paging (mm k)" ld \<rho>] left left_loader_page by (auto simp: kmem_def)
  define k1 where "k1 = k\<lparr>mm := mm_init ((mm k)\<lparr>paging := s'\<rparr>)\<rparr>"
  have k1: "paging (mm k1) = s'" "physicalTracking (mm k1) = replicate 4096 0" "kernelHeap k1 = kernelHeap k"
    by (simp_all add: k1_def mm_init_def PHYS_SIZE_def)
  have ok: "mm_ok (mm k1) 0x100000" using s'(6) by (simp add: mm_ok_def k1)
  have vp: "vpage (page_at 0x80000000 i)" if "i < 16" for i
    using that by (intro candidate_pages(2) [of _ 16]) (simp_all add: candidates_first)
  have rf: "range_free (paging (mm k1)) 0x100000 16 0x80000000"
    using free s'(8) vp by (simp add: range_free_def k1 vpage_def)
  have "pm_kernel (paging (mm k1)) = 0x100000" using s'(3) by (simp add: k1 pm_kernel_def)
  moreover have room: "64 \<le> card (free_pages (paging (mm k1)))" unfolding k1 by (rule kernel_room [OF s'(2,7)])
  then have "32 \<le> card (free_pages (paging (mm k1)))" by simp
  moreover have low: "pt_region (paging (mm k1)) \<subseteq> {x. x < 0x400000}" unfolding k1 by (rule tables_low [OF s'(2,4,5)])
  moreover note heap_away [OF low]
  moreover have "m_size (kernelHeap k1) = 0" using h by (simp add: k1)
  ultimately obtain k' where k': "heap_init k1 = ret k'" "pt_region (paging (mm k')) = pt_region (paging (mm k1))" "mm_ok (mm k') 0x100000" "heap_valid (kernelHeap k')"
      "heap_linked (kernelHeap k') (kmem k') [(0x2000000 - 32, False)]" "m_base (kernelHeap k') = 0x80000000"
      "\<And>x. canonical x \<Longrightarrow> \<forall>i<16. frame_addr x \<noteq> page_at 0x80000000 i \<Longrightarrow>
         pml4_get (paging (mm k')) 0x100000 x = pml4_get s' 0x100000 x"
      "\<And>i. i < 16 \<Longrightarrow> pml4_get (paging (mm k')) 0x100000 (page_at 0x80000000 i) \<noteq> None"
      "\<exists>fr. granted 0x100000 (mm k1) heap_pages fr (mm k')" "physicalTracking (mm k') = heap_frames"
      "card (free_pages (paging (mm k1))) \<le> card (free_pages (paging (mm k'))) + 32"
    using heap_init_run [OF ok _ k1(2) _ rf] unfolding k1(1) by blast
  have boot: "kernel_boot k ld = ret (k', pml4_dump s' 0x100000)"
    using s'(1,3) k'(1) sum by (simp add: kernel_boot_def validateLoaderData_def Let_def k1_def [symmetric] k1 pm_kernel_def)
  have rows: "fst ` set (pml4_dump s' 0x100000) = {v. vpage v \<and> pml4_get (paging (mm k)) 0x100000 v \<noteq> None}"
    unfolding pml4_dump_pages using s'(8) by (auto simp: vpage_def)
  have "kernel_main k ld = None" by (simp add: kernel_main_def boot)
  moreover have "pml4_get (paging (mm k')) 0x100000 x = pml4_get (paging (mm k)) 0x100000 x"
    if "canonical x" "\<forall>i<16. frame_addr x \<noteq> page_at 0x80000000 i" for x
    using k'(7) [OF that] s'(8) [OF that(1)] by simp
  moreover have "\<exists>s0 fr. granted 0x100000 s0 heap_pages fr (mm k') \<and>
      (\<forall>x. canonical x \<longrightarrow> pml4_get (paging s0) 0x100000 x = pml4_get (paging (mm k)) 0x100000 x)"
    using k'(9) s'(8) k1(1) by metis
  moreover have "32 \<le> card (free_pages (paging (mm k')))" using room k'(11) by simp
  ultimately show ?thesis using boot rows k' low
    by (intro conjI exI [of _ k'] exI [of _ "pml4_dump s' 0x100000"]) simp_all
qed

lemma kernel_boot_run:
  assumes left: "loader_left (paging (mm k)) (read_LoaderData (kmem k) ld) \<rho>"
    and sum: "byte_sum (kmem k) ld sizeof_LoaderData AND 0xFF = 0"
    and h: "m_size (kernelHeap k) = 0"
    and free: "\<forall>i<16. pml4_get (paging (mm k)) 0x100000 (page_at 0x80000000 i) = None"
  shows "kernel_main k ld = None \<and>
    (\<exists>k' rows. kernel_boot k ld = ret (k', rows) \<and>
       fst ` set rows = {v. vpage v \<and> pml4_get (paging (mm k)) 0x100000 v \<noteq> None} \<and>
       mm_ok (mm k') 0x100000 \<and> heap_valid (kernelHeap k') \<and> m_base (kernelHeap k') = 0x80000000 \<and>
       heap_linked (kernelHeap k') (kmem k') [(0x2000000 - 32, False)] \<and>
       (\<forall>i<16. pml4_get (paging (mm k')) 0x100000 (page_at 0x80000000 i) \<noteq> None) \<and>
       (\<forall>x. canonical x \<longrightarrow> (\<forall>i<16. frame_addr x \<noteq> page_at 0x80000000 i) \<longrightarrow>
          pml4_get (paging (mm k')) 0x100000 x = pml4_get (paging (mm k)) 0x100000 x))"
  using kernel_boot_full [OF assms] by blast

text \<open>
  C8. From what the loader left, with a checksum of 0, a heap object that is still zero and the
  first 32 MiB of the allocation range unmapped, \<open>kernel_main\<close> passes every assertion and reaches
  its endless loop: it lists exactly the pages the loader mapped, and then page tables, frames and
  heap are well formed, the heap is one free block of 32 MiB less a header at 0x80000000, its pages
  are mapped and everything else translates as under the loader.
\<close>

theorem kernel_boots:
  assumes left: "loader_left (paging (mm k)) (read_LoaderData (kmem k) ld) \<rho>"
    and sum: "byte_sum (kmem k) ld sizeof_LoaderData AND 0xFF = 0"
    and h: "m_size (kernelHeap k) = 0"
    and free: "\<forall>i<16. pml4_get (paging (mm k)) 0x100000 (page_at 0x80000000 i) = None"
  shows "kernel_main k ld = None \<and>
    (\<exists>k' rows. kernel_boot k ld = ret (k', rows) \<and>
       fst ` set rows = {v. vpage v \<and> pml4_get (paging (mm k)) 0x100000 v \<noteq> None} \<and>
       mm_ok (mm k') 0x100000 \<and> heap_valid (kernelHeap k') \<and> m_base (kernelHeap k') = 0x80000000 \<and>
       heap_linked (kernelHeap k') (kmem k') [(0x2000000 - 32, False)] \<and>
       (\<forall>i<16. pml4_get (paging (mm k')) 0x100000 (page_at 0x80000000 i) \<noteq> None) \<and>
       (\<forall>x. canonical x \<longrightarrow> (\<forall>i<16. frame_addr x \<noteq> page_at 0x80000000 i) \<longrightarrow>
          pml4_get (paging (mm k')) 0x100000 x = pml4_get (paging (mm k)) 0x100000 x))"
  by (rule kernel_boot_run [OF assms])

definition left_kernel :: kst where
  "left_kernel = \<lparr>mm = \<lparr>paging = left_state, physicalTracking = []\<rparr>, kernelHeap = heap_empty\<rparr>"

lemma left_kernel_unmapped: "canonical x \<Longrightarrow> pml4_get (paging (mm left_kernel)) 0x100000 x = None"
proof -
  assume "canonical x"
  then have "link left_state 0x100000 (pml4_index x) = None"
    by (simp add: link_def left_entry pml4_index_bound canonical_def)
  then show ?thesis by (simp add: pml4_get_leaf leaf_def left_kernel_def)
qed

lemma left_kernel_ready:
  "loader_left (paging (mm left_kernel)) (read_LoaderData (kmem left_kernel) 0x210000)
     (\<lambda>t. if t = 0x100000 then Root else NoRole)"
  "byte_sum (kmem left_kernel) 0x210000 sizeof_LoaderData AND 0xFF = 0"
  "m_size (kernelHeap left_kernel) = 0"
  "\<forall>i<16. pml4_get (paging (mm left_kernel)) 0x100000 (page_at 0x80000000 i) = None"
proof -
  have p: "paging (mm left_kernel) = left_state" "kmem left_kernel = left_mem" "mem left_state = left_mem"
    by (simp_all add: left_kernel_def kmem_def left_state_def)
  show "loader_left (paging (mm left_kernel)) (read_LoaderData (kmem left_kernel) 0x210000)
      (\<lambda>t. if t = 0x100000 then Root else NoRole)"
    using left_ok by (simp add: p)
  show "byte_sum (kmem left_kernel) 0x210000 sizeof_LoaderData AND 0xFF = 0"
    by (simp add: p sizeof_LoaderData_def eval_nat_numeral) (simp add: left_mem_def)
  show "m_size (kernelHeap left_kernel) = 0" by (simp add: left_kernel_def heap_empty_def)
  have "canonical (page_at 0x80000000 i)" if "i < 16" for i
    using that candidate_pages(2) [of "0x80000000" 16 i] by (simp add: candidates_first vpage_def)
  then show "\<forall>i<16. pml4_get (paging (mm left_kernel)) 0x100000 (page_at 0x80000000 i) = None"
    by (simp add: left_kernel_unmapped)
qed

theorem kernel_boots_witness:
  "kernel_main left_kernel 0x210000 = None \<and> (\<exists>k' rows. kernel_boot left_kernel 0x210000 = ret (k', rows) \<and> heap_valid (kernelHeap k'))"
  using kernel_boots [OF left_kernel_ready] by auto

text \<open>
  C35. The last step of \<open>retainLoaderPaging\<close> calls \<open>memset\<close> on a range that starts behind the page of
  the root, ends at the bit field and contains everything from 0x200000 to 0x3FF000.  That is where
  the loader is: its data, among them the \<open>LoaderData\<close> just read, and whatever stack it set up there.
\<close>

theorem retain_clears_loader:
  assumes "loader_left s (read_LoaderData (mem s) ld) \<rho>"
  shows "\<exists>ms s2 a n. retain_take s ld = ret (ms, s2) \<and> retain_cleanup s2 ms = Some (a, n) \<and>
    (\<forall>x. 0x200000 \<le> x \<and> x < 0x3FF000 \<longrightarrow> x \<in> region a (unat n)) \<and>
    (\<forall>x\<in>region a (unat n). 0x101000 \<le> x \<and> x < 0x3FF000)"
proof -
  obtain ms s2 where s2: "retain_take s ld = ret (ms, s2)" "trackingStructure s2 = 0x3FF000" "loader_page ms"
    using retain_run [OF assms] by blast
  have ms: "unat ms < 0x200000" "0x100000 \<le> unat ms" "4096 dvd unat ms"
    using s2(3) by (simp_all add: loader_page_def word_less_nat_alt word_le_nat_alt and_fff_0)
  then have le: "unat ms + 0x1000 \<le> 0x200000" by (auto elim!: dvdE)
  have a: "unat (ms + 0x1000) = unat ms + 0x1000" using ms by (subst unat_add_small) simp_all
  then have n: "unat (0x3FF000 - (ms + 0x1000)) = 0x3FF000 - (unat ms + 0x1000)"
    using le by (subst unat_sub_ge) simp_all
  have "retain_cleanup s2 ms = Some (ms + 0x1000, 0x3FF000 - (ms + 0x1000))"
    using s2(2) ms by (auto simp: retain_cleanup_def)
  moreover have "x \<in> region (ms + 0x1000) (unat (0x3FF000 - (ms + 0x1000))) \<longleftrightarrow>
      unat ms + 0x1000 \<le> unat x \<and> unat x < 0x3FF000" for x
    unfolding n using a le by (subst in_region_nat) auto
  moreover define a n where "a = ms + 0x1000" and "n = 0x3FF000 - (ms + 0x1000)"
  ultimately have r: "retain_cleanup s2 ms = Some (a, n)"
    and i: "x \<in> region a (unat n) \<longleftrightarrow> unat ms + 0x1000 \<le> unat x \<and> unat x < 0x3FF000" for x
    by simp_all
  have "\<forall>x. 0x200000 \<le> x \<and> x < 0x3FF000 \<longrightarrow> x \<in> region a (unat n)"
    unfolding i using le by (auto simp: word_less_nat_alt word_le_nat_alt)
  moreover have "\<forall>x\<in>region a (unat n). 0x101000 \<le> x \<and> x < 0x3FF000"
    unfolding i using ms(2) by (auto simp: i word_less_nat_alt word_le_nat_alt)
  ultimately show ?thesis using s2(1) r by blast
qed

theorem retain_clears_loader_witness:
  "\<exists>ms s2 a n. retain_take left_state 0x210000 = ret (ms, s2) \<and> retain_cleanup s2 ms = Some (a, n) \<and>
     0x210000 \<in> region a (unat n)"
proof -
  have "(0x200000 :: u64) \<le> 0x210000 \<and> (0x210000 :: u64) < 0x3FF000" by simp
  then show ?thesis using retain_clears_loader [OF left_ok] by blast
qed

end
