(* ===== verification/HeapClient.thy ===== *)
theory HeapClient
  imports HeapProps "HOL-Library.Multiset"
begin

text \<open>
  The programs that use the heap through \<open>operator new\<close> and \<open>operator delete\<close>: a step relation
  over the kernel state and the blocks the program holds, with the bytes it last wrote to them.
  A well-formedness invariant ties the two together and is kept by every step, so that a program
  that frees only what it holds, and whose requests meet the conditions of the step relation, never
  halts in \<open>delete\<close> and always reads what it wrote.
\<close>

unbundle bit_operations_syntax

section \<open>The blocks in use, by address and length\<close>

fun used_at :: "u64 \<Rightarrow> blocks \<Rightarrow> (u64 \<times> nat) list" where
  "used_at a [] = []"
| "used_at a ((n, u) # bs) = (if u then [(a + HEADER, n)] else []) @ used_at (next_hdr a n) bs"

lemma used_at_append [simp]: "used_at a (xs @ ys) = used_at a xs @ used_at (pos a xs) ys"
  by (induction a xs rule: used_at.induct) auto

lemma used_at_free: "\<forall>b\<in>set bs. free_block b \<Longrightarrow> used_at a bs = []"
  by (induction a bs rule: used_at.induct) auto

lemma pos_extent: "pos a bs = a + of_nat (extent bs)"
  by (induction a bs rule: pos.induct) (auto simp: next_hdr_def HEADER_def)

lemma used_at_coalesce:
  "used_at a (coalesce xs n ys) = used_at a xs @ used_at (next_hdr (pos a xs) n) ys"
proof -
  define xs0 fs gs ys0 where "xs0 = rev (dropWhile free_block (rev xs))"
    and "fs = rev (takeWhile free_block (rev xs))"
    and "gs = takeWhile free_block ys" and "ys0 = dropWhile free_block ys"
  have xy: "xs = xs0 @ fs" "ys = gs @ ys0"
    by (simp_all add: xs0_def fs_def gs_def ys0_def takeWhile_run [symmetric])
  have "\<forall>b\<in>set fs. free_block b" "\<forall>b\<in>set gs. free_block b"
    unfolding fs_def gs_def by (auto dest: set_takeWhileD)
  then have fr: "used_at b fs = []" "used_at b gs = []" for b by (simp_all add: used_at_free)
  have "coalesce xs n ys = xs0 @ (extent (fs @ (n, False) # gs) - 32, False) # ys0"
    by (simp add: coalesce_def Let_def xs0_def fs_def gs_def ys0_def)
  moreover have "next_hdr (pos a xs0) (extent (fs @ (n, False) # gs) - 32) = pos (next_hdr (pos a xs) n) gs"
    by (simp add: xy pos_extent next_hdr_def HEADER_def)
  ultimately show ?thesis by (simp add: fr) (simp add: xy fr)
qed

lemma extent_coalesce: "extent (coalesce xs n ys) = extent (xs @ (n, True) # ys)"
proof -
  have "extent xs = extent (rev (dropWhile free_block (rev xs))) + extent (rev (takeWhile free_block (rev xs)))"
    by (subst takeWhile_run [of xs free_block]) simp
  moreover have "extent ys = extent (takeWhile free_block ys) + extent (dropWhile free_block ys)"
    by (metis extent_append takeWhile_dropWhile_id)
  ultimately show ?thesis by (simp add: coalesce_def Let_def)
qed

lemma used_at_block:
  "(p, n) \<in> set (used_at a bl) \<Longrightarrow> \<exists>xs ys. bl = xs @ (n, True) # ys \<and> p = pos a xs + HEADER"
proof (induction a bl rule: used_at.induct)
  case (2 a k u bs)
  show ?case
  proof (cases "u \<and> (p, n) = (a + HEADER, k)")
    case True
    then show ?thesis by (intro exI [of _ "[]"] exI [of _ bs]) simp
  next
    case False
    then have "(p, n) \<in> set (used_at (next_hdr a k) bs)" using "2.prems" by (auto split: if_splits)
    from "2.IH" [OF this] obtain xs ys where "bs = xs @ (n, True) # ys" "p = pos (next_hdr a k) xs + HEADER" by blast
    then show ?thesis by (intro exI [of _ "(k, u) # xs"] exI [of _ ys]) simp
  qed
qed simp

text \<open>In the order of the list the blocks in use follow one another, a header apart.\<close>

lemma used_at_order:
  "fits a bl \<Longrightarrow> sorted_wrt (\<lambda>b c. unat (fst b) + snd b + 32 \<le> unat (fst c)) (used_at a bl) \<and>
     (\<forall>(p, n)\<in>set (used_at a bl). unat a + 32 \<le> unat p \<and> unat p + n \<le> unat a + extent bl)"
proof (induction a bl rule: used_at.induct)
  case (2 a n u bs)
  have nx: "unat (next_hdr a n) = unat a + 32 + n" using "2.prems" by (rule unat_next_hdr)
  have ad: "unat (a + HEADER) = unat a + 32"
    using "2.prems" by (subst unat_add_small) (simp_all add: fits_def HEADER_def)
  note IH = "2.IH" [OF fits_tail [OF "2.prems"]]
  have "\<forall>(p, k)\<in>set (used_at (next_hdr a n) bs). unat a + 32 + n + 32 \<le> unat p \<and> unat p + k \<le> unat a + extent ((n, u) # bs)"
    using IH nx by fastforce
  then show ?case using IH ad by (fastforce simp: case_prod_beta)
qed simp

lemma live_used:
  "fits a bl \<Longrightarrow> live (unat a) bl (unat x) \<longleftrightarrow> (\<exists>(p, n)\<in>set (used_at a bl). x \<in> region p n)"
proof (induction a bl rule: used_at.induct)
  case (2 a n u bs)
  have nx: "unat (next_hdr a n) = unat a + 32 + n" using "2.prems" by (rule unat_next_hdr)
  have ad: "unat (a + HEADER) = unat a + 32"
    using "2.prems" by (subst unat_add_small) (simp_all add: fits_def HEADER_def)
  have "x \<in> region (a + HEADER) n \<longleftrightarrow> unat a + 32 \<le> unat x \<and> unat x < unat a + 32 + n"
    using "2.prems" ad by (subst in_region_nat) (simp_all add: fits_def)
  then show ?case using "2.IH" [OF fits_tail [OF "2.prems"]] nx
    by (auto simp: bex_Un split: if_splits)
qed simp

section \<open>The operations on a heap with correct links\<close>

lemma split_block_new_prev:
  assumes f: "fits a ((n, u) # bs)" and s: "unat sz + 32 \<le> n"
  shows "h_prev (split_block a sz m) (next_hdr a (unat sz)) = a"
proof -
  have f1: "fits a ((unat sz, True) # (n - unat sz - 32, False) # bs)" using f s by (simp add: fits_def)
  have "apart a (next_hdr a (unat sz))" "apart (next_hdr a (unat sz)) a"
    using apart_nat [of a "next_hdr a (unat sz)"] unat_next_hdr [OF f1] fits_tail [OF f1] by (simp_all add: fits_def)
  then show ?thesis by (simp add: split_block_def Let_def mark_used_def fields next_hdr_def)
qed

text \<open>
  The request cuts no block in front of another: the block taken is the last one, or has the
  length asked for.
\<close>

definition in_place :: "64 mem \<Rightarrow> u64 \<Rightarrow> u64 \<Rightarrow> bool" where
  "in_place m p sz \<longleftrightarrow> h_next m (p - HEADER) = 0 \<or> h_length m (p - HEADER) = sz"

lemma heap_alloc_linked:
  assumes L: "heap_linked hp m bl" and sz: "unat sz + 32 < 2 ^ 64"
    and run: "heap_alloc hp m sz = ret (Some p, m')" and ip: "in_place m p sz"
  obtains xs N ys zs where "bl = xs @ (N, False) # ys" and "p = pos (m_base hp) xs + HEADER"
    and "heap_linked hp m' (xs @ (unat sz, True) # zs)" and "zs = ys \<or> ys = [] \<and> (\<exists>j. zs = [(j, False)])"
    and "extent (xs @ (unat sz, True) # zs) = extent bl"
    and "mset (used_at (m_base hp) (xs @ (unat sz, True) # zs)) = add_mset (p, unat sz) (mset (used_at (m_base hp) bl))"
    and "\<And>x. live (unat (m_base hp)) bl (unat x) \<or> x \<notin> region (m_base hp) (extent bl) \<Longrightarrow> m' x = m x"
proof -
  let ?a = "m_base hp"
  have h: "hchain m ?a bl" "fits ?a bl" "bl \<noteq> []" "hprev m 0 ?a bl"
    using L by (simp_all add: heap_linked_def heap_blocks_def)
  have run': "heap_alloc_loop m ?a sz = ret (Some p, m')" using run by (simp add: heap_alloc_def rootHeader_def)
  obtain xs N ys where b: "bl = xs @ (N, False) # ys" "p = pos ?a xs + HEADER"
    and m': "unat sz + 32 < N \<and> m' = split_block (pos ?a xs) sz m \<or> N = unat sz \<and> m' = mark_used (pos ?a xs) m"
    using alloc_loop_shape [OF h(1-3) sz run'] by blast
  note hb = h(1,2,4) [unfolded b(1)]
  let ?c = "pos ?a xs"
  have fr: "m' x = m x" if "live (unat ?a) bl (unat x) \<or> x \<notin> region ?a (extent bl)" for x
    using heap_alloc_loop_first_fit [OF h(1-3) sz] run' that in_span [OF h(2), of "extent bl" x]
    by (auto split: option.splits)
  have c: "hchain m ?c ((N, False) # ys)" "fits ?c ((N, False) # ys)"
    using hb(1) fits_pos [OF hb(2)] by (simp_all add: hchain_append)
  show ?thesis
  proof (cases "N = unat sz")
    case True
    then have m1: "m' = mark_used ?c m" using m' by auto
    note t = alloc_taken_whole [OF hb, folded m1]
    have "heap_linked hp m' (xs @ (N, True) # ys)"
      using t clear_used_chain(5) [OF t(1,2)] by (simp add: heap_linked_def heap_blocks_def hprev_append)
    then show ?thesis using fr True by (intro that [OF b, of ys]) (simp_all add: b)
  next
    case False
    then have m1: "m' = split_block ?c sz m" and s: "unat sz + 32 < N" using m' by auto
    have "h_length m ?c \<noteq> sz" using c(1) fits_length [OF c(2)] s by auto
    then have "h_next m ?c = 0" using ip by (simp add: in_place_def b(2))
    then have ys: "ys = []" using c(1) fits_nonzero [OF fits_tail [OF c(2)]] by (auto split: if_splits)
    note t = alloc_taken_split [OF hb s, folded m1]
    have "h_prev m' (next_hdr ?c (unat sz)) = ?c"
      unfolding m1 using s by (intro split_block_new_prev [OF c(2)]) simp
    then have "heap_linked hp m' (xs @ [(unat sz, True), (N - unat sz - 32, False)])"
      using t ys by (simp add: heap_linked_def heap_blocks_def hprev_append)
    then show ?thesis
      using fr s by (intro that [OF b, of "[(N - unat sz - 32, False)]"]) (simp_all add: b ys)
  qed
qed

lemma heap_free_linked:
  assumes L: "heap_linked hp m bl" and p: "(p, n) \<in> set (used_at (m_base hp) bl)"
  shows "\<exists>m' bl'. heap_free m p = ret m' \<and> heap_freeChecked m p (of_nat n) = ret m' \<and> heap_linked hp m' bl' \<and>
    add_mset (p, n) (mset (used_at (m_base hp) bl')) = mset (used_at (m_base hp) bl) \<and>
    (\<forall>(q, k)\<in>set (used_at (m_base hp) bl'). \<forall>x\<in>region q k. m' x = m x) \<and>
    extent bl' = extent bl \<and> (\<forall>x. x \<notin> region (m_base hp) (extent bl) \<longrightarrow> m' x = m x)"
proof -
  let ?a = "m_base hp"
  obtain xs ys where b: "bl = xs @ (n, True) # ys" "p = pos ?a xs + HEADER" using used_at_block [OF p] by blast
  have h: "hchain m ?a (xs @ (n, True) # ys)" "fits ?a (xs @ (n, True) # ys)" "heap_blocks hp m (xs @ (n, True) # ys)"
    using L by (simp_all add: heap_linked_def heap_blocks_def b)
  obtain m' where m': "heap_free m p = ret m'" "heap_linked hp m' (coalesce xs n ys)"
    "\<And>x. live (unat ?a) (xs @ (n, False) # ys) (unat x) \<Longrightarrow> m' x = m x"
    "\<And>x. unat x < unat ?a \<or> unat ?a + extent (xs @ (n, True) # ys) \<le> unat x \<Longrightarrow> m' x = m x"
    using heap_free_coalesced [OF L [unfolded b(1)] b(2)] by blast
  have out: "m' x = m x" if "x \<notin> region ?a (extent bl)" for x
    using m'(4) [of x] that in_span [OF h(2), of "extent bl" x] by (auto simp: b(1))
  have "unat (of_nat n :: u64) = n" using fits_pos [OF h(2)] by (rule fits_length)
  then have "heap_freeChecked m p (of_nat n) = ret m'"
    using heap_free_checks [OF h(3) b(2), of "of_nat n"] m'(1) by simp
  moreover have "fits ?a (xs @ (n, False) # ys)" using h(2) by (simp add: fits_def)
  then have "\<forall>(q, k)\<in>set (used_at ?a (coalesce xs n ys)). \<forall>x\<in>region q k. m' x = m x"
    using m'(3) live_used [of ?a "xs @ (n, False) # ys"] by (fastforce simp: used_at_coalesce)
  ultimately show ?thesis
    using m'(1,2) out
    by (intro exI [of _ m'] exI [of _ "coalesce xs n ys"]) (simp add: used_at_coalesce extent_coalesce b)
qed

text \<open>A store to a byte of a live block changes no header.\<close>

lemma live_store:
  "fits a bl \<Longrightarrow> live (unat a) bl (unat x) \<Longrightarrow> (\<And>y. y \<noteq> x \<Longrightarrow> m' y = m y) \<Longrightarrow>
   hchain m' a bl = hchain m a bl \<and> hprev m' p a bl = hprev m p a bl"
proof (induction a bl arbitrary: p rule: used_at.induct)
  case (2 a n u bs)
  have nx: "unat (next_hdr a n) = unat a + 32 + n" using "2.prems"(1) by (rule unat_next_hdr)
  have lo: "unat a + 32 \<le> unat x" using live_bounds [OF "2.prems"(2)] by simp
  then have "x \<notin> region a 32" using in_span [OF "2.prems"(1), of 32 x] by simp
  then have "m' y = m y" if "y \<in> region a 32" for y using that by (intro "2.prems"(3)) auto
  note hd = header_cong [of a m' m, OF this]
  have "hchain m' (next_hdr a n) bs = hchain m (next_hdr a n) bs \<and>
      hprev m' q (next_hdr a n) bs = hprev m q (next_hdr a n) bs" for q
  proof (cases "live (unat (next_hdr a n)) bs (unat x)")
    case True
    then show ?thesis by (intro "2.IH" [OF fits_tail [OF "2.prems"(1)]] "2.prems"(3))
  next
    case False
    then have "unat x < unat (next_hdr a n)" using "2.prems"(2) nx by simp
    then show ?thesis using fits_tail [OF "2.prems"(1)]
      by (intro conjI hchain_cong hprev_cong [where ys = "[]"] "2.prems"(3)) auto
  qed
  then show ?case by (simp add: hd)
qed simp

lemma heap_put_linked:
  assumes "heap_linked hp m bl" and "(p, n) \<in> set (used_at (m_base hp) bl)" and "x \<in> region p n"
  shows "heap_linked hp (m(x := v)) bl"
  using assms live_used [of "m_base hp" bl x] live_store [of "m_base hp" bl x "m(x := v)" m 0]
  by (auto simp: heap_linked_def heap_blocks_def)

section \<open>Programs over operator new and operator delete\<close>

text \<open>
  What a program holds: the address of each block it got and has not deleted, with the bytes it
  read or wrote there last.  The steps are the operators of kernel/algo/new.hpp that return, and a
  store to a byte of a block that is held.
\<close>

type_synonym held = "(u64 \<times> u8 list) list"

definition peek :: "64 mem \<Rightarrow> u64 \<Rightarrow> nat \<Rightarrow> u8 list" where
  "peek m p n = map (\<lambda>i. m (p + of_nat i)) [0..<n]"

inductive client_step :: "kst \<times> held \<Rightarrow> kst \<times> held \<Rightarrow> bool" where
  new: "unat n + 32 < 2 ^ 64 \<Longrightarrow> op_new k n = ret (p, k') \<Longrightarrow> in_place (kmem k) p n \<Longrightarrow>
    client_step (k, os) (k', (p, peek (kmem k') p (unat n)) # os)"
| delete: "(p, bs) \<in> set os \<Longrightarrow> op_delete k p = ret k' \<Longrightarrow> client_step (k, os) (k', remove1 (p, bs) os)"
| delete_sized: "(p, bs) \<in> set os \<Longrightarrow> op_delete_sized k p (of_nat (length bs)) = ret k' \<Longrightarrow>
    client_step (k, os) (k', remove1 (p, bs) os)"
| store: "(p, bs) \<in> set os \<Longrightarrow> i < length bs \<Longrightarrow>
    client_step (k, os) (set_kmem k ((kmem k)(p + of_nat i := v)), (p, bs[i := v]) # remove1 (p, bs) os)"
| new_array: "unat n + 32 < 2 ^ 64 \<Longrightarrow> op_new_array k n = ret (p, k') \<Longrightarrow> in_place (kmem k) p n \<Longrightarrow>
    client_step (k, os) (k', (p, peek (kmem k') p (unat n)) # os)"
| delete_array: "(p, bs) \<in> set os \<Longrightarrow> op_delete_array k p = ret k' \<Longrightarrow> client_step (k, os) (k', remove1 (p, bs) os)"
| delete_array_sized: "(p, bs) \<in> set os \<Longrightarrow> op_delete_array_sized k p (of_nat (length bs)) = ret k' \<Longrightarrow>
    client_step (k, os) (k', remove1 (p, bs) os)"

text \<open>The operators on arrays are the same code.\<close>

lemma op_array [simp]:
  "op_new_array k v = op_new k v" "op_delete_array k v = op_delete k v"
  "op_delete_array_sized k v n = op_delete_sized k v n"
  by (simp_all add: op_new_array_def op_new_def op_delete_array_def op_delete_def op_delete_array_sized_def
      op_delete_sized_def)

inductive_cases client_stepE: "client_step (k, os) (k', os')"

definition spans :: "held \<Rightarrow> (u64 \<times> nat) multiset" where
  "spans os = mset (map (\<lambda>(p, bs). (p, length bs)) os)"

definition holds :: "nat \<Rightarrow> kst \<Rightarrow> held \<Rightarrow> bool" where
  "holds len k os \<longleftrightarrow> heap_valid (kernelHeap k) \<and>
     (\<exists>bl. heap_linked (kernelHeap k) (kmem k) bl \<and> extent bl = 32 + len \<and> spans os = mset (used_at (m_base (kernelHeap k)) bl)) \<and>
     (\<forall>(p, bs)\<in>set os. peek (kmem k) p (length bs) = bs)"

lemma spans_simps [simp]: "spans [] = {#}" "spans ((p, bs) # os) = add_mset (p, length bs) (spans os)"
  by (simp_all add: spans_def)

lemma spans_remove: "(p, bs) \<in> set os \<Longrightarrow> spans os = add_mset (p, length bs) (spans (remove1 (p, bs) os))"
proof -
  assume "(p, bs) \<in> set os"
  then have "mset os = add_mset (p, bs) (mset (remove1 (p, bs) os))" by simp
  then show ?thesis unfolding spans_def by (metis (no_types, lifting) case_prod_conv image_mset_add_mset mset_map)
qed

lemma spans_member: "(p, bs) \<in> set os \<Longrightarrow> (p, length bs) \<in># spans os"
  by (simp add: spans_remove)

lemma used_apart:
  assumes f: "fits a bl" and e: "mset (used_at a bl) = add_mset (p, n) M" and q: "(q, k) \<in># M"
  shows "p \<noteq> q \<and> region p n \<inter> region q k = {} \<and> unat a + 32 \<le> unat p \<and> unat p + n \<le> unat a + extent bl"
proof -
  let ?R = "\<lambda>b c. unat (fst b) + snd b + 32 \<le> unat (fst c)"
  have "(p, n) \<in> set (used_at a bl)" using e by (metis set_mset_mset union_single_eq_member)
  then obtain as cs where u: "used_at a bl = as @ (p, n) # cs" by (meson split_list)
  then have m: "(q, k) \<in> set as \<union> set cs" using e q by (auto simp: mset_append)
  have o: "sorted_wrt ?R (used_at a bl)"
    and b: "\<And>p n. (p, n) \<in> set (used_at a bl) \<Longrightarrow> unat a + 32 \<le> unat p \<and> unat p + n \<le> unat a + extent bl"
    using used_at_order [OF f] by auto
  have b': "unat p + n \<le> unat a + extent bl" "unat q + k \<le> unat a + extent bl" "unat a + 32 \<le> unat p"
    using b [of p n] b [of q k] u m by auto
  have r: "x \<in> region p n \<longleftrightarrow> unat p \<le> unat x \<and> unat x < unat p + n"
    "x \<in> region q k \<longleftrightarrow> unat q \<le> unat x \<and> unat x < unat q + k" for x
    using b' f by (intro in_region_nat; simp add: fits_def)+
  have "?R (q, k) (p, n) \<or> ?R (p, n) (q, k)" using o u m by (auto simp: sorted_wrt_append)
  then show ?thesis using b' r by auto
qed

lemma peek_cong: "(\<And>x. x \<in> region p n \<Longrightarrow> m' x = m x) \<Longrightarrow> peek m' p n = peek m p n"
proof -
  assume e: "\<And>x. x \<in> region p n \<Longrightarrow> m' x = m x"
  have "unat (of_nat i :: u64) \<le> i" for i by (simp add: unat_of_nat take_bit_eq_mod)
  then have "p + of_nat i \<in> region p n" if "i < n" for i
    using that le_less_trans by (auto simp: in_region_iff)
  then show ?thesis unfolding peek_def by (intro map_cong [OF refl] e) auto
qed

lemma peek_store:
  assumes "i < n" and "n < 2 ^ 64"
  shows "peek (m(p + of_nat i := v)) p n = (peek m p n)[i := v]"
proof (rule nth_equalityI)
  fix j assume "j < length (peek (m(p + of_nat i := v)) p n)"
  then have j: "j < n" by (simp add: peek_def)
  have "unat (of_nat i :: u64) = i" "unat (of_nat j :: u64) = j"
    using assms j by (simp_all add: unat_of_nat_small)
  then have "(of_nat j :: u64) = of_nat i \<longleftrightarrow> j = i" by metis
  then show "peek (m(p + of_nat i := v)) p n ! j = (peek m p n)[i := v] ! j"
    using j by (simp add: peek_def nth_list_update)
qed (simp add: peek_def)

section \<open>Every step keeps what the program holds\<close>

lemma kmem_set [simp]: "kmem (set_kmem k m) = m" "kernelHeap (set_kmem k m) = kernelHeap k"
  by (simp_all add: kmem_def set_kmem_def)

lemma op_new_ret:
  "heap_valid (kernelHeap k) \<Longrightarrow> op_new k n = ret (p, k') \<longleftrightarrow>
     (\<exists>m. heap_alloc (kernelHeap k) (kmem k) n = ret (Some p, m) \<and> k' = set_kmem k m)"
  by (auto simp: op_new_def bindR_eq_ret orPanic_def split: option.splits)

lemma holdsE:
  assumes "holds len k os"
  obtains bl where "heap_valid (kernelHeap k)" and "heap_linked (kernelHeap k) (kmem k) bl"
    and "spans os = mset (used_at (m_base (kernelHeap k)) bl)"
    and "fits (m_base (kernelHeap k)) bl" and "extent bl = 32 + len"
  using assms by (auto simp: holds_def heap_linked_def heap_blocks_def)

lemma holds_reads: "holds len k os \<Longrightarrow> (p, bs) \<in> set os \<Longrightarrow> peek (kmem k) p (length bs) = bs"
  by (auto simp: holds_def)

lemma holds_used: "holds len k os \<Longrightarrow> spans os = mset (used_at (m_base (kernelHeap k)) bl) \<Longrightarrow>
    (p, bs) \<in> set os \<Longrightarrow> (p, length bs) \<in> set (used_at (m_base (kernelHeap k)) bl)"
  using spans_member [of p bs os] by simp

lemma holdsI:
  "heap_valid (kernelHeap k) \<Longrightarrow> heap_linked (kernelHeap k) (kmem k) bl \<Longrightarrow> extent bl = 32 + len \<Longrightarrow>
   spans os = mset (used_at (m_base (kernelHeap k)) bl) \<Longrightarrow>
   (\<And>p bs. (p, bs) \<in> set os \<Longrightarrow> peek (kmem k) p (length bs) = bs) \<Longrightarrow> holds len k os"
  by (auto simp: holds_def)

text \<open>A step changes no memory outside the heap, and nothing else of the kernel.\<close>

definition heap_only :: "nat \<Rightarrow> kst \<Rightarrow> kst \<Rightarrow> bool" where
  "heap_only len k k' \<longleftrightarrow>
     (\<exists>m. k' = set_kmem k m \<and> (\<forall>x. x \<notin> region (m_base (kernelHeap k)) (32 + len) \<longrightarrow> m x = kmem k x))"

lemma set_kmem_kmem: "set_kmem k (kmem k) = k" "set_kmem (set_kmem k m) m' = set_kmem k m'"
  by (simp_all add: set_kmem_def kmem_def)

lemma heap_only_refl: "heap_only len k k"
  unfolding heap_only_def by (intro exI [of _ "kmem k"]) (simp add: set_kmem_kmem)

lemma heap_only_trans: "heap_only len k k' \<Longrightarrow> heap_only len k' k'' \<Longrightarrow> heap_only len k k''"
  by (fastforce simp: heap_only_def set_kmem_kmem)

lemma holds_inside:
  assumes h: "holds len k os" and p: "(p, bs) \<in> set os" and x: "x \<in> region p (length bs)"
  shows "x \<in> region (m_base (kernelHeap k)) (32 + len)"
proof -
  obtain bl where e: "spans os = mset (used_at (m_base (kernelHeap k)) bl)" and f: "fits (m_base (kernelHeap k)) bl"
    and ex: "extent bl = 32 + len"
    using h by (rule holdsE)
  have "unat (m_base (kernelHeap k)) + 32 \<le> unat p \<and> unat p + length bs \<le> unat (m_base (kernelHeap k)) + extent bl"
    using used_at_order [OF f] holds_used [OF h e p] by auto
  moreover from this have "x \<in> region p (length bs) \<longleftrightarrow> unat p \<le> unat x \<and> unat x < unat p + length bs"
    using f by (intro in_region_nat) (simp add: fits_def)
  ultimately show ?thesis using x in_span [OF f, of "32 + len" x] ex by simp
qed

lemma holds_new:
  assumes h: "holds len k os" and n: "unat n + 32 < 2 ^ 64" and run: "op_new k n = ret (p, k')"
    and ip: "in_place (kmem k) p n"
  shows "holds len k' ((p, peek (kmem k') p (unat n)) # os)" and "heap_only len k k'"
proof -
  let ?hp = "kernelHeap k"
  obtain bl where v: "heap_valid ?hp" and L: "heap_linked ?hp (kmem k) bl"
    and e: "spans os = mset (used_at (m_base ?hp) bl)" and f: "fits (m_base ?hp) bl"
    and ex: "extent bl = 32 + len"
    using h by (rule holdsE)
  obtain m where a: "heap_alloc ?hp (kmem k) n = ret (Some p, m)" and k': "k' = set_kmem k m"
    using run op_new_ret [OF v] by blast
  obtain xs N ys zs where "bl = xs @ (N, False) # ys" "p = pos (m_base ?hp) xs + HEADER"
    and b: "heap_linked ?hp m (xs @ (unat n, True) # zs)" and "zs = ys \<or> ys = [] \<and> (\<exists>j. zs = [(j, False)])"
    and ex': "extent (xs @ (unat n, True) # zs) = extent bl"
    and b': "mset (used_at (m_base ?hp) (xs @ (unat n, True) # zs)) = add_mset (p, unat n) (mset (used_at (m_base ?hp) bl))"
      "\<And>x. live (unat (m_base ?hp)) bl (unat x) \<or> x \<notin> region (m_base ?hp) (extent bl) \<Longrightarrow> m x = kmem k x"
    by (rule heap_alloc_linked [OF L n a ip]) (rule that)
  have rd: "peek m q (length cs) = cs" if "(q, cs) \<in> set os" for q cs
  proof -
    have "peek m q (length cs) = peek (kmem k) q (length cs)"
      using holds_used [OF h e that] live_used [OF f] by (intro peek_cong b'(2)) auto
    then show ?thesis using holds_reads [OF h that] by simp
  qed
  have "spans ((p, peek m p (unat n)) # os) = mset (used_at (m_base ?hp) (xs @ (unat n, True) # zs))"
    unfolding b'(1) using e by (simp add: peek_def)
  then show "holds len k' ((p, peek (kmem k') p (unat n)) # os)"
    using v b ex ex' rd by (intro holdsI [where bl = "xs @ (unat n, True) # zs"]) (auto simp: k' peek_def)
  show "heap_only len k k'" unfolding heap_only_def using k' b'(2) ex by auto
qed

lemma holds_delete:
  assumes h: "holds len k os" and p: "(p, bs) \<in> set os"
  shows "\<exists>k'. op_delete k p = ret k' \<and> op_delete_sized k p (of_nat (length bs)) = ret k' \<and>
    holds len k' (remove1 (p, bs) os) \<and> heap_only len k k'"
proof -
  let ?hp = "kernelHeap k" and ?os = "remove1 (p, bs) os"
  obtain bl where v: "heap_valid ?hp" and L: "heap_linked ?hp (kmem k) bl"
    and e: "spans os = mset (used_at (m_base ?hp) bl)" and f: "fits (m_base ?hp) bl"
    and ex: "extent bl = 32 + len"
    using h by (rule holdsE)
  obtain m bl' where d: "heap_free (kmem k) p = ret m" "heap_freeChecked (kmem k) p (of_nat (length bs)) = ret m"
      "heap_linked ?hp m bl'"
      "add_mset (p, length bs) (mset (used_at (m_base ?hp) bl')) = mset (used_at (m_base ?hp) bl)"
      "\<forall>(q, j)\<in>set (used_at (m_base ?hp) bl'). \<forall>x\<in>region q j. m x = kmem k x"
      "extent bl' = extent bl" "\<forall>x. x \<notin> region (m_base ?hp) (extent bl) \<longrightarrow> m x = kmem k x"
    using heap_free_linked [OF L holds_used [OF h e p]] by blast
  have e': "spans ?os = mset (used_at (m_base ?hp) bl')" using d(4) e spans_remove [OF p] by (metis add_mset_remove_trivial)
  have "peek m q (length cs) = cs" if q: "(q, cs) \<in> set ?os" for q cs
  proof -
    have "(q, length cs) \<in> set (used_at (m_base ?hp) bl')" using spans_member [OF q] e' by simp
    then have "peek m q (length cs) = peek (kmem k) q (length cs)" using d(5) by (intro peek_cong) auto
    then show ?thesis using holds_reads [OF h] notin_set_remove1 q by metis
  qed
  then have "holds len (set_kmem k m) ?os" using v d(3,6) ex e' by (intro holdsI [where bl = bl']) auto
  moreover have "heap_only len k (set_kmem k m)" using d(7) ex by (auto simp: heap_only_def)
  ultimately show ?thesis using v d(1,2) by (simp add: op_delete_def op_delete_sized_def)
qed

lemma holds_store:
  assumes h: "holds len k os" and p: "(p, bs) \<in> set os" and i: "i < length bs"
  shows "holds len (set_kmem k ((kmem k)(p + of_nat i := v))) ((p, bs[i := v]) # remove1 (p, bs) os)"
    and "heap_only len k (set_kmem k ((kmem k)(p + of_nat i := v)))"
proof -
  let ?hp = "kernelHeap k" and ?os = "remove1 (p, bs) os"
  obtain bl where hv: "heap_valid ?hp" and L: "heap_linked ?hp (kmem k) bl"
    and e: "spans os = mset (used_at (m_base ?hp) bl)" and f: "fits (m_base ?hp) bl"
    and ex: "extent bl = 32 + len"
    using h by (rule holdsE)
  note u = holds_used [OF h e p]
  have n: "length bs < 2 ^ 64" using used_at_order [OF f] u f by (fastforce simp: fits_def)
  have x: "p + of_nat i \<in> region p (length bs)"
    using i n by (simp add: in_region_iff unat_of_nat_small)
  have rd: "peek ((kmem k)(p + of_nat i := v)) q (length cs) = cs" if q: "(q, cs) \<in> set ?os" for q cs
  proof -
    have "region p (length bs) \<inter> region q (length cs) = {}"
      using used_apart [OF f _ spans_member [OF q]] e spans_remove [OF p] by simp
    then have "peek ((kmem k)(p + of_nat i := v)) q (length cs) = peek (kmem k) q (length cs)"
      using x by (intro peek_cong) auto
    then show ?thesis using holds_reads [OF h] notin_set_remove1 q by metis
  qed
  have "peek ((kmem k)(p + of_nat i := v)) p (length bs) = bs[i := v]"
    using peek_store [OF i n] holds_reads [OF h p] by simp
  then show "holds len (set_kmem k ((kmem k)(p + of_nat i := v))) ((p, bs[i := v]) # ?os)"
    using hv heap_put_linked [OF L u x] ex e spans_remove [OF p] rd by (intro holdsI [where bl = bl]) auto
  show "heap_only len k (set_kmem k ((kmem k)(p + of_nat i := v)))"
    using holds_inside [OF h p x] unfolding heap_only_def
    by (intro exI [of _ "(kmem k)(p + of_nat i := v)"]) auto
qed

lemma client_step_holds:
  assumes "client_step (k, os) (k', os')" and h: "holds len k os"
  shows "holds len k' os' \<and> heap_only len k k'"
  using assms(1)
proof (rule client_stepE, goal_cases)
  case (1 n p)
  have n: "unat n + 32 < 2 ^ 64" using 1(2) by simp
  show ?case using holds_new [OF h n 1(3,4)] 1(1) by simp
next
  case (5 n p)
  have n: "unat n + 32 < 2 ^ 64" using 5(2) by simp
  show ?case using holds_new [OF h n _ 5(4)] 5(1,3) by simp
qed (use holds_delete [OF h] holds_store [OF h] in fastforce)+

lemma client_run_holds:
  "client_step\<^sup>*\<^sup>* (k, os) (k', os') \<Longrightarrow> holds len k os \<Longrightarrow> holds len k' os' \<and> heap_only len k k'"
  by (induction rule: rtranclp_induct2) (auto intro: heap_only_refl heap_only_trans dest: client_step_holds)

lemma holds_fresh:
  "heap_valid (kernelHeap k) \<Longrightarrow> heap_linked (kernelHeap k) (kmem k) [(len, False)] \<Longrightarrow> holds len k []"
  by (auto simp: holds_def intro!: exI [of _ "[(len, False)]"])

text \<open>What the program holds depends on the heap object and the bytes of the heap only.\<close>

definition same_heap :: "nat \<Rightarrow> kst \<Rightarrow> kst \<Rightarrow> bool" where
  "same_heap len k k' \<longleftrightarrow> kernelHeap k' = kernelHeap k \<and>
     (\<forall>x\<in>region (m_base (kernelHeap k)) (32 + len). kmem k' x = kmem k x)"

lemma heap_linked_frame:
  assumes L: "heap_linked (kernelHeap k) (kmem k) bl" and ex: "extent bl = 32 + len" and s: "same_heap len k k'"
  shows "heap_linked (kernelHeap k') (kmem k') bl"
proof -
  let ?a = "m_base (kernelHeap k)"
  have f: "fits ?a bl" using L by (simp add: heap_linked_def heap_blocks_def)
  have "kmem k' x = kmem k x" if "unat ?a \<le> unat x" "unat x < unat ?a + extent bl" for x
    using that s ex in_span [OF f, of "32 + len" x] by (auto simp: same_heap_def)
  then have "hchain (kmem k') ?a bl = hchain (kmem k) ?a bl" "hprev (kmem k') 0 ?a bl = hprev (kmem k) 0 ?a bl"
    using f by (intro hchain_cong hprev_cong [where ys = "[]"]; simp)+
  then show ?thesis using L s by (simp add: heap_linked_def heap_blocks_def same_heap_def)
qed

lemma holds_frame:
  assumes h: "holds len k os" and s: "same_heap len k k'"
  shows "holds len k' os"
proof -
  obtain bl where v: "heap_valid (kernelHeap k)" and L: "heap_linked (kernelHeap k) (kmem k) bl"
    and e: "spans os = mset (used_at (m_base (kernelHeap k)) bl)" and ex: "extent bl = 32 + len"
    using h by (rule holdsE)
  have "peek (kmem k') p (length bs) = bs" if p: "(p, bs) \<in> set os" for p bs
  proof -
    have "peek (kmem k') p (length bs) = peek (kmem k) p (length bs)"
      using s holds_inside [OF h p] by (intro peek_cong) (auto simp: same_heap_def)
    then show ?thesis using holds_reads [OF h p] by simp
  qed
  then show ?thesis using v e ex heap_linked_frame [OF L ex s] s
    by (intro holdsI [where bl = bl]) (auto simp: same_heap_def)
qed

section \<open>What a program can rely on\<close>

lemma holds_apart:
  assumes h: "holds len k os"
  shows "distinct (map fst os)"
    and "(p, bs) \<in> set os \<Longrightarrow> (q, cs) \<in> set os \<Longrightarrow> p \<noteq> q \<Longrightarrow> region p (length bs) \<inter> region q (length cs) = {}"
proof -
  obtain bl where e: "spans os = mset (used_at (m_base (kernelHeap k)) bl)" and f: "fits (m_base (kernelHeap k)) bl"
    and ex: "extent bl = 32 + len"
    using h by (rule holdsE)
  have "sorted_wrt (\<lambda>b c. unat (fst b) < unat (fst c)) (used_at (m_base (kernelHeap k)) bl)"
    using used_at_order [OF f] by (auto elim!: sorted_wrt_mono_rel [rotated])
  then have "sorted_wrt (<) (map (\<lambda>b. unat (fst b)) (used_at (m_base (kernelHeap k)) bl))"
    by (simp add: sorted_wrt_map)
  then have "distinct (map (unat \<circ> fst) (used_at (m_base (kernelHeap k)) bl))"
    by (simp add: strict_sorted_iff comp_def)
  then have "distinct (map fst (used_at (m_base (kernelHeap k)) bl))"
    by (metis distinct_map list.map_comp)
  moreover have "mset (map fst os) = mset (map fst (used_at (m_base (kernelHeap k)) bl))"
    using arg_cong [OF e, of "image_mset fst"] by (simp add: spans_def mset_map case_prod_beta multiset.map_comp comp_def)
  ultimately show "distinct (map fst os)" by (metis mset_eq_imp_distinct_iff)
  show "region p (length bs) \<inter> region q (length cs) = {}"
    if "(p, bs) \<in> set os" "(q, cs) \<in> set os" "p \<noteq> q"
  proof -
    have "(q, cs) \<in> set (remove1 (p, bs) os)" using that by (simp add: in_set_remove1)
    moreover have "mset (used_at (m_base (kernelHeap k)) bl) = add_mset (p, length bs) (spans (remove1 (p, bs) os))"
      using e spans_remove [OF that(1)] by simp
    ultimately show ?thesis using used_apart [OF f _ spans_member] by blast
  qed
qed

lemma used_at_Nil: "used_at a bl = [] \<longleftrightarrow> (\<forall>b\<in>set bl. \<not> snd b)"
  by (induction a bl rule: used_at.induct) auto

lemma holds_destroy:
  assumes h: "holds len k os"
  shows "heap_destroy (kernelHeap k) (kmem k) =
    (if os = [] then ret () else halt (Panic ''Tried to destroy heap with living objects''))"
proof -
  obtain bl where v: "heap_valid (kernelHeap k)" and L: "heap_linked (kernelHeap k) (kmem k) bl"
    and e: "spans os = mset (used_at (m_base (kernelHeap k)) bl)" and f: "fits (m_base (kernelHeap k)) bl"
    and ex: "extent bl = 32 + len"
    using h by (rule holdsE)
  have "os = [] \<longleftrightarrow> (\<forall>b\<in>set bl. \<not> snd b)"
    using e used_at_Nil [of "m_base (kernelHeap k)" bl] by (auto simp: spans_def)
  then show ?thesis
    using heap_check_loop_chain [of "kmem k" "m_base (kernelHeap k)" bl] L v
    by (auto simp: heap_destroy_def heap_linked_def heap_blocks_def heap_valid_def rootHeader_def)
qed

lemma holds_request:
  assumes h: "holds len k os" and n: "unat n + 32 < 2 ^ 64"
  shows "op_new k n = halt (Panic ''Allocation failed'') \<or>
    (\<exists>p k'. op_new k n = ret (p, k') \<and> (\<forall>(q, cs)\<in>set os. region p (unat n) \<inter> region q (length cs) = {}))"
proof -
  let ?hp = "kernelHeap k" and ?a = "m_base (kernelHeap k)"
  obtain bl where v: "heap_valid ?hp" and L: "heap_linked ?hp (kmem k) bl"
    and e: "spans os = mset (used_at ?a bl)" and f: "fits ?a bl" and ex: "extent bl = 32 + len"
    using h by (rule holdsE)
  have c: "hchain (kmem k) ?a bl" "bl \<noteq> []" using L by (simp_all add: heap_linked_def heap_blocks_def)
  note run = heap_alloc_loop_first_fit [OF c(1) f c(2) n]
  show ?thesis
  proof (cases "first_fit (unat ?a) (unat n) bl")
    case None
    then show ?thesis using run v by (simp add: op_new_def heap_alloc_def rootHeader_def)
  next
    case (Some r)
    obtain p bl' where r: "r = (p, bl')" by (cases r)
    obtain m where m: "heap_alloc_loop (kmem k) ?a n = ret (Some (of_nat p), m)" using run Some r by auto
    have s: "p + unat n \<le> unat ?a + extent bl" "\<And>x. live (unat ?a) bl x \<Longrightarrow> \<not> (p \<le> x \<and> x < p + unat n)"
      using first_fit_shape [OF Some [unfolded r]] by auto
    have "unat (of_nat p :: u64) = p" using s(1) f by (intro unat_of_nat_small) (simp add: fits_def)
    then have "x \<in> region (of_nat p) (unat n) \<longleftrightarrow> p \<le> unat x \<and> unat x < p + unat n" for x :: u64
      using s(1) f by (subst in_region_nat) (simp_all add: fits_def)
    then have "region (of_nat p) (unat n) \<inter> region q (length cs) = {}" if "(q, cs) \<in> set os" for q cs
      using s(2) live_used [OF f] holds_used [OF h e that] by blast
    then show ?thesis using m v by (auto simp: op_new_def heap_alloc_def rootHeader_def)
  qed
qed

text \<open>
  C9. A program that starts on a fresh heap, deletes only what it holds, asks for less than 2^64 - 32
  bytes at a time and has none of its requests cut a free block in front of another one
  (\<open>in_place\<close>): whatever else it does, the heap stays well formed, its blocks are distinct and disjoint and hold the bytes it stored last, both forms of
  \<open>delete\<close> of any of them return, a request either panics that the allocation failed or yields
  bytes apart from all blocks held, and the destructor of the heap returns exactly when nothing is
  held any more.
\<close>

theorem client_sound:
  assumes "heap_valid (kernelHeap k0)" and "heap_linked (kernelHeap k0) (kmem k0) [(len, False)]"
    and "client_step\<^sup>*\<^sup>* (k0, []) (k, os)"
  shows "distinct (map fst os) \<and>
    (\<forall>(p, bs)\<in>set os. peek (kmem k) p (length bs) = bs \<and>
       (\<exists>k'. op_delete k p = ret k' \<and> op_delete_sized k p (of_nat (length bs)) = ret k') \<and>
       (\<forall>(q, cs)\<in>set os. p \<noteq> q \<longrightarrow> region p (length bs) \<inter> region q (length cs) = {})) \<and>
    (\<forall>n. unat n + 32 < 2 ^ 64 \<longrightarrow> op_new k n = halt (Panic ''Allocation failed'') \<or>
       (\<exists>p k'. op_new k n = ret (p, k') \<and> (\<forall>(q, cs)\<in>set os. region p (unat n) \<inter> region q (length cs) = {}))) \<and>
    heap_destroy (kernelHeap k) (kmem k) =
      (if os = [] then ret () else halt (Panic ''Tried to destroy heap with living objects''))"
proof -
  have h: "holds len k os" using client_run_holds [OF assms(3)] holds_fresh assms(1,2) by blast
  have "peek (kmem k) p (length bs) = bs \<and>
       (\<exists>k'. op_delete k p = ret k' \<and> op_delete_sized k p (of_nat (length bs)) = ret k') \<and>
       (\<forall>(q, cs)\<in>set os. p \<noteq> q \<longrightarrow> region p (length bs) \<inter> region q (length cs) = {})"
    if "(p, bs) \<in> set os" for p bs
    using holds_reads [OF h that] holds_delete [OF h that] holds_apart(2) [OF h that] by blast
  then show ?thesis
    using holds_apart(1) [OF h] holds_request [OF h] holds_destroy [OF h] by blast
qed

text \<open>A kernel with a heap of 1024 bytes, and the program that takes 100 bytes and stores one.\<close>

definition fresh_kernel :: kst where
  "fresh_kernel = \<lparr>mm = \<lparr>paging = \<lparr>mem = snd small_heap, pagingRange = \<lparr>rstart = 0, rend = 0\<rparr>,
       trackingStructure = 0, refcountStructure = 0, refcountSize = 0, kernelPml4 = 0, currentPml4 = 0\<rparr>,
       physicalTracking = []\<rparr>,
     kernelHeap = fst small_heap\<rparr>"

lemma fresh_kernel_heap:
  "kernelHeap fresh_kernel = fst small_heap" "kmem fresh_kernel = snd small_heap" "heap_valid (kernelHeap fresh_kernel)"
  "heap_linked (kernelHeap fresh_kernel) (kmem fresh_kernel) [(992, False)]"
  using small_heap_linked by (simp_all add: fresh_kernel_def kmem_def heap_valid_def small_heap_base)

lemma fresh_kernel_run:
  obtains k bs where "client_step\<^sup>*\<^sup>* (fresh_kernel, []) (k, [(0x80000020, bs)])" and "length bs = 100" and "bs ! 0 = 42"
proof -
  obtain m1 where a: "heap_alloc (fst small_heap) (snd small_heap) 100 = ret (Some 0x80000020, m1)"
    using small_heap_alloc by blast
  let ?k = "set_kmem fresh_kernel m1" and ?bs = "peek m1 0x80000020 100"
  have "op_new fresh_kernel 100 = ret (0x80000020, ?k)"
    using op_new_ret [OF fresh_kernel_heap(3)] a by (simp add: fresh_kernel_heap)
  moreover have "in_place (kmem fresh_kernel) 0x80000020 100"
    using small_heap_linked by (simp add: in_place_def fresh_kernel_heap heap_linked_def heap_blocks_def small_heap_base HEADER_def)
  ultimately have 1: "client_step (fresh_kernel, []) (?k, [(0x80000020, ?bs)])"
    using client_step.new [of 100 fresh_kernel "0x80000020" ?k "[]"] by simp
  have 2: "client_step (?k, [(0x80000020, ?bs)])
      (set_kmem ?k ((kmem ?k)(0x80000020 + of_nat 0 := 42)), (0x80000020, ?bs[0 := 42]) # remove1 (0x80000020, ?bs) [(0x80000020, ?bs)])"
    by (rule client_step.store) (simp_all add: peek_def)
  then have "client_step\<^sup>*\<^sup>* (fresh_kernel, [])
      (set_kmem ?k ((kmem ?k)(0x80000020 + of_nat 0 := 42)), [(0x80000020, ?bs[0 := 42])])"
    using 1 by (auto intro: converse_rtranclp_into_rtranclp)
  then show ?thesis by (rule that) (simp_all add: peek_def)
qed

theorem client_sound_witness:
  "\<exists>k bs k'. client_step\<^sup>*\<^sup>* (fresh_kernel, []) (k, [(0x80000020, bs)]) \<and> peek (kmem k) 0x80000020 100 ! 0 = 42 \<and>
     op_delete k 0x80000020 = ret k'"
proof -
  obtain k bs where r: "client_step\<^sup>*\<^sup>* (fresh_kernel, []) (k, [(0x80000020, bs)])" and b: "length bs = 100" "bs ! 0 = 42"
    by (rule fresh_kernel_run)
  show ?thesis using client_sound [OF fresh_kernel_heap(3,4) r] r b by auto
qed

end
