(* ===== verification/HeapStack.thy ===== *)
theory HeapStack
  imports HeapClient
begin

text \<open>
  Programs that delete their blocks in the reverse order of the requests.  Unlike the programs of
  HeapClient they need no condition on where their blocks are cut: all blocks in use come first in the list, at most one free block follows, so
  nothing is ever cut in front of another block, and when all is deleted the heap is the one free
  block it was.
\<close>

unbundle bit_operations_syntax

inductive stack_step :: "kst \<times> held \<Rightarrow> kst \<times> held \<Rightarrow> bool" where
  push: "unat n + 32 < 2 ^ 64 \<Longrightarrow> op_new k n = ret (p, k') \<Longrightarrow>
    stack_step (k, os) (k', (p, peek (kmem k') p (unat n)) # os)"
| pop: "op_delete k p = ret k' \<Longrightarrow> stack_step (k, (p, bs) # os) (k', os)"
| poke: "i < length bs \<Longrightarrow>
    stack_step (k, os @ (p, bs) # qs) (set_kmem k ((kmem k)(p + of_nat i := v)), os @ (p, bs[i := v]) # qs)"

inductive_cases stack_stepE: "stack_step (k, os) (k', os')"

text \<open>All blocks but the last are in use, and the program holds them, the newest first.\<close>

definition stacked :: "nat \<Rightarrow> kst \<Rightarrow> held \<Rightarrow> bool" where
  "stacked len k os \<longleftrightarrow>
     (\<exists>bl. heap_linked (kernelHeap k) (kmem k) bl \<and> extent bl = 32 + len \<and> (\<forall>b\<in>set (butlast bl). snd b) \<and>
        map (\<lambda>(p, bs). (p, length bs)) os = rev (used_at (m_base (kernelHeap k)) bl))"

lemma holds_perm: "holds len k os \<Longrightarrow> mset os' = mset os \<Longrightarrow> holds len k os'"
  using mset_eq_setD [of os' os] by (simp add: holds_def spans_def mset_map)

lemma all_used: "\<forall>b\<in>set xs. snd b \<Longrightarrow> takeWhile free_block (rev xs) = [] \<and> rev (dropWhile free_block (rev xs)) = xs"
  by (cases xs rule: rev_cases) auto

lemma push_in_place:
  assumes L: "heap_linked (kernelHeap k) (kmem k) bl" and u: "\<forall>b\<in>set (butlast bl). snd b"
    and v: "heap_valid (kernelHeap k)" and n: "unat n + 32 < 2 ^ 64" and run: "op_new k n = ret (p, k')"
  shows "in_place (kmem k) p n"
proof -
  let ?a = "m_base (kernelHeap k)"
  have h: "hchain (kmem k) ?a bl" "fits ?a bl" "bl \<noteq> []"
    using L by (simp_all add: heap_linked_def heap_blocks_def)
  obtain m where "heap_alloc_loop (kmem k) ?a n = ret (Some p, m)"
    using run op_new_ret [OF v] by (auto simp: heap_alloc_def rootHeader_def)
  then obtain xs N ys where b: "bl = xs @ (N, False) # ys" "p = pos ?a xs + HEADER"
    using alloc_loop_shape [OF h n] by blast
  have "ys = []" using u by (cases ys) (auto simp: b(1) butlast_append)
  then have "hchain (kmem k) (pos ?a xs) [(N, False)]" using h(1) by (simp add: b(1) hchain_append)
  then show ?thesis by (simp add: in_place_def b(2))
qed

lemma stacked_push:
  assumes st: "stacked len k os" and v: "heap_valid (kernelHeap k)"
    and n: "unat n + 32 < 2 ^ 64" and run: "op_new k n = ret (p, k')"
  shows "stacked len k' ((p, peek (kmem k') p (unat n)) # os)" and "in_place (kmem k) p n"
proof -
  let ?hp = "kernelHeap k"
  obtain bl where L: "heap_linked ?hp (kmem k) bl" and e: "extent bl = 32 + len"
    and u: "\<forall>b\<in>set (butlast bl). snd b"
    and os: "map (\<lambda>(p, bs). (p, length bs)) os = rev (used_at (m_base ?hp) bl)"
    using st by (auto simp: stacked_def)
  show ip: "in_place (kmem k) p n" using L u v n run by (rule push_in_place)
  obtain m where a: "heap_alloc ?hp (kmem k) n = ret (Some p, m)" and k': "k' = set_kmem k m"
    using run op_new_ret [OF v] by blast
  obtain xs N ys zs where b: "bl = xs @ (N, False) # ys" "p = pos (m_base ?hp) xs + HEADER"
    and l: "heap_linked ?hp m (xs @ (unat n, True) # zs)" and z: "zs = ys \<or> ys = [] \<and> (\<exists>j. zs = [(j, False)])"
    and e': "extent (xs @ (unat n, True) # zs) = extent bl"
    and "mset (used_at (m_base ?hp) (xs @ (unat n, True) # zs)) = add_mset (p, unat n) (mset (used_at (m_base ?hp) bl))"
    and "\<And>x. live (unat (m_base ?hp)) bl (unat x) \<or> x \<notin> region (m_base ?hp) (extent bl) \<Longrightarrow> m x = kmem k x"
    by (rule heap_alloc_linked [OF L n a ip]) (rule that)
  have ys: "ys = []" using u by (cases ys) (auto simp: b(1) butlast_append)
  then have "\<forall>b\<in>set (butlast (xs @ (unat n, True) # zs)). snd b"
    using u z by (auto simp: b(1) butlast_append)
  moreover have "map (\<lambda>(p, bs). (p, length bs)) ((p, peek (kmem k') p (unat n)) # os) =
      rev (used_at (m_base ?hp) (xs @ (unat n, True) # zs))"
    using os z ys by (auto simp: b peek_def)
  ultimately show "stacked len k' ((p, peek (kmem k') p (unat n)) # os)"
    using l e e' unfolding stacked_def k' kmem_set by metis
qed

lemma stacked_pop:
  assumes st: "stacked len k ((p, bs) # os)" and v: "heap_valid (kernelHeap k)"
  shows "\<exists>k'. op_delete k p = ret k' \<and> stacked len k' os"
proof -
  let ?hp = "kernelHeap k" and ?a = "m_base (kernelHeap k)"
  obtain bl where L: "heap_linked ?hp (kmem k) bl" and e: "extent bl = 32 + len"
    and u: "\<forall>b\<in>set (butlast bl). snd b"
    and os: "(p, length bs) # map (\<lambda>(p, bs). (p, length bs)) os = rev (used_at ?a bl)"
    using st by (auto simp: stacked_def)
  have us: "used_at ?a bl = rev (map (\<lambda>(p, bs). (p, length bs)) os) @ [(p, length bs)]"
    using arg_cong [OF os, of rev] by simp
  obtain xs ys where b: "bl = xs @ (length bs, True) # ys" "p = pos ?a xs + HEADER"
    using used_at_block [of p "length bs" ?a bl] us by auto
  have "fits ?a bl" using L by (simp add: heap_linked_def heap_blocks_def)
  then have "sorted_wrt (\<lambda>b c. unat (fst b) < unat (fst c)) (used_at ?a bl)"
    using used_at_order [of ?a bl] by (auto elim!: sorted_wrt_mono_rel [rotated])
  then have nil: "used_at (next_hdr (pos ?a xs) (length bs)) ys = []"
    using us by (cases "used_at (next_hdr (pos ?a xs) (length bs)) ys" rule: rev_cases)
      (auto simp: b sorted_wrt_append)
  then have "\<forall>b\<in>set ys. free_block b" by (simp add: used_at_Nil)
  moreover have xs: "\<forall>b\<in>set xs. snd b" using u by (auto simp: b(1) butlast_append)
  ultimately have "dropWhile free_block ys = []" by simp
  then have c: "\<exists>j. coalesce xs (length bs) ys = xs @ [(j, False)]"
    using all_used [OF xs] by (simp add: coalesce_def)
  obtain m where m: "heap_free (kmem k) p = ret m" "heap_linked ?hp m (coalesce xs (length bs) ys)"
    using heap_free_coalesced [OF L [unfolded b(1)] b(2)] by blast
  have "used_at ?a (coalesce xs (length bs) ys) = rev (map (\<lambda>(p, bs). (p, length bs)) os)"
    using us nil unfolding used_at_coalesce by (simp add: b)
  moreover have "extent (coalesce xs (length bs) ys) = 32 + len" using e by (simp add: extent_coalesce b(1))
  moreover have "\<forall>b\<in>set (butlast (coalesce xs (length bs) ys)). snd b" using c xs by auto
  ultimately have "stacked len (set_kmem k m) os" using m(2) by (auto simp: stacked_def)
  then show ?thesis using m(1) v by (simp add: op_delete_def)
qed

lemma stacked_poke:
  assumes st: "stacked len k (os @ (p, bs) # qs)" and i: "i < length bs"
  shows "stacked len (set_kmem k ((kmem k)(p + of_nat i := v))) (os @ (p, bs[i := v]) # qs)"
proof -
  let ?hp = "kernelHeap k"
  obtain bl where L: "heap_linked ?hp (kmem k) bl" and e: "extent bl = 32 + len"
    and u: "\<forall>b\<in>set (butlast bl). snd b"
    and os: "map (\<lambda>(p, bs). (p, length bs)) (os @ (p, bs) # qs) = rev (used_at (m_base ?hp) bl)"
    using st unfolding stacked_def by blast
  have "(p, length bs) \<in> set (rev (used_at (m_base ?hp) bl))" unfolding os [symmetric] by simp
  then have m: "(p, length bs) \<in> set (used_at (m_base ?hp) bl)" by simp
  have f: "fits (m_base ?hp) bl" using L by (simp add: heap_linked_def heap_blocks_def)
  have "length bs < 2 ^ 64" using used_at_order [OF f] m f by (fastforce simp: fits_def)
  then have "p + of_nat i \<in> region p (length bs)" using i by (simp add: in_region_iff unat_of_nat_small)
  from heap_put_linked [OF L m this] e u os show ?thesis by (auto simp: stacked_def)
qed

lemma stack_step_kept:
  assumes "stack_step (k, os) (k', os')" and h: "holds len k os" and st: "stacked len k os"
  shows "holds len k' os' \<and> stacked len k' os' \<and> heap_only len k k'"
  using assms(1)
proof (rule stack_stepE, goal_cases)
  case (1 n p)
  have v: "heap_valid (kernelHeap k)" using h by (simp add: holds_def)
  have n: "unat n + 32 < 2 ^ 64" using 1(2) by simp
  note s = stacked_push [OF st v n 1(3)]
  then show ?thesis using holds_new [OF h n 1(3) s(2)] 1 by simp
next
  case (2 p bs)
  have v: "heap_valid (kernelHeap k)" using h by (simp add: holds_def)
  obtain k1 where k1: "op_delete k p = ret k1" "holds len k1 (remove1 (p, bs) os)" "heap_only len k k1"
    using holds_delete [OF h, of p bs] 2 by auto
  obtain k2 where k2: "op_delete k p = ret k2" "stacked len k2 os'"
    using stacked_pop [of len k p bs os'] st v 2 by auto
  show ?thesis using k1 k2 2 by simp
next
  case (3 i bs ps p qs v)
  have "holds len k' ((p, bs[i := v]) # remove1 (p, bs) os)"
    using holds_store [OF h, of p bs i v] 3 by simp
  then have "holds len k' os'" by (rule holds_perm) (simp add: 3)
  moreover have "heap_only len k k'" using holds_store(2) [OF h, of p bs i v] 3 by simp
  ultimately show ?thesis using stacked_poke [of len k ps p bs qs i v] st 3 by simp
qed

lemma stack_run_kept:
  "stack_step\<^sup>*\<^sup>* (k, os) (k', os') \<Longrightarrow> holds len k os \<and> stacked len k os \<Longrightarrow> holds len k' os' \<and> stacked len k' os'"
  by (induction rule: rtranclp_induct2) (auto dest: stack_step_kept)

lemma stacked_fresh: "heap_linked (kernelHeap k) (kmem k) [(len, False)] \<Longrightarrow> stacked len k []"
  by (auto simp: stacked_def intro!: exI [of _ "[(len, False)]"])

lemma stacked_frame: "stacked len k os \<Longrightarrow> same_heap len k k' \<Longrightarrow> stacked len k' os"
  unfolding stacked_def using heap_linked_frame by (fastforce simp: same_heap_def)

lemma stacked_empty:
  assumes "stacked len k []"
  shows "heap_linked (kernelHeap k) (kmem k) [(len, False)]"
proof -
  obtain bl where b: "heap_linked (kernelHeap k) (kmem k) bl" "extent bl = 32 + len"
      "\<forall>b\<in>set (butlast bl). snd b" "used_at (m_base (kernelHeap k)) bl = []"
    using assms by (auto simp: stacked_def)
  have "bl \<noteq> []" using b(1) by (simp add: heap_linked_def heap_blocks_def)
  then obtain cs n u where bl: "bl = cs @ [(n, u)]" by (metis append_butlast_last_id surj_pair)
  have "cs = []" using b(3,4) by (cases cs) (auto simp: bl used_at_Nil)
  moreover have "\<not> u" using b(4) by (simp add: bl split: if_splits)
  ultimately show ?thesis using b(1,2) by (simp add: bl)
qed

text \<open>
  C17. A program on a fresh heap that asks for less than 2^64 - 32 bytes at a time and deletes in the
  reverse order of its requests: a request returns a block or panics that the allocation failed,
  its newest block can always be deleted, its blocks hold what was stored last, and once everything
  is deleted the heap is the one free block it was.  No condition on where the blocks are cut is
  needed.
\<close>

theorem stack_programs_sound:
  assumes "heap_valid (kernelHeap k0)" and "heap_linked (kernelHeap k0) (kmem k0) [(len, False)]"
    and "stack_step\<^sup>*\<^sup>* (k0, []) (k, os)"
  shows "(\<forall>(p, bs)\<in>set os. peek (kmem k) p (length bs) = bs) \<and>
    (\<forall>n. unat n + 32 < 2 ^ 64 \<longrightarrow> op_new k n = halt (Panic ''Allocation failed'') \<or>
       (\<exists>p k'. op_new k n = ret (p, k') \<and> stack_step (k, os) (k', (p, peek (kmem k') p (unat n)) # os))) \<and>
    (os \<noteq> [] \<longrightarrow> (\<exists>k'. op_delete k (fst (hd os)) = ret k' \<and> stack_step (k, os) (k', tl os))) \<and>
    (os = [] \<longrightarrow> heap_linked (kernelHeap k) (kmem k) [(len, False)])"
proof -
  have "stacked len k0 []" using assms(2) by (rule stacked_fresh)
  then have h: "holds len k os" "stacked len k os"
    using stack_run_kept [OF assms(3), of len] holds_fresh [OF assms(1,2)] by simp_all
  have "os \<noteq> [] \<longrightarrow> (\<exists>k'. op_delete k (fst (hd os)) = ret k' \<and> stack_step (k, os) (k', tl os))"
  proof
    assume "os \<noteq> []"
    then obtain p bs qs where os: "os = (p, bs) # qs" by (metis neq_Nil_conv surj_pair)
    then obtain k' where "op_delete k p = ret k'" using holds_delete [OF h(1), of p bs] by auto
    then show "\<exists>k'. op_delete k (fst (hd os)) = ret k' \<and> stack_step (k, os) (k', tl os)"
      by (auto simp: os intro: stack_step.pop)
  qed
  moreover have "\<forall>(p, bs)\<in>set os. peek (kmem k) p (length bs) = bs" using holds_reads [OF h(1)] by blast
  moreover have "os = [] \<longrightarrow> heap_linked (kernelHeap k) (kmem k) [(len, False)]"
    using stacked_empty h(2) by auto
  moreover have "op_new k n = halt (Panic ''Allocation failed'') \<or>
      (\<exists>p k'. op_new k n = ret (p, k') \<and> stack_step (k, os) (k', (p, peek (kmem k') p (unat n)) # os))"
    if n: "unat n + 32 < 2 ^ 64" for n
    using holds_request [OF h(1) n] stack_step.push [OF n] by blast
  ultimately show ?thesis by blast
qed

lemma fresh_kernel_stack:
  obtains k k' bs where "stack_step\<^sup>*\<^sup>* (fresh_kernel, []) (k, [(0x80000020, bs)])"
    and "stack_step\<^sup>*\<^sup>* (fresh_kernel, []) (k', [])"
proof -
  obtain m1 where a: "heap_alloc (fst small_heap) (snd small_heap) 100 = ret (Some 0x80000020, m1)"
    using small_heap_alloc by blast
  let ?k = "set_kmem fresh_kernel m1" and ?bs = "peek m1 0x80000020 100"
  have n: "op_new fresh_kernel 100 = ret (0x80000020, ?k)"
    using op_new_ret [OF fresh_kernel_heap(3)] a by (simp add: fresh_kernel_heap)
  have 1: "stack_step (fresh_kernel, []) (?k, [(0x80000020, ?bs)])"
    using stack_step.push [OF _ n, of "[]"] by simp
  have "stacked 992 fresh_kernel []" using fresh_kernel_heap(4) by (rule stacked_fresh)
  then have "holds 992 ?k [(0x80000020, ?bs)]"
    using stack_step_kept [OF 1, of 992] holds_fresh fresh_kernel_heap(3,4) by blast
  then obtain k' where "op_delete ?k 0x80000020 = ret k'"
    using holds_delete [of 992 ?k "[(0x80000020, ?bs)]" "0x80000020" ?bs] by auto
  then have "stack_step (?k, [(0x80000020, ?bs)]) (k', [])" by (rule stack_step.pop)
  with 1 show ?thesis using that by (meson converse_rtranclp_into_rtranclp rtranclp.rtrancl_refl)
qed

theorem stack_programs_sound_witness:
  "\<exists>k k' k'' bs. stack_step\<^sup>*\<^sup>* (fresh_kernel, []) (k, [(0x80000020, bs)]) \<and> op_delete k 0x80000020 = ret k' \<and>
     stack_step\<^sup>*\<^sup>* (fresh_kernel, []) (k'', []) \<and> heap_linked (kernelHeap k'') (kmem k'') [(992, False)]"
proof -
  obtain k k'' bs where r: "stack_step\<^sup>*\<^sup>* (fresh_kernel, []) (k, [(0x80000020, bs)])"
    "stack_step\<^sup>*\<^sup>* (fresh_kernel, []) (k'', [])"
    by (rule fresh_kernel_stack)
  note s = stack_programs_sound [OF fresh_kernel_heap(3,4)]
  show ?thesis using s [OF r(1)] s [OF r(2)] r by auto
qed

end
