(* ===== verification/KernelRuns.thy ===== *)
theory KernelRuns
  imports KernelStart HeapStack
begin

text \<open>
  Programs on the kernel once it has started: the heap that \<open>heap::init\<close> set up lies in mapped
  pages away from the tables, so whatever a program does with \<open>new\<close>, \<open>delete\<close> and its blocks
  leaves paging and memory manager as they are.
\<close>

unbundle bit_operations_syntax

lemma heap_page:
  assumes "x \<in> region (0x80000000 :: u64) 0x2000000"
  shows "canonical x \<and> (\<exists>i<16. frame_addr x = page_at 0x80000000 i)"
proof -
  have x: "0x80000000 \<le> unat x" "unat x < 0x82000000"
    using assms in_region_nat [of "0x80000000 :: u64" "0x2000000" x] by simp_all
  let ?i = "unat x div 0x200000 - 1024"
  have i: "?i < 16" "unat x div 0x200000 = 1024 + ?i" using x by (simp_all add: div_le_mono less_mult_imp_div_less)
  have "unat (page_at 0x80000000 ?i) = 0x80000000 + ?i * 0x200000"
    using i(1) by (subst unat_page_at) simp_all
  moreover have "unat (frame_addr x) = (1024 + ?i) * 0x200000"
    using i(2) by (simp add: unat_frame_addr)
  ultimately have "frame_addr x = page_at 0x80000000 ?i" by (simp add: word_unat_eq_iff)
  then show ?thesis using i(1) x by (auto simp: canonical_def word_less_nat_alt)
qed

lemma get_frame_addr: "pml4_get s p x = None \<longleftrightarrow> pml4_get s p (frame_addr x) = None"
  by (simp add: pml4_get_leaf)

text \<open>Stores away from the paging structures leave paging as it is.\<close>

lemma set_kmem_paging:
  assumes ok: "mm_ok (mm k) p" and eq: "\<And>x. x \<in> pt_region (paging (mm k)) \<Longrightarrow> m x = kmem k x"
  shows "mm_ok (mm (set_kmem k m)) p" and "physicalTracking (mm (set_kmem k m)) = physicalTracking (mm k)"
    and "pt_region (paging (mm (set_kmem k m))) = pt_region (paging (mm k))"
    and "free_pages (paging (mm (set_kmem k m))) = free_pages (paging (mm k))"
    and "canonical x \<Longrightarrow> pml4_get (paging (mm (set_kmem k m))) p x = pml4_get (paging (mm k)) p x"
proof -
  have pg: "paging (mm (set_kmem k m)) = (paging (mm k))\<lparr>mem := m\<rparr>" by (simp add: set_kmem_def)
  have om: "only_mem (paging (mm k)) (paging (mm (set_kmem k m)))" by (simp add: pg)
  have e: "mem (paging (mm (set_kmem k m))) x = mem (paging (mm k)) x" if "x \<in> pt_region (paging (mm k))" for x
    using eq [OF that] by (simp add: pg kmem_def)
  have pt: "pt_ok (paging (mm k)) p" using ok by (simp add: mm_ok_def)
  show tr: "physicalTracking (mm (set_kmem k m)) = physicalTracking (mm k)" by (simp add: set_kmem_def)
  show "mm_ok (mm (set_kmem k m)) p" using pt_ok_frame(1) [OF pt om e] ok tr by (simp add: mm_ok_def)
  show "pt_region (paging (mm (set_kmem k m))) = pt_region (paging (mm k))" by (rule only_mem_region [OF om])
  show "free_pages (paging (mm (set_kmem k m))) = free_pages (paging (mm k))" by (rule pt_ok_frame(3) [OF pt om e])
  show "canonical x \<Longrightarrow> pml4_get (paging (mm (set_kmem k m))) p x = pml4_get (paging (mm k)) p x"
    by (rule pt_ok_frame(2) [OF pt om e])
qed

lemma heap_only_paging:
  assumes o: "heap_only len k k'" and ok: "mm_ok (mm k) p"
    and away: "region (m_base (kernelHeap k)) (32 + len) \<inter> pt_region (paging (mm k)) = {}"
  shows "mm_ok (mm k') p" and "physicalTracking (mm k') = physicalTracking (mm k)"
    and "pt_region (paging (mm k')) = pt_region (paging (mm k))"
    and "free_pages (paging (mm k')) = free_pages (paging (mm k))"
    and "canonical x \<Longrightarrow> pml4_get (paging (mm k')) p x = pml4_get (paging (mm k)) p x"
proof -
  obtain m where k': "k' = set_kmem k m"
    and m: "\<And>x. x \<notin> region (m_base (kernelHeap k)) (32 + len) \<Longrightarrow> m x = kmem k x"
    using o by (auto simp: heap_only_def)
  note f = set_kmem_paging [OF ok, of m, folded k']
  show "mm_ok (mm k') p" by (rule f(1)) (use m away in auto)
  show "physicalTracking (mm k') = physicalTracking (mm k)" by (rule f(2)) (use m away in auto)
  show "pt_region (paging (mm k')) = pt_region (paging (mm k))" by (rule f(3)) (use m away in auto)
  show "free_pages (paging (mm k')) = free_pages (paging (mm k))" by (rule f(4)) (use m away in auto)
  show "canonical x \<Longrightarrow> pml4_get (paging (mm k')) p x = pml4_get (paging (mm k)) p x"
    by (rule f(5)) (use m away in auto)
qed

text \<open>
  On the kernel that has started from what the loader left, a program over \<open>new\<close> and \<open>delete\<close>
  that cuts no block in front of another cannot harm paging: tables, frames and the translation of
  every address stay as they were, all bytes of its blocks are mapped and hold what it stored last,
  and each block can be deleted.
\<close>

lemma booted_programs_safe:
  assumes left: "loader_left (paging (mm k)) (read_LoaderData (kmem k) ld) \<rho>"
    and sum: "byte_sum (kmem k) ld sizeof_LoaderData AND 0xFF = 0"
    and h: "m_size (kernelHeap k) = 0"
    and free: "\<forall>i<16. pml4_get (paging (mm k)) 0x100000 (page_at 0x80000000 i) = None"
    and boot: "kernel_boot k ld = ret (k0, rows)"
    and run: "client_step\<^sup>*\<^sup>* (k0, []) (k', os)"
  shows "mm_ok (mm k') 0x100000 \<and> physicalTracking (mm k') = physicalTracking (mm k0) \<and>
    (\<forall>x. canonical x \<longrightarrow> pml4_get (paging (mm k')) 0x100000 x = pml4_get (paging (mm k0)) 0x100000 x) \<and>
    (\<forall>(p, bs)\<in>set os. (\<forall>x\<in>region p (length bs). pml4_get (paging (mm k')) 0x100000 x \<noteq> None) \<and>
       peek (kmem k') p (length bs) = bs \<and> (\<exists>k''. op_delete k' p = ret k''))"
proof -
  have b: "pt_region (paging (mm k0)) \<subseteq> {x. x < 0x400000}" "mm_ok (mm k0) 0x100000"
      "heap_valid (kernelHeap k0)" "m_base (kernelHeap k0) = 0x80000000"
      "heap_linked (kernelHeap k0) (kmem k0) [(0x2000000 - 32, False)]"
    and mapped: "\<And>i. i < 16 \<Longrightarrow> pml4_get (paging (mm k0)) 0x100000 (page_at 0x80000000 i) \<noteq> None"
    using kernel_boot_full [OF left sum h free] boot by auto
  have r: "holds (0x2000000 - 32) k' os" "heap_only (0x2000000 - 32) k0 k'"
    using client_run_holds [OF run] holds_fresh [OF b(3,5)] by blast+
  have away: "region (m_base (kernelHeap k0)) (32 + (0x2000000 - 32)) \<inter> pt_region (paging (mm k0)) = {}"
    using heap_away [OF b(1)] b(4) by simp
  note pg = heap_only_paging [OF r(2) b(2) away]
  have base: "m_base (kernelHeap k') = 0x80000000" using r(2) b(4) by (auto simp: heap_only_def)
  have "pml4_get (paging (mm k')) 0x100000 x \<noteq> None" if "(p, bs) \<in> set os" "x \<in> region p (length bs)" for p bs x
  proof -
    have "x \<in> region (0x80000000 :: u64) 0x2000000" using holds_inside [OF r(1) that] base by simp
    then obtain i where x: "canonical x" "i < 16" "frame_addr x = page_at 0x80000000 i" using heap_page by blast
    then show ?thesis using pg(5) [OF x(1)] mapped [OF x(2)] get_frame_addr [of "paging (mm k0)" "0x100000" x] by simp
  qed
  then show ?thesis using pg holds_reads [OF r(1)] holds_delete [OF r(1)] by blast
qed

lemma fresh_new:
  fixes n :: u64
  assumes v: "heap_valid (kernelHeap k)" and L: "heap_linked (kernelHeap k) (kmem k) [(len, False)]"
    and n: "unat n + 32 < len"
  obtains k' where "client_step (k, []) (k', [(m_base (kernelHeap k) + 32, peek (kmem k') (m_base (kernelHeap k) + 32) (unat n))])"
proof -
  let ?a = "m_base (kernelHeap k)"
  have h: "hchain (kmem k) ?a [(len, False)]" "fits ?a [(len, False)]"
    using L by (simp_all add: heap_linked_def heap_blocks_def)
  have n': "unat n + 32 < 2 ^ 64" using n h(2) by (simp add: fits_def)
  have "(of_nat (unat ?a + 32) :: u64) = ?a + 32" by simp
  then obtain m where "heap_alloc_loop (kmem k) ?a n = ret (Some (?a + 32), m)"
    using heap_alloc_loop_first_fit [OF h _ n'] n by auto
  then have r: "op_new k n = ret (?a + 32, set_kmem k m)"
    using op_new_ret [OF v] by (simp add: heap_alloc_def rootHeader_def)
  have "in_place (kmem k) (?a + 32) n" using h(1) by (simp add: in_place_def HEADER_def)
  from client_step.new [OF n' r this, of "[]"] show ?thesis by (rule that)
qed

end
