(* ===== verification/KernelSystem.thy ===== *)
theory KernelSystem
  imports KernelRuns
begin

text \<open>
  The started kernel as a whole: programs that use the heap and ask \<open>mm::alloc\<close> for pages of their
  own, in any order, and store to both.  The locale \<open>heap_program\<close> is what a discipline of using the
  heap has to keep; both disciplines, that of HeapClient and that of HeapStack, keep it.
\<close>

unbundle bit_operations_syntax

section \<open>Steps of the system\<close>

text \<open>
  A state is the kernel, the blocks of the heap that are held, the pages that were granted with
  their flags, and the bytes stored to such pages.  Requests that fail are not steps, since the
  failure path of \<open>allocPhysicalPages\<close> gives frames of others back; the flags are those mm.hpp has.
  A store needs no flag, since CR0.WP is never set.
\<close>

type_synonym sys = "kst \<times> held \<times> (u64 \<times> u32) list \<times> (u64 \<rightharpoonup> u8)"

definition page_flags :: "u32 set" where
  "page_flags = {0, AF_RW, AF_USER, AF_RW OR AF_USER}"

inductive sys_step :: "(kst \<times> held \<Rightarrow> kst \<times> held \<Rightarrow> bool) \<Rightarrow> u64 \<Rightarrow> sys \<Rightarrow> sys \<Rightarrow> bool" for step p where
  use_heap: "step (k, os) (k', os') \<Longrightarrow> sys_step step p (k, os, gs, w) (k', os', gs, w)"
| get_pages: "0 < unat n \<Longrightarrow> unat n \<le> 32 \<Longrightarrow> fl \<in> page_flags \<Longrightarrow> mm_alloc (mm k) p n fl = ret (Some v, s) \<Longrightarrow>
    sys_step step p (k, os, gs, w) (k\<lparr>mm := s\<rparr>, os, gs @ map (\<lambda>i. (page_at v i, fl)) [0..<unat n], w)"
| use_page: "frame_addr x \<in> fst ` set gs \<Longrightarrow>
    sys_step step p (k, os, gs, w) (set_kmem k ((kmem k)(x := b)), os, gs, w(x \<mapsto> b))"

inductive_cases sys_stepE: "sys_step step p (k, os, gs, w) c"

section \<open>What a discipline of using the heap has to keep\<close>

locale heap_program =
  fixes step :: "kst \<times> held \<Rightarrow> kst \<times> held \<Rightarrow> bool" and keeps :: "nat \<Rightarrow> kst \<Rightarrow> held \<Rightarrow> bool"
  assumes step_keeps: "keeps len k os \<Longrightarrow> step (k, os) (k', os') \<Longrightarrow> keeps len k' os'"
    and step_heap: "keeps len k os \<Longrightarrow> step (k, os) (k', os') \<Longrightarrow> heap_only len k k'"
    and keeps_frame: "keeps len k os \<Longrightarrow> same_heap len k k' \<Longrightarrow> keeps len k' os"
    and keeps_holds: "keeps len k os \<Longrightarrow> holds len k os"
    and keeps_fresh: "heap_valid (kernelHeap k) \<Longrightarrow> heap_linked (kernelHeap k) (kmem k) [(len, False)] \<Longrightarrow> keeps len k []"

interpretation client: heap_program client_step holds
  by unfold_locales (auto dest: client_step_holds intro: holds_frame holds_fresh)

interpretation stack: heap_program stack_step "\<lambda>len k os. holds len k os \<and> stacked len k os"
  by unfold_locales (auto dest: stack_step_kept intro: holds_frame stacked_frame holds_fresh stacked_fresh)

section \<open>The invariant of the system\<close>

definition sys_ok :: "(nat \<Rightarrow> kst \<Rightarrow> held \<Rightarrow> bool) \<Rightarrow> mmst \<Rightarrow> u64 \<Rightarrow> sys \<Rightarrow> bool" where
  "sys_ok keeps s0 p = (\<lambda>(k, os, gs, w).
     mm_ok (mm k) p \<and> keeps (0x2000000 - 32) k os \<and> m_base (kernelHeap k) = 0x80000000 \<and>
     pt_region (paging (mm k)) \<subseteq> {x. x < 0x400000} \<and>
     (\<exists>fr. granted p s0 (heap_pages @ gs) fr (mm k)) \<and>
     (\<forall>(g, fl)\<in>set gs. 0x80000000 \<le> g \<and> fl \<in> page_flags) \<and>
     (\<forall>x b. w x = Some b \<longrightarrow> kmem k x = b \<and> frame_addr x \<in> fst ` set gs))"

lemma heap_page_listed: "x \<in> region (0x80000000 :: u64) 0x2000000 \<Longrightarrow> frame_addr x \<in> fst ` set heap_pages"
  using heap_page [of x] by (auto simp: heap_pages_def image_image)

lemma granted_apart:
  assumes "granted p s0 (heap_pages @ gs) fr s" and "frame_addr x \<in> fst ` set gs"
  shows "x \<notin> region 0x80000000 0x2000000"
proof
  assume "x \<in> region 0x80000000 0x2000000"
  then have "frame_addr x \<in> fst ` set heap_pages" by (rule heap_page_listed)
  then show False using assms by (auto simp: granted_def)
qed

lemma frame_addr_le: "frame_addr x \<le> x"
  by (simp add: word_le_nat_alt unat_frame_addr)

lemma candidate_page_ge: "c \<in> set candidates \<Longrightarrow> n \<le> 32 \<Longrightarrow> i < n \<Longrightarrow> 0x80000000 \<le> page_at c i"
  using candidate_pages(1) [of c n i] candidate_facts(2) [of c] by (simp add: word_le_nat_alt)

context heap_program
begin

lemma sys_use_heap:
  assumes c: "sys_ok keeps s0 p (k, os, gs, w)" and st: "step (k, os) (k', os')"
  shows "sys_ok keeps s0 p (k', os', gs, w)"
proof -
  have ok: "mm_ok (mm k) p" and i: "keeps (0x2000000 - 32) k os" and b: "m_base (kernelHeap k) = 0x80000000"
    and low: "pt_region (paging (mm k)) \<subseteq> {x. x < 0x400000}"
    using c by (simp_all add: sys_ok_def)
  obtain fr where g: "granted p s0 (heap_pages @ gs) fr (mm k)" using c by (auto simp: sys_ok_def)
  have o: "heap_only (0x2000000 - 32) k k'" using i st by (rule step_heap)
  have away: "region (m_base (kernelHeap k)) (32 + (0x2000000 - 32)) \<inter> pt_region (paging (mm k)) = {}"
    using heap_away [OF low] b by simp
  note pg = heap_only_paging [OF o ok away]
  have "kmem k' x = kmem k x" if "frame_addr x \<in> fst ` set gs" for x
    using o b granted_apart [OF g that] by (auto simp: heap_only_def)
  moreover have "granted p s0 (heap_pages @ gs) fr (mm k')" using g pg(5,2) by (rule granted_frame)
  moreover have "m_base (kernelHeap k') = 0x80000000" using o b by (auto simp: heap_only_def)
  ultimately show ?thesis using c pg(1,3) step_keeps [OF i st] by (auto simp: sys_ok_def)
qed

lemma sys_get_pages:
  assumes c: "sys_ok keeps s0 p (k, os, gs, w)" and n: "0 < unat n" "unat n \<le> 32" and fl: "fl \<in> page_flags"
    and run: "mm_alloc (mm k) p n fl = ret (Some v, s)"
  shows "sys_ok keeps s0 p (k\<lparr>mm := s\<rparr>, os, gs @ map (\<lambda>i. (page_at v i, fl)) [0..<unat n], w)"
proof -
  have ok: "mm_ok (mm k) p" and i: "keeps (0x2000000 - 32) k os" and b: "m_base (kernelHeap k) = 0x80000000"
    and low: "pt_region (paging (mm k)) \<subseteq> {x. x < 0x400000}"
    using c by (simp_all add: sys_ok_def)
  obtain fr where g: "granted p s0 (heap_pages @ gs) fr (mm k)" using c by (auto simp: sys_ok_def)
  obtain fr' where g': "granted p s0 (heap_pages @ gs @ map (\<lambda>i. (page_at v i, fl)) [0..<unat n]) fr' s"
    using granted_more [OF g ok n run] by auto
  have o: "pt_only (paging (mm k)) (paging s)" using ok n run by (rule mm_alloc_pt_only)
  have eq: "mem (paging s) x = kmem k x" if "0x400000 \<le> x" for x
    using low that by (auto simp: kmem_def not_less [symmetric] intro!: pt_only_frame [OF o])
  have "same_heap (0x2000000 - 32) k (k\<lparr>mm := s\<rparr>)"
    using eq b by (auto simp: same_heap_def kmem_def in_region_nat word_le_nat_alt)
  then have "keeps (0x2000000 - 32) (k\<lparr>mm := s\<rparr>) os" using i keeps_frame by blast
  moreover have "mem (paging s) x = kmem k x" if "frame_addr x \<in> fst ` set gs" for x
  proof -
    have "0x80000000 \<le> frame_addr x" using that c by (auto simp: sys_ok_def)
    then have "0x80000000 \<le> x" using frame_addr_le order_trans by blast
    then show ?thesis by (intro eq) (simp add: word_le_nat_alt)
  qed
  moreover have "mm_ok s p" "v \<in> set candidates" using mm_alloc_granted [OF ok n run] by blast+
  moreover have "pt_region (paging s) = pt_region (paging (mm k))"
    by (rule only_mem_region [OF pt_only_mem [OF o]])
  ultimately show ?thesis
    using c g' n(2) fl candidate_page_ge [of v "unat n"] by (auto simp: sys_ok_def kmem_def image_Un)
qed

lemma sys_use_page:
  assumes c: "sys_ok keeps s0 p (k, os, gs, w)" and x: "frame_addr x \<in> fst ` set gs"
  shows "sys_ok keeps s0 p (set_kmem k ((kmem k)(x := y)), os, gs, w(x \<mapsto> y))"
proof -
  have ok: "mm_ok (mm k) p" and i: "keeps (0x2000000 - 32) k os" and b: "m_base (kernelHeap k) = 0x80000000"
    and low: "pt_region (paging (mm k)) \<subseteq> {x. x < 0x400000}"
    using c by (simp_all add: sys_ok_def)
  obtain fr where g: "granted p s0 (heap_pages @ gs) fr (mm k)" using c by (auto simp: sys_ok_def)
  have "0x80000000 \<le> frame_addr x" using x c by (auto simp: sys_ok_def)
  then have "0x80000000 \<le> x" using frame_addr_le order_trans by blast
  then have x': "x \<notin> pt_region (paging (mm k))" using low by (auto simp: word_le_nat_alt word_less_nat_alt)
  define m where "m = (kmem k)(x := y)"
  have m: "m x = y" "\<And>z. z \<noteq> x \<Longrightarrow> m z = kmem k z" by (simp_all add: m_def)
  have "m z = kmem k z" if "z \<in> pt_region (paging (mm k))" for z using that x' m(2) by metis
  note pg = set_kmem_paging [OF ok this]
  have "same_heap (0x2000000 - 32) k (set_kmem k m)"
    using granted_apart [OF g x] b by (auto simp: same_heap_def intro!: m(2))
  then have "keeps (0x2000000 - 32) (set_kmem k m) os" using i keeps_frame by blast
  moreover have "granted p s0 (heap_pages @ gs) fr (mm (set_kmem k m))"
    using g pg(5,2) by (rule granted_frame)
  ultimately show ?thesis using c x pg(1,3) m unfolding m_def [symmetric] by (auto simp: sys_ok_def)
qed

lemma sys_step_ok: "sys_step step p c c' \<Longrightarrow> sys_ok keeps s0 p c \<Longrightarrow> sys_ok keeps s0 p c'"
  by (induction rule: sys_step.induct) (auto intro: sys_use_heap sys_get_pages sys_use_page simp del: fun_upd_apply)

lemma sys_run_ok: "(sys_step step p)\<^sup>*\<^sup>* c c' \<Longrightarrow> sys_ok keeps s0 p c \<Longrightarrow> sys_ok keeps s0 p c'"
  by (induction rule: rtranclp_induct) (auto intro: sys_step_ok)

lemma sys_run_holds:
  assumes "mm_ok (mm k) p" and "heap_valid (kernelHeap k)" and "m_base (kernelHeap k) = 0x80000000"
    and "heap_linked (kernelHeap k) (kmem k) [(0x2000000 - 32, False)]"
    and "pt_region (paging (mm k)) \<subseteq> {x. x < 0x400000}" and "granted p s0 heap_pages fr (mm k)"
    and "(sys_step step p)\<^sup>*\<^sup>* (k, [], [], Map.empty) c"
  shows "sys_ok holds s0 p c"
proof -
  have "sys_ok keeps s0 p (k, [], [], Map.empty)"
    using assms(1,3,5,6) keeps_fresh [OF assms(2,4)] by (auto simp: sys_ok_def)
  then have "sys_ok keeps s0 p c" by (rule sys_run_ok [OF assms(7)])
  then show ?thesis using keeps_holds by (auto simp: sys_ok_def)
qed

end

section \<open>What programs can rely on\<close>

lemma canonical_frame_addr: "canonical (frame_addr x) \<longleftrightarrow> canonical x"
proof -
  have "unat x div 0x200000 * 0x200000 < 0x8000000 * 0x200000 \<longleftrightarrow> unat x < 0x8000000 * 0x200000"
    by (simp only: mult_less_cancel2 div_less_iff_less_mult) simp
  then show ?thesis by (simp add: canonical_def word_less_nat_alt unat_frame_addr)
qed

text \<open>With the flags of mm.hpp a page translates to its frame, with the offset of the address.\<close>

lemma mapped_to_page:
  assumes "frame f" and "fl \<in> page_flags"
  shows "mapped_to (ucast fl) f x = f OR (x AND 0x1FFFFF)"
proof -
  have "f = frame_addr f" using assms(1) by (simp add: frame_def frame_addr_aligned)
  moreover have "frame_addr (leaf_value f (ucast fl)) = frame_addr f"
    using assms(2) by (auto simp: page_flags_def AF_RW_def AF_USER_def leaf_value_def frame_addr_def F_PRESENT_def
        F_PS_def bit.conj_disj_distrib2)
  ultimately show ?thesis by (simp add: mapped_to_def)
qed

lemma sys_ok_translation:
  assumes c: "sys_ok holds s0 p (k, os, gs, w)"
  obtains fr where "distinct (map fst (heap_pages @ gs))" and "inj_on fr (fst ` set (heap_pages @ gs))"
    and "\<And>g x. g \<in> fst ` set (heap_pages @ gs) \<Longrightarrow> frame (fr g) \<and> pml4_get (paging s0) p g = None \<and>
      (frame_addr x = g \<longrightarrow> pml4_get (paging (mm k)) p x = Some (fr g OR (x AND 0x1FFFFF)))"
    and "\<And>x. canonical x \<Longrightarrow> frame_addr x \<notin> fst ` set (heap_pages @ gs) \<Longrightarrow>
      pml4_get (paging (mm k)) p x = pml4_get (paging s0) p x"
proof -
  let ?gs = "heap_pages @ gs"
  obtain fr where g: "granted p s0 ?gs fr (mm k)" using c by (auto simp: sys_ok_def)
  have fl: "fl \<in> page_flags" if "(v, fl) \<in> set ?gs" for v fl
    using that c by (auto simp: sys_ok_def heap_pages_def page_flags_def)
  have one: "frame (fr v) \<and> pml4_get (paging s0) p v = None \<and>
      (frame_addr x = v \<longrightarrow> pml4_get (paging (mm k)) p x = Some (fr v OR (x AND 0x1FFFFF)))"
    if v: "v \<in> fst ` set ?gs" for v x
  proof -
    obtain fl where m: "(v, fl) \<in> set ?gs" using v by force
    then have f: "vpage v" "frame (fr v)" "pml4_get (paging s0) p v = None"
      and tr: "\<And>x. canonical x \<Longrightarrow> frame_addr x = v \<Longrightarrow>
        pml4_get (paging (mm k)) p x = Some (mapped_to (ucast fl) (fr v) x)"
      using g unfolding granted_def by blast+
    have "canonical x" if "frame_addr x = v" using f(1) that canonical_frame_addr [of x] by (simp add: vpage_def)
    then show ?thesis using f tr mapped_to_page [OF f(2) fl [OF m]] by auto
  qed
  show ?thesis using g by (intro that [OF _ _ one]) (auto simp: granted_def)
qed

text \<open>
  C2. On the kernel that has started from what the loader left, programs use the heap under either
  discipline and ask for pages of their own, in any order.  Whatever they do, the tables stay well
  formed; all blocks held lie in the pages of the heap, hold what was stored last and can be
  deleted; the pages are distinct, hold what was stored last, and with the pages of the heap each
  has a frame of its own, from 6 MiB on, to which all its addresses translate; and every other
  address translates as under the loader.
\<close>

theorem kernel_programs_safe:
  assumes left: "loader_left (paging (mm k)) (read_LoaderData (kmem k) ld) \<rho>"
    and sum: "byte_sum (kmem k) ld sizeof_LoaderData AND 0xFF = 0"
    and h: "m_size (kernelHeap k) = 0"
    and free: "\<forall>i<16. pml4_get (paging (mm k)) 0x100000 (page_at 0x80000000 i) = None"
    and boot: "kernel_boot k ld = ret (k0, rows)"
    and step: "step = client_step \<or> step = stack_step"
    and run: "(sys_step step 0x100000)\<^sup>*\<^sup>* (k0, [], [], Map.empty) (k', os, gs, w)"
  shows "mm_ok (mm k') 0x100000 \<and>
    (\<forall>(q, bs)\<in>set os. peek (kmem k') q (length bs) = bs \<and> (\<exists>k''. op_delete k' q = ret k'') \<and>
       (\<forall>x\<in>region q (length bs). frame_addr x \<in> fst ` set heap_pages)) \<and>
    (\<forall>x b. w x = Some b \<longrightarrow> kmem k' x = b) \<and>
    distinct (map fst (heap_pages @ gs)) \<and>
    (\<exists>fr. inj_on fr (fst ` set (heap_pages @ gs)) \<and>
       (\<forall>g\<in>fst ` set (heap_pages @ gs). frame (fr g) \<and> pml4_get (paging (mm k)) 0x100000 g = None \<and>
          (\<forall>x. frame_addr x = g \<longrightarrow>
             pml4_get (paging (mm k')) 0x100000 x = Some (fr g OR (x AND 0x1FFFFF))))) \<and>
    (\<forall>x. canonical x \<longrightarrow> frame_addr x \<notin> fst ` set (heap_pages @ gs) \<longrightarrow>
       pml4_get (paging (mm k')) 0x100000 x = pml4_get (paging (mm k)) 0x100000 x)"
proof -
  obtain s0 fr0 where b: "mm_ok (mm k0) 0x100000" "heap_valid (kernelHeap k0)" "m_base (kernelHeap k0) = 0x80000000"
      "heap_linked (kernelHeap k0) (kmem k0) [(0x2000000 - 32, False)]"
      "pt_region (paging (mm k0)) \<subseteq> {x. x < 0x400000}" "granted 0x100000 s0 heap_pages fr0 (mm k0)"
    and s0: "\<And>x. canonical x \<Longrightarrow> pml4_get (paging s0) 0x100000 x = pml4_get (paging (mm k)) 0x100000 x"
    using kernel_boot_full [OF left sum h free] boot by auto
  have c: "sys_ok holds s0 0x100000 (k', os, gs, w)"
    using step client.sys_run_holds [OF b, of "(k', os, gs, w)"] stack.sys_run_holds [OF b, of "(k', os, gs, w)"] run
    by blast
  then have ok: "mm_ok (mm k') 0x100000" and hd: "holds (0x2000000 - 32) k' os"
    and base: "m_base (kernelHeap k') = 0x80000000" and w: "\<And>x b. w x = Some b \<Longrightarrow> kmem k' x = b"
    by (auto simp: sys_ok_def)
  have blk: "frame_addr x \<in> fst ` set heap_pages" if "(q, bs) \<in> set os" "x \<in> region q (length bs)" for q bs x
    using holds_inside [OF hd that] base by (intro heap_page_listed) simp
  obtain fr where f: "distinct (map fst (heap_pages @ gs))" "inj_on fr (fst ` set (heap_pages @ gs))"
    "\<And>g x. g \<in> fst ` set (heap_pages @ gs) \<Longrightarrow> frame (fr g) \<and> pml4_get (paging s0) 0x100000 g = None \<and>
      (frame_addr x = g \<longrightarrow> pml4_get (paging (mm k')) 0x100000 x = Some (fr g OR (x AND 0x1FFFFF)))"
    "\<And>x. canonical x \<Longrightarrow> frame_addr x \<notin> fst ` set (heap_pages @ gs) \<Longrightarrow>
      pml4_get (paging (mm k')) 0x100000 x = pml4_get (paging s0) 0x100000 x"
    by (rule sys_ok_translation [OF c]) (rule that)
  have cg: "canonical g" if "g \<in> fst ` set (heap_pages @ gs)" for g
    using that c granted_mapped(1) [of "0x100000" s0 "heap_pages @ gs" _ "mm k'" g] by (auto simp: sys_ok_def vpage_def)
  have "\<forall>g\<in>fst ` set (heap_pages @ gs). frame (fr g) \<and> pml4_get (paging (mm k)) 0x100000 g = None \<and>
      (\<forall>x. frame_addr x = g \<longrightarrow> pml4_get (paging (mm k')) 0x100000 x = Some (fr g OR (x AND 0x1FFFFF)))"
    using f(3) s0 [OF cg] by metis
  moreover have "pml4_get (paging (mm k')) 0x100000 x = pml4_get (paging (mm k)) 0x100000 x"
    if "canonical x" "frame_addr x \<notin> fst ` set (heap_pages @ gs)" for x
    using f(4) [OF that] s0 [OF that(1)] by simp
  ultimately show ?thesis using ok holds_reads [OF hd] holds_delete [OF hd] blk w f(1,2) by blast
qed

text \<open>On the booted kernel a program takes 100 bytes of the heap and a page, and stores to the page.\<close>

lemma frame_behind_heap: "allocPhysicalPages heap_frames 1 = (mk_result 0, [0x2600000], (replicate 4096 0)[0 := 0xFFFF8])"
  by (simp add: heap_frames_def allocPhysicalPages_def allocPhysicalPages_loop.simps PHYS_SIZE_def phys_index_def
      phys_bit_def int_one_shl_def)

lemma booted_grant:
  assumes ok: "mm_ok s p" and tr: "physicalTracking s = heap_frames" and room: "32 \<le> card (free_pages (paging s))"
    and c: "c \<in> set candidates" "pml4_get (paging s) p c = None"
  obtains v s' where "mm_alloc s p 1 AF_RW = ret (Some v, s')" and "frame_addr v = v"
proof -
  have "range_free (paging s) p (unat (1 :: u64)) c" using c(2) by (simp add: range_free_def page_at_def)
  then have "List.find (range_free (paging s) p (unat (1 :: u64))) candidates \<noteq> None"
    using c(1) by (auto simp: find_None_iff)
  then obtain v where v: "List.find (range_free (paging s) p (unat (1 :: u64))) candidates = Some v" by blast
  have n: "0 < unat (1 :: u64)" "unat (1 :: u64) \<le> 32" "2 * unat (1 :: u64) \<le> card (free_pages (paging s))"
    using room by simp_all
  obtain s' where s': "mm_alloc s p 1 AF_RW = ret (Some v, s')"
    by (rule mm_alloc_first [OF ok n(1,2) v _ n(3)]) (simp_all add: tr frame_behind_heap)
  have "v \<in> set candidates" using find_least(1) [OF v candidates_sorted] .
  then have "vpage (page_at v 0)" by (rule candidate_pages(2) [of _ 1]) simp_all
  then show ?thesis using that s' by (simp add: page_at_def vpage_def frame_addr_aligned)
qed

lemma left_kernel_program:
  obtains k0 rows k' p bs v where "kernel_boot left_kernel 0x210000 = ret (k0, rows)" and "length bs = 100"
    and "(sys_step client_step 0x100000)\<^sup>*\<^sup>* (k0, [], [], Map.empty) (k', [(p, bs)], [(v, AF_RW)], [v \<mapsto> 42])"
    and "frame_addr v = v"
proof -
  note l = left_kernel_ready
  obtain k0 rows where b: "kernel_boot left_kernel 0x210000 = ret (k0, rows)" "heap_valid (kernelHeap k0)"
      "heap_linked (kernelHeap k0) (kmem k0) [(0x2000000 - 32, False)]" "mm_ok (mm k0) 0x100000"
      "m_base (kernelHeap k0) = 0x80000000" "pt_region (paging (mm k0)) \<subseteq> {x. x < 0x400000}"
      "physicalTracking (mm k0) = heap_frames" "32 \<le> card (free_pages (paging (mm k0)))"
    and get: "\<And>x. canonical x \<Longrightarrow> \<forall>i<16. frame_addr x \<noteq> page_at 0x80000000 i \<Longrightarrow>
      pml4_get (paging (mm k0)) 0x100000 x = pml4_get (paging (mm left_kernel)) 0x100000 x"
    using kernel_boot_full [OF l] by blast
  let ?p = "m_base (kernelHeap k0) + 32" and ?c = "page_at 0x80000000 16"
  have n: "unat (100 :: u64) + 32 < 0x2000000 - 32" by simp
  obtain k1 where k1: "client_step (k0, []) (k1, [(?p, peek (kmem k1) ?p (unat (100 :: u64)))])"
    by (rule fresh_new [OF b(2,3) n])
  have o: "heap_only (0x2000000 - 32) k0 k1" using client_step_holds [OF k1] holds_fresh [OF b(2,3)] by blast
  have aw: "region (m_base (kernelHeap k0)) (32 + (0x2000000 - 32)) \<inter> pt_region (paging (mm k0)) = {}"
    using heap_away [OF b(6)] b(5) by simp
  note pg = heap_only_paging [OF o b(4) aw]
  have c: "?c \<in> set candidates" by (simp add: candidates_def candidate_count_def)
  have vp: "canonical ?c" "frame_addr ?c = ?c"
    by (simp_all add: page_at_def canonical_def frame_addr_def)
  have "16 = i" if "i < 16" "?c = page_at 0x80000000 i" for i
    by (rule candidate_pages_inj [of "0x80000000" 32]) (use that in \<open>simp_all add: candidates_first\<close>)
  then have "\<forall>i<16. frame_addr ?c \<noteq> page_at 0x80000000 i" unfolding vp(2) by blast
  then have "pml4_get (paging (mm k1)) 0x100000 ?c = None"
    using pg(5) [OF vp(1)] get [OF vp(1)] left_kernel_unmapped [OF vp(1)] by simp
  then obtain v s where v: "mm_alloc (mm k1) 0x100000 1 AF_RW = ret (Some v, s)" "frame_addr v = v"
    using booted_grant [OF pg(1) _ _ c] pg(2,4) b(7,8) by auto
  let ?k = "k1\<lparr>mm := s\<rparr>" and ?os = "[(?p, peek (kmem k1) ?p 100)]"
  have 1: "sys_step client_step 0x100000 (k0, [], [], Map.empty) (k1, ?os, [], Map.empty)"
    using k1 by (intro sys_step.use_heap) simp
  have 2: "sys_step client_step 0x100000 (k1, ?os, [], Map.empty) (?k, ?os, [(v, AF_RW)], Map.empty)"
    using sys_step.get_pages [OF _ _ _ v(1), of client_step ?os "[]" Map.empty] by (simp add: page_flags_def page_at_def)
  have 3: "sys_step client_step 0x100000 (?k, ?os, [(v, AF_RW)], Map.empty)
      (set_kmem ?k ((kmem ?k)(v := 42)), ?os, [(v, AF_RW)], [v \<mapsto> 42])"
    by (rule sys_step.use_page) (simp add: v(2))
  have "(sys_step client_step 0x100000)\<^sup>*\<^sup>* (k0, [], [], Map.empty)
      (set_kmem ?k ((kmem ?k)(v := 42)), ?os, [(v, AF_RW)], [v \<mapsto> 42])"
    using 1 2 3 by (meson converse_rtranclp_into_rtranclp rtranclp.rtrancl_refl)
  then show ?thesis using b(1) v(2) by (intro that) (simp_all add: peek_def)
qed

theorem kernel_programs_safe_witness:
  "\<exists>k0 rows k' p bs v f. kernel_boot left_kernel 0x210000 = ret (k0, rows) \<and>
     (sys_step client_step 0x100000)\<^sup>*\<^sup>* (k0, [], [], Map.empty) (k', [(p, bs)], [(v, AF_RW)], [v \<mapsto> 42]) \<and>
     length bs = 100 \<and> kmem k' v = 42 \<and> frame f \<and> pml4_get (paging (mm k')) 0x100000 v = Some (f OR (v AND 0x1FFFFF))"
proof -
  obtain k0 rows k' p bs v where b: "kernel_boot left_kernel 0x210000 = ret (k0, rows)" "length bs = 100"
    and r: "(sys_step client_step 0x100000)\<^sup>*\<^sup>* (k0, [], [], Map.empty) (k', [(p, bs)], [(v, AF_RW)], [v \<mapsto> 42])"
    and v': "frame_addr v = v"
    by (rule left_kernel_program)
  note s = kernel_programs_safe [OF left_kernel_ready b(1) _ r]
  have w: "kmem k' v = 42" using s by auto
  have v: "v \<in> fst ` set (heap_pages @ [(v, AF_RW)])" by simp
  obtain fr where "\<forall>g\<in>fst ` set (heap_pages @ [(v, AF_RW)]). frame (fr g) \<and>
      (\<forall>x. frame_addr x = g \<longrightarrow> pml4_get (paging (mm k')) 0x100000 x = Some (fr g OR (x AND 0x1FFFFF)))"
    using s by blast
  then have "frame (fr v) \<and> (frame_addr v = v \<longrightarrow> pml4_get (paging (mm k')) 0x100000 v = Some (fr v OR (v AND 0x1FFFFF)))"
    using v by blast
  then show ?thesis using b r w v' by blast
qed

end
