(* ===== verification/Strings.thy ===== *)
theory Strings
  imports Memory Containers
begin

text \<open>
  Strings: the C functions of kernel/algo/cstring.cpp and loader/algo/string.cpp and the immutable
  string class \<open>str\<close> of kernel/algo/string.hpp and string.cpp.  A string is where it lies in
  memory; \<open>cstr\<close> and \<open>str_view\<close> relate the pointers to lists of bytes.
\<close>

unbundle bit_operations_syntax

abbreviation ch :: "char \<Rightarrow> u8" where "ch c \<equiv> of_char c"

section \<open>The C functions\<close>

text \<open>\<open>None\<close>: no zero byte ever ends the loop.\<close>

partial_function (option) strlen_loop :: "'a::len mem \<Rightarrow> 'a word \<Rightarrow> 'a word \<Rightarrow> 'a word option" where
  "strlen_loop m s r = (if m s \<noteq> 0 then strlen_loop m (s + 1) (r + 1) else Some r)"

function strncmp_loop :: "'a::len mem \<Rightarrow> 'a word \<Rightarrow> 'a word \<Rightarrow> 'a word \<Rightarrow> 'a word \<Rightarrow> 'a word" where
  "strncmp_loop m a b lim i =
     (if i < lim \<and> (m a \<noteq> 0 \<or> m b \<noteq> 0) then
        if m a \<noteq> m b then a else strncmp_loop m (a + 1) (b + 1) lim (i + 1)
      else 0)"
  by pat_completeness auto
termination
  by (relation "measure (\<lambda>(m, a, b, lim, i). unat lim - unat i)") (simp_all add: loop_measure)

declare strncmp_loop.simps [simp del]

definition strlen :: "64 mem \<Rightarrow> u64 \<Rightarrow> u64 option" where
  "strlen m s = strlen_loop m s 0"

text \<open>The result is the address of the first difference, \<open>nullptr\<close> (0) when there is none.\<close>

definition strncmp :: "64 mem \<Rightarrow> u64 \<Rightarrow> u64 \<Rightarrow> u64 \<Rightarrow> u64" where
  "strncmp m a b lim = strncmp_loop m a b lim 0"

definition loader_strlen :: "32 mem \<Rightarrow> u32 \<Rightarrow> u32 option" where
  "loader_strlen m s = strlen_loop m s 0"

definition loader_strncmp :: "32 mem \<Rightarrow> u32 \<Rightarrow> u32 \<Rightarrow> u32 \<Rightarrow> u32" where
  "loader_strncmp m a b lim = strncmp_loop m a b lim 0"

section \<open>str\<close>

record str =
  m_length :: u64
  m_data :: u64

definition mk_str :: "u64 \<Rightarrow> u64 \<Rightarrow> str" where
  "mk_str ptr len = \<lparr>m_length = len, m_data = ptr\<rparr>"

definition str_of_cstr :: "64 mem \<Rightarrow> u64 \<Rightarrow> str option" where
  "str_of_cstr m ptr = map_option (mk_str ptr) (strlen m ptr)"

definition str_slice_to :: "str \<Rightarrow> u64 \<Rightarrow> str" where
  "str_slice_to s e = mk_str (m_data s) (cmin e (m_length s))"

definition str_slice :: "str \<Rightarrow> u64 \<Rightarrow> u64 \<Rightarrow> str" where
  "str_slice s b e =
     (let start = cmin b (m_length s) in mk_str (m_data s + start) (cmin (cmax b e) (m_length s) - start))"

definition str_length :: "str \<Rightarrow> u64" where "str_length s = m_length s"
definition str_data :: "str \<Rightarrow> u64" where "str_data s = m_data s"

definition str_at :: "64 mem \<Rightarrow> str \<Rightarrow> u64 \<Rightarrow> u8" where
  "str_at m s i = m (m_data s + i)"

definition str_neq :: "64 mem \<Rightarrow> str \<Rightarrow> str \<Rightarrow> bool" where
  "str_neq m s t \<longleftrightarrow>
     (if m_length s \<noteq> m_length t then True else strncmp m (m_data s) (m_data t) (m_length s) \<noteq> 0)"

definition str_eq :: "64 mem \<Rightarrow> str \<Rightarrow> str \<Rightarrow> bool" where
  "str_eq m s t \<longleftrightarrow>
     (if m_length s \<noteq> m_length t then False else strncmp m (m_data s) (m_data t) (m_length s) = 0)"

section \<open>Bytes in memory\<close>

primrec bytes_at :: "'a::len mem \<Rightarrow> 'a word \<Rightarrow> nat \<Rightarrow> u8 list" where
  "bytes_at m p 0 = []"
| "bytes_at m p (Suc n) = m p # bytes_at m (p + 1) n"

text \<open>The bytes \<open>bs\<close> lie at \<open>p\<close>; a C string is followed by a zero byte and contains none.\<close>

primrec lies :: "'a::len mem \<Rightarrow> 'a word \<Rightarrow> u8 list \<Rightarrow> bool" where
  "lies m p [] \<longleftrightarrow> True"
| "lies m p (c # cs) \<longleftrightarrow> m p = c \<and> lies m (p + 1) cs"

definition cstr :: "'a::len mem \<Rightarrow> 'a word \<Rightarrow> u8 list \<Rightarrow> bool" where
  "cstr m p cs \<longleftrightarrow> 0 \<notin> set cs \<and> lies m p (cs @ [0])"

definition str_view :: "64 mem \<Rightarrow> str \<Rightarrow> u8 list" where
  "str_view m s = bytes_at m (m_data s) (unat (m_length s))"

lemma length_bytes_at [simp]: "length (bytes_at m p n) = n"
  by (induction n arbitrary: p) simp_all

lemma nth_bytes_at: "i < n \<Longrightarrow> bytes_at m p n ! i = m (p + of_nat i)"
  by (induction n arbitrary: p i) (auto simp: nth_Cons algebra_simps split: nat.splits)

lemma bytes_at_cong: "(\<And>x. x \<in> region p n \<Longrightarrow> m x = m' x) \<Longrightarrow> n \<le> 2 ^ LENGTH('a) \<Longrightarrow> bytes_at m p n = bytes_at m' p n"
  for p :: "'a::len word"
  by (rule nth_equalityI) (simp_all add: nth_bytes_at in_region_iff unat_of_nat_small)

lemma take_bytes_at: "take k (bytes_at m p n) = bytes_at m p (min k n)"
  by (rule nth_equalityI) (auto simp: nth_bytes_at)

lemma drop_bytes_at: "drop k (bytes_at m p n) = bytes_at m (p + of_nat k) (n - k)"
  by (rule nth_equalityI) (auto simp: nth_bytes_at algebra_simps)

lemma lies_iff: "lies m p cs \<longleftrightarrow> bytes_at m p (length cs) = cs"
  by (induction cs arbitrary: p) simp_all

lemma lies_append: "lies m p (cs @ ds) \<longleftrightarrow> lies m p cs \<and> lies m (p + of_nat (length cs)) ds"
  by (induction cs arbitrary: p) (simp_all add: algebra_simps)

lemma lies_cong:
  fixes p :: "'a::len word"
  assumes "\<And>x. x \<in> region p (length cs) \<Longrightarrow> m x = m' x" and "length cs \<le> 2 ^ LENGTH('a)"
  shows "lies m p cs \<longleftrightarrow> lies m' p cs"
  using bytes_at_cong [of p "length cs" m m'] assms by (simp add: lies_iff)

lemma cstr_Nil [simp]: "cstr m p [] \<longleftrightarrow> m p = 0"
  by (simp add: cstr_def)

lemma cstr_Cons [simp]: "cstr m p (c # cs) \<longleftrightarrow> m p = c \<and> c \<noteq> 0 \<and> cstr m (p + 1) cs"
  by (auto simp: cstr_def)

lemma cstr_cong:
  fixes p :: "'a::len word"
  assumes "\<And>x. x \<in> region p (Suc (length cs)) \<Longrightarrow> m x = m' x" and "Suc (length cs) \<le> 2 ^ LENGTH('a)"
  shows "cstr m p cs \<longleftrightarrow> cstr m' p cs"
  using bytes_at_cong [of p "Suc (length cs)" m m'] assms unfolding cstr_def lies_iff by simp

section \<open>strlen\<close>

lemma strlen_loop_cstr: "cstr m s cs \<Longrightarrow> strlen_loop m s r = Some (r + of_nat (length cs))"
  by (induction cs arbitrary: s r) (simp_all add: strlen_loop.simps algebra_simps)

lemma strlen_cstr: "cstr m s cs \<Longrightarrow> strlen m s = Some (of_nat (length cs))"
  by (simp add: strlen_def strlen_loop_cstr)

lemma strlen_loop_None:
  fixes m :: "'a::len mem"
  assumes "\<And>x. m x \<noteq> 0" shows "strlen_loop m s r = None"
proof (cases "strlen_loop m s r")
  case (Some l)
  have "\<exists>x. m x = 0"
  proof (rule strlen_loop.raw_induct [where P = "\<lambda>(m :: 'a mem) (s :: 'a word) (r :: 'a word) (l :: 'a word). \<exists>x. m x = 0", OF _ Some], goal_cases)
    case (1 f m s r l)
    show ?case
    proof (cases "m s = 0")
      case False
      then show ?thesis using 1(1) [of m "s + 1" "r + 1" l] 1(2) by simp
    qed blast
  qed
  then show ?thesis using assms by blast
qed

lemma cstr_bytes_at:
  "m (p + of_nat n) = 0 \<Longrightarrow> (\<And>k. k < n \<Longrightarrow> m (p + of_nat k) \<noteq> 0) \<Longrightarrow> cstr m p (bytes_at m p n)"
proof (induction n arbitrary: p)
  case 0 then show ?case by simp
next
  case (Suc n)
  have "m (p + 1 + of_nat k) \<noteq> 0" if "k < n" for k
    using Suc.prems(2) [of "Suc k"] that by (simp add: add.assoc)
  then show ?case using Suc.IH [of "p + 1"] Suc.prems(1) Suc.prems(2) [of 0] by (simp add: add.assoc)
qed

lemma cstr_exists:
  assumes "m x = 0" shows "\<exists>cs. cstr m p cs"
proof -
  let ?P = "\<lambda>n. m (p + of_nat n) = 0"
  have ex: "?P (unat (x - p))" using assms by simp
  have "cstr m p (bytes_at m p (LEAST n. ?P n))"
    using LeastI [of ?P, OF ex] not_less_Least [of _ ?P] by (intro cstr_bytes_at) auto
  then show ?thesis by blast
qed

text \<open>Every string is short of the address space, or the zero byte would have been met before.\<close>

lemma cstr_unique: "cstr m p cs \<Longrightarrow> cstr m p ds \<Longrightarrow> cs = ds"
proof (induction cs arbitrary: p ds)
  case Nil then show ?case by (cases ds) auto
next
  case (Cons c cs) then show ?case by (cases ds) auto
qed

lemma cstr_drop: "cstr m p cs \<Longrightarrow> k \<le> length cs \<Longrightarrow> cstr m (p + of_nat k) (drop k cs)"
proof (induction cs arbitrary: p k)
  case (Cons c cs)
  then show ?case using Cons.IH [of "p + 1" "k - 1"] by (cases k) (simp_all add: add.assoc)
qed simp

lemma cstr_length:
  fixes p :: "'a::len word"
  assumes "cstr m p cs" shows "length cs < 2 ^ LENGTH('a)"
proof (rule ccontr)
  assume "\<not> ?thesis"
  then have l: "2 ^ LENGTH('a) \<le> length cs" by simp
  have "of_nat (2 ^ LENGTH('a)) = (0 :: 'a word)" by simp
  moreover have "(0::nat) < 2 ^ LENGTH('a)" by simp
  ultimately have "cstr m p (drop (2 ^ LENGTH('a)) cs)" using cstr_drop [OF assms l] by simp
  then have "drop (2 ^ LENGTH('a)) cs = cs" using assms by (rule cstr_unique)
  then have "length (drop (2 ^ LENGTH('a)) cs) = length cs" by (rule arg_cong)
  moreover have "length cs - 2 ^ LENGTH('a) < length cs" using l by (intro diff_less) auto
  ultimately show False by simp
qed

section \<open>strncmp\<close>

text \<open>What is compared of a string: nothing behind a position where both strings end.\<close>

fun differ_at :: "u8 list \<Rightarrow> u8 list \<Rightarrow> nat option" where
  "differ_at (c # cs) (d # ds) =
     (if c = 0 \<and> d = 0 then None else if c \<noteq> d then Some 0 else map_option Suc (differ_at cs ds))"
| "differ_at cs ds = None"

lemma strncmp_loop_differ_at:
  "i \<le> lim \<Longrightarrow> strncmp_loop m a b lim i =
     (case differ_at (bytes_at m a (unat lim - unat i)) (bytes_at m b (unat lim - unat i)) of
        None \<Rightarrow> 0 | Some k \<Rightarrow> a + of_nat k)"
proof (induction m a b lim i rule: strncmp_loop.induct)
  case (1 m a b lim i)
  show ?case
  proof (cases "i < lim")
    case True
    then have n: "unat lim - unat i = Suc (unat lim - unat (i + 1))"
      by (simp add: unat_suc_less word_less_nat_alt)
    have "i + 1 \<le> lim" using True by (simp add: word_le_nat_alt word_less_nat_alt unat_suc_less)
    then show ?thesis using 1 True
      by (subst strncmp_loop.simps) (auto simp: n algebra_simps split: option.splits)
  next
    case False
    then have "unat lim - unat i = 0" by (simp add: word_less_nat_alt)
    then show ?thesis using False by (subst strncmp_loop.simps) simp
  qed
qed

lemma strncmp_differ_at:
  "strncmp m a b lim = (case differ_at (bytes_at m a (unat lim)) (bytes_at m b (unat lim)) of
     None \<Rightarrow> 0 | Some k \<Rightarrow> a + of_nat k)"
  by (simp add: strncmp_def strncmp_loop_differ_at)

lemma loader_strncmp_differ_at:
  "loader_strncmp m a b lim = (case differ_at (bytes_at m a (unat lim)) (bytes_at m b (unat lim)) of
     None \<Rightarrow> 0 | Some k \<Rightarrow> a + of_nat k)"
  by (simp add: loader_strncmp_def strncmp_loop_differ_at)

lemma differ_at_less: "differ_at cs ds = Some k \<Longrightarrow> k < length cs \<and> k < length ds"
  by (induction cs ds arbitrary: k rule: differ_at.induct) (auto split: if_splits)

lemma differ_at_None: "0 \<notin> set cs \<Longrightarrow> length cs = length ds \<Longrightarrow> differ_at cs ds = None \<longleftrightarrow> cs = ds"
  by (induction cs ds rule: differ_at.induct) auto

section \<open>The functions of str do what their names say\<close>

lemma unat_cmin: "unat (cmin a b) = min (unat a) (unat b)"
  by (auto simp: cmin_def word_less_nat_alt)

lemma unat_cmax: "unat (cmax a b) = max (unat a) (unat b)"
  by (auto simp: cmax_def word_less_nat_alt)

lemma cstr_iff:
  "cstr m p cs \<longleftrightarrow> cs = bytes_at m p (length cs) \<and> m (p + of_nat (length cs)) = 0 \<and>
     (\<forall>k < length cs. m (p + of_nat k) \<noteq> 0)"
proof -
  have "0 \<notin> set (bytes_at m p n) \<longleftrightarrow> (\<forall>k < n. m (p + of_nat k) \<noteq> 0)" for n
    by (auto simp: in_set_conv_nth nth_bytes_at)
  from this [of "length cs"] show ?thesis
    unfolding cstr_def lies_append unfolding lies_iff by auto
qed

text \<open>
  \<open>strlen\<close> returns exactly when some byte of the memory is zero, and then the distance to the
  first zero byte from \<open>s\<close> on.
\<close>

lemma strlen_total_exact:
  "(strlen m s = None \<longleftrightarrow> (\<forall>x. m x \<noteq> 0)) \<and>
   (strlen m s = Some l \<longleftrightarrow> m (s + l) = 0 \<and> (\<forall>k < l. m (s + k) \<noteq> 0))"
proof (cases "\<exists>x. m x = 0")
  case True
  then obtain cs where cs: "cstr m s cs" using cstr_exists by blast
  define n :: u64 where "n = of_nat (length cs)"
  have u: "unat n = length cs" using cstr_length [OF cs] by (simp add: n_def unat_of_nat_small)
  have n: "m (s + n) = 0" "\<And>k. k < n \<Longrightarrow> m (s + k) \<noteq> 0"
    using cs u unfolding cstr_iff by (auto simp: n_def word_less_nat_alt dest: spec [of _ "unat _"])
  have "l = n" if "m (s + l) = 0" "\<forall>k < l. m (s + k) \<noteq> 0"
    using that n by (metis linorder_less_linear)
  then show ?thesis using True n strlen_cstr [OF cs] by (auto simp: n_def)
next
  case False
  then have "strlen m s = None" by (simp add: strlen_def strlen_loop_None)
  then show ?thesis using False by simp
qed

text \<open>
  A slice of a view is the slice of its bytes, with both ends clipped to the length; no byte
  is copied and no slice reaches outside the view.
\<close>

lemma str_slice_view:
  "str_view m (str_slice s b e) = take (unat e - unat b) (drop (unat b) (str_view m s)) \<and>
   str_view m (str_slice_to s e) = take (unat e) (str_view m s)"
proof -
  let ?n = "unat (m_length s)"
  have "unat (cmin (cmax b e) (m_length s) - cmin b (m_length s)) =
      min (max (unat b) (unat e)) ?n - min (unat b) ?n"
    by (subst unat_sub_ge) (simp_all add: unat_cmin unat_cmax)
  moreover have "cmin b (m_length s) = of_nat (min (unat b) ?n)"
    by (simp add: unat_cmin [symmetric])
  moreover have "bytes_at m (m_data s + of_nat (min (unat b) ?n)) (min (max (unat b) (unat e)) ?n - min (unat b) ?n)
      = bytes_at m (m_data s + of_nat (unat b)) (min (unat e - unat b) (?n - unat b))"
    by (cases "unat b \<le> ?n"; cases "unat b \<le> unat e") (auto simp: min_def max_def)
  ultimately show ?thesis
    by (simp add: str_view_def str_slice_def str_slice_to_def mk_str_def Let_def take_bytes_at drop_bytes_at unat_cmin)
qed

lemma differ_at_None_iff:
  "length cs = length ds \<Longrightarrow> differ_at cs ds = None \<longleftrightarrow>
     (\<forall>i < length cs. cs ! i \<noteq> ds ! i \<longrightarrow> (\<exists>j < i. cs ! j = 0 \<and> ds ! j = 0))"
proof (induction cs ds rule: differ_at.induct)
  case (1 c cs d ds)
  then show ?case by (simp add: All_less_Suc2 Ex_less_Suc2)
qed auto

lemma strncmp_eq_0_iff:
  assumes "unat a + unat lim \<le> 2 ^ 64" and "a \<noteq> 0"
  shows "strncmp m a b lim = 0 \<longleftrightarrow> differ_at (bytes_at m a (unat lim)) (bytes_at m b (unat lim)) = None"
proof (cases "differ_at (bytes_at m a (unat lim)) (bytes_at m b (unat lim))")
  case (Some k)
  then have "k < unat lim" by (auto dest: differ_at_less)
  then have "unat (a + of_nat k) = unat a + k"
    using assms(1) unat_of_nat_small [where ?'a = 64, of k] by (subst unat_add_small) simp_all
  then have "a + of_nat k \<noteq> 0" using assms(2) by (metis add_is_0 unat_0 unat_eq_zero)
  then show ?thesis using Some by (simp add: strncmp_differ_at)
qed (simp add: strncmp_differ_at)

text \<open>
  C36. \<open>==\<close> and \<open>!=\<close> are opposite, and \<open>==\<close> holds exactly when the views have one length and differ
  only behind a position at which both have a zero byte; on views without a zero byte it is
  equality.  The view must not begin at the null pointer or run over the end of the address space.
\<close>

theorem str_eq_iff:
  assumes "unat (m_data s) + unat (m_length s) \<le> 2 ^ 64" and "m_data s \<noteq> 0"
  shows "str_neq m s t = (\<not> str_eq m s t) \<and>
    (str_eq m s t \<longleftrightarrow> length (str_view m s) = length (str_view m t) \<and>
       (\<forall>i < length (str_view m s). str_view m s ! i \<noteq> str_view m t ! i \<longrightarrow>
          (\<exists>j < i. str_view m s ! j = 0 \<and> str_view m t ! j = 0))) \<and>
    (0 \<notin> set (str_view m s) \<longrightarrow> (str_eq m s t \<longleftrightarrow> str_view m s = str_view m t))"
proof -
  have d: "str_eq m s t \<longleftrightarrow> length (str_view m s) = length (str_view m t) \<and>
      differ_at (str_view m s) (str_view m t) = None"
    using strncmp_eq_0_iff [OF assms] by (auto simp: str_eq_def str_view_def word_unat_eq_iff)
  have "str_neq m s t = (\<not> str_eq m s t)" by (simp add: str_neq_def str_eq_def)
  then show ?thesis using d differ_at_None_iff differ_at_None by metis
qed

text \<open>Behind a common zero byte nothing is compared: the views of a, 0, b and a, 0, c are equal for \<open>==\<close>.\<close>

theorem str_eq_iff_witness:
  "str_eq ((\<lambda>_. 0)(0x10 := 97, 0x12 := 98, 0x20 := 97, 0x22 := 99)) (mk_str 0x10 3) (mk_str 0x20 3)"
proof -
  let ?m = "(\<lambda>_. 0)(0x10 := 97, 0x12 := 98, 0x20 := 97, 0x22 := 99) :: 64 mem"
  have u: "unat (3 :: u64) = Suc (Suc (Suc 0))" by simp
  have v: "str_view ?m (mk_str 0x10 3) = [97, 0, 98]" "str_view ?m (mk_str 0x20 3) = [97, 0, 99]"
    unfolding str_view_def mk_str_def by (simp_all only: str.simps u bytes_at.simps) simp_all
  show ?thesis using str_eq_iff [of "mk_str 0x10 3" ?m "mk_str 0x20 3"]
    unfolding v by (simp add: mk_str_def All_less_Suc2 Ex_less_Suc2)
qed

end
