(* ===== verification/Itoa.thy ===== *)
theory Itoa
  imports Strings
begin

text \<open>
  \<open>itoa\<close> of kernel/algo/itoa.hpp and loader/algo/itoa.hpp (the two files are the same text): digits
  are written in reverse into the caller's buffer and then turned round in place.  The template
  parameters \<open>base\<close> and \<open>u\<close> are arguments, \<open>size_t\<close> has the width of an address.
\<close>

unbundle bit_operations_syntax

section \<open>The code\<close>

definition bufferSize :: nat where "bufferSize = 65"

definition chars :: "u8 list" where "chars = map of_char ''0123456789abcdef''"

text \<open>\<open>while (val)\<close>; with base 1, which the \<open>static_assert\<close> admits, it never ends.\<close>

partial_function (option) itoa_digits ::
  "'a::len mem \<Rightarrow> 'a word \<Rightarrow> u64 \<Rightarrow> u64 \<Rightarrow> 'a word \<Rightarrow> ('a mem \<times> 'a word) option" where
  "itoa_digits m buf base val n =
     (if val \<noteq> 0 then itoa_digits (m(buf + n := chars ! unat (val mod base))) buf base (val div base) (n + 1)
      else Some (m, n))"

definition xor_at :: "'a::len mem \<Rightarrow> 'a word \<Rightarrow> 'a word \<Rightarrow> 'a mem" where
  "xor_at m p q = m(p := m p XOR m q)"

function itoa_reverse :: "'a::len mem \<Rightarrow> 'a word \<Rightarrow> 'a word \<Rightarrow> 'a word \<Rightarrow> 'a mem" where
  "itoa_reverse m buf n j =
     (if n > j then
        let m1 = xor_at m (buf + n) (buf + j);
            m2 = xor_at m1 (buf + j) (buf + n);
            m3 = xor_at m2 (buf + n) (buf + j) in
        itoa_reverse m3 buf (n - 1) (j + 1)
      else m)"
  by pat_completeness auto
termination
proof (relation "measure (\<lambda>(m, buf, n, j). unat n)")
  fix n j :: "'a word" assume "n > j"
  then have "n \<noteq> 0" by auto
  then show "((m3, buf, n - 1, j + 1), m, buf, n, j) \<in> measure (\<lambda>(m, buf, n, j). unat n)" for m3 m and buf :: "'a word"
    by (simp add: unat_minus_one unat_gt_0)
qed simp

declare itoa_reverse.simps [simp del]

definition itoa :: "u64 \<Rightarrow> bool \<Rightarrow> 'a::len mem \<Rightarrow> 'a word \<Rightarrow> u64 \<Rightarrow> 'a mem option" where
  "itoa base u m buf val =
     (if val = 0 then Some (m(buf := ch CHR ''0'', buf + 1 := 0))
      else
        let sign = (base = 10 \<and> \<not> u \<and> sint val < 0);
            val1 = (if sign then - val else val) in
        Option.bind (itoa_digits m buf base val1 0) (\<lambda>(m1, n).
        let (m2, r, n2) = (if sign then (m1(buf + n := ch CHR ''-''), n + 1, n) else (m1, n, n - 1)) in
        Some ((itoa_reverse m2 buf n2 0)(buf + r := 0))))"

definition loader_itoa :: "u64 \<Rightarrow> bool \<Rightarrow> 32 mem \<Rightarrow> u32 \<Rightarrow> u64 \<Rightarrow> 32 mem option" where
  "loader_itoa = itoa"

section \<open>What is to be printed\<close>

function ldigits :: "nat \<Rightarrow> nat \<Rightarrow> nat list" where
  "ldigits b n = (if n = 0 \<or> b < 2 then [] else n mod b # ldigits b (n div b))"
  by pat_completeness auto
termination by (relation "measure snd") auto

declare ldigits.simps [simp del]

definition number :: "nat \<Rightarrow> nat \<Rightarrow> u8 list" where
  "number b n = (if n = 0 then [ch CHR ''0''] else map (\<lambda>d. chars ! d) (rev (ldigits b n)))"

definition itoa_text :: "u64 \<Rightarrow> bool \<Rightarrow> u64 \<Rightarrow> u8 list" where
  "itoa_text base u val =
     (if base = 10 \<and> \<not> u \<and> sint val < 0 then ch CHR ''-'' # number 10 (nat (- sint val))
      else number (unat base) (unat val))"

text \<open>A reader of the digits the code prints.\<close>

definition digit_value :: "u8 \<Rightarrow> nat" where
  "digit_value c = (if c \<ge> ch CHR ''a'' then unat (c - ch CHR ''a'') + 10 else unat (c - ch CHR ''0''))"

definition read_number :: "nat \<Rightarrow> u8 list \<Rightarrow> nat" where
  "read_number b cs = foldl (\<lambda>v c. v * b + digit_value c) 0 cs"

definition read_signed :: "nat \<Rightarrow> u8 list \<Rightarrow> int" where
  "read_signed b cs = (case cs of [] \<Rightarrow> 0
     | c # ds \<Rightarrow> if c = ch CHR ''-'' then - int (read_number b ds) else int (read_number b cs))"

section \<open>Digits\<close>

lemma ldigits_0 [simp]: "ldigits b 0 = []"
  by (simp add: ldigits.simps)

lemma ldigits_less: "d \<in> set (ldigits b n) \<Longrightarrow> d < b"
proof (induction b n rule: ldigits.induct)
  case (1 b n)
  show ?case
  proof (cases "n = 0 \<or> b < 2")
    case True
    then show ?thesis using 1 by (simp add: ldigits.simps [of b n])
  next
    case False
    then show ?thesis using 1 by (auto simp: ldigits.simps [of b n])
  qed
qed

lemma length_ldigits: "2 \<le> b \<Longrightarrow> n < b ^ k \<Longrightarrow> length (ldigits b n) \<le> k"
proof (induction k arbitrary: n)
  case 0 then show ?case by (simp add: ldigits.simps [of b n])
next
  case (Suc k)
  have "n div b < b ^ k" using Suc.prems by (simp add: less_mult_imp_div_less mult.commute)
  then show ?case using Suc by (subst ldigits.simps) simp
qed

lemma ldigits_nonempty: "2 \<le> b \<Longrightarrow> n \<noteq> 0 \<Longrightarrow> ldigits b n \<noteq> []"
  by (simp add: ldigits.simps [of b n])

lemma length_chars [simp]: "length chars = 16"
  by (simp add: chars_def)

lemma chars_set: "0 \<notin> set chars" "ch CHR ''-'' \<notin> set chars"
  by (simp_all add: chars_def)

lemma chars_values: "map digit_value chars = [0..<16]"
  by code_simp

lemma chars_nth_nonzero: "d < 16 \<Longrightarrow> chars ! d \<noteq> 0"
  using chars_set(1) by (metis length_chars nth_mem)

lemma chars_not_minus: "d < 16 \<Longrightarrow> chars ! d \<noteq> ch CHR ''-''"
  using chars_set(2) by (metis length_chars nth_mem)

lemma digit_value_chars: "d < 16 \<Longrightarrow> digit_value (chars ! d) = d"
  using arg_cong [OF chars_values, of "\<lambda>xs. xs ! d"] by simp

lemma number_nonzero: "b \<le> 16 \<Longrightarrow> 0 \<notin> set (number b n)"
proof -
  assume "b \<le> 16"
  then have "0 \<notin> (\<lambda>d. chars ! d) ` set (ldigits b n)"
    using ldigits_less [of _ b n] chars_nth_nonzero by (metis (no_types, lifting) imageE order_less_le_trans)
  then show ?thesis by (simp add: number_def)
qed

text \<open>Reading back what was printed.\<close>

lemma foldr_ldigits: "2 \<le> b \<Longrightarrow> foldr (\<lambda>d v. v * b + d) (ldigits b n) 0 = n"
proof (induction b n rule: ldigits.induct)
  case (1 b n)
  show ?case
  proof (cases "n = 0")
    case False
    then show ?thesis using 1 by (subst ldigits.simps) simp
  qed simp
qed

lemma read_number_number: "2 \<le> b \<Longrightarrow> b \<le> 16 \<Longrightarrow> read_number b (number b n) = n"
proof (cases "n = 0")
  case True
  then show ?thesis by (simp add: read_number_def number_def digit_value_def)
next
  case False
  assume b: "2 \<le> b" "b \<le> 16"
  have "digit_value (chars ! d) = d" if "d \<in> set (ldigits b n)" for d
    using ldigits_less [OF that] b by (intro digit_value_chars) simp
  then have "foldr (\<lambda>d v. v * b + digit_value (chars ! d)) (ldigits b n) 0 = foldr (\<lambda>d v. v * b + d) (ldigits b n) 0"
    by (intro foldr_cong) simp_all
  then show ?thesis using False foldr_ldigits [OF b(1)]
    by (simp add: read_number_def number_def foldl_conv_foldr rev_map foldr_map comp_def)
qed

lemma number_no_minus: "b \<le> 16 \<Longrightarrow> ch CHR ''-'' \<notin> set (number b n)"
proof -
  assume "b \<le> 16"
  then have "ch CHR ''-'' \<notin> (\<lambda>d. chars ! d) ` set (ldigits b n)"
    using ldigits_less [of _ b n] chars_not_minus by (metis (no_types, lifting) imageE order_less_le_trans)
  then show ?thesis by (simp add: number_def)
qed

lemma number_nonempty [simp]: "2 \<le> b \<Longrightarrow> number b n \<noteq> []"
  by (simp add: number_def ldigits_nonempty)

lemma length_number: "2 \<le> b \<Longrightarrow> n < b ^ k \<Longrightarrow> 0 < k \<Longrightarrow> length (number b n) \<le> k"
  by (simp add: number_def length_ldigits)

section \<open>The loops\<close>

lemma unat_mod: "unat (a mod b) = unat a mod unat b" for a b :: "'a::len word"
  by (simp add: unat_mod_distrib)

lemma unat_div: "unat (a div b) = unat a div unat b" for a b :: "'a::len word"
  by (simp add: unat_div_distrib)

lemma itoa_digits_run:
  fixes m :: "'a::len mem"
  assumes "2 \<le> unat base" and "unat n + length (ldigits (unat base) (unat val)) < 2 ^ LENGTH('a)"
  shows "\<exists>m'. itoa_digits m buf base val n = Some (m', n + of_nat (length (ldigits (unat base) (unat val)))) \<and>
    lies m' (buf + n) (map (\<lambda>d. chars ! d) (ldigits (unat base) (unat val))) \<and>
    (\<forall>x. x \<notin> region (buf + n) (length (ldigits (unat base) (unat val))) \<longrightarrow> m' x = m x)"
  using assms(2)
proof (induction "ldigits (unat base) (unat val)" arbitrary: m val n)
  case Nil
  then have "val = 0" using ldigits_nonempty [OF assms(1), of "unat val"] by (metis unat_eq_zero)
  then show ?case by (simp add: itoa_digits.simps)
next
  case (Cons d ds)
  then have v: "val \<noteq> 0" by auto
  then have d: "d = unat (val mod base)" "ds = ldigits (unat base) (unat (val div base))"
    using Cons.hyps(2) assms(1) by (simp_all add: ldigits.simps [of _ "unat val"] unat_mod unat_div unat_eq_zero)
  let ?m = "m(buf + n := chars ! d)"
  have len: "unat n + Suc (length ds) < 2 ^ LENGTH('a)" using Cons.prems Cons.hyps(2) by (metis length_Cons)
  then have n1: "unat (n + 1) = Suc (unat n)" by (subst unat_add_small) simp_all
  obtain m' where m': "itoa_digits ?m buf base (val div base) (n + 1) = Some (m', n + 1 + of_nat (length ds))"
      "lies m' (buf + (n + 1)) (map (\<lambda>d. chars ! d) ds)"
      "\<forall>x. x \<notin> region (buf + (n + 1)) (length ds) \<longrightarrow> m' x = ?m x"
    using Cons.hyps(1) [of "val div base" "n + 1" ?m] d(2) len n1 by auto
  have sub: "region (buf + (n + 1)) (length ds) \<subseteq> region (buf + n) (Suc (length ds))"
    by (rule region_sub) (use len in simp)
  have "buf + n \<notin> region (buf + (n + 1)) (length ds)"
    using len by (simp add: in_region_iff unsigned_minus_1_eq_mask mask_eq_exp_minus_1)
  then have "m' (buf + n) = chars ! d" using m'(3) by simp
  moreover have nb: "x \<noteq> buf + n" if "x \<notin> region (buf + n) (Suc (length ds))" for x using that by auto
  ultimately have "itoa_digits m buf base val n = Some (m', n + of_nat (length (d # ds))) \<and>
      lies m' (buf + n) (map (\<lambda>d. chars ! d) (d # ds)) \<and>
      (\<forall>x. x \<notin> region (buf + n) (length (d # ds)) \<longrightarrow> m' x = m x)"
    using m' sub v d(1) nb by (auto simp: itoa_digits.simps [of m] algebra_simps)
  then show ?case using Cons.hyps(2) by metis
qed

lemma xor_swap:
  assumes "p \<noteq> q"
  shows "xor_at (xor_at (xor_at m p q) q p) p q = m(p := m q, q := m p)"
proof -
  have "(a XOR b) XOR a = b" "b XOR (a XOR b) = a" for a b :: u8
    by (rule bit_word_eqI; auto simp: bit_simps)+
  then show ?thesis using assms by (auto simp: xor_at_def)
qed

lemma itoa_reverse_eq:
  "itoa_reverse m buf n j x =
     (if unat j \<le> unat (x - buf) \<and> unat (x - buf) \<le> unat n then m (buf + (n + j - (x - buf))) else m x)"
proof (induction m buf n j rule: itoa_reverse.induct)
  case (1 m buf n j)
  show ?case
  proof (cases "n > j")
    case True
    have ne: "buf + n \<noteq> buf + j" using True by auto
    have n1: "unat (n - 1) = unat n - 1" "unat n > unat j"
      using True by (auto simp: unat_minus_one word_less_nat_alt unat_gt_0 [symmetric] simp del: unat_gt_0)
    have j1: "unat (j + 1) = Suc (unat j)" using True by (rule unat_suc_less)
    have x: "x = buf + n \<longleftrightarrow> unat (x - buf) = unat n" "x = buf + j \<longleftrightarrow> unat (x - buf) = unat j"
      by (auto simp: word_unat_eq_iff [symmetric] algebra_simps)
    note IH = "1.IH" [OF True refl refl refl, unfolded xor_swap [OF ne]]
    have y: "buf + (n + j - (x - buf)) \<noteq> buf + n" if "unat (x - buf) \<noteq> unat j"
      using that by (auto simp: algebra_simps)
    have z: "buf + (n + j - (x - buf)) \<noteq> buf + j" if "unat (x - buf) \<noteq> unat n"
      using that by (auto simp: algebra_simps)
    have s: "n - 1 + (j + 1) = n + j" by simp
    show ?thesis using True n1 j1 x y z
      by (simp only: itoa_reverse.simps [of m buf n j] if_True Let_def xor_swap [OF ne] IH s)
        (auto simp: algebra_simps)
  next
    case False
    then have "unat (x - buf) = unat j" "n = j" if "unat j \<le> unat (x - buf)" "unat (x - buf) \<le> unat n"
      using that by (simp_all add: word_less_nat_alt word_unat_eq_iff)
    then show ?thesis using False by (subst itoa_reverse.simps) (auto simp: word_unat_eq_iff [symmetric])
  qed
qed

lemma itoa_reverse_lies:
  fixes m :: "'a::len mem"
  assumes "lies m buf cs" and "cs \<noteq> []" and "length cs < 2 ^ LENGTH('a)"
  shows "lies (itoa_reverse m buf (of_nat (length cs) - 1) 0) buf (rev cs)"
    and "x \<notin> region buf (length cs) \<Longrightarrow> itoa_reverse m buf (of_nat (length cs) - 1) 0 x = m x"
proof -
  define n :: "'a word" where "n = of_nat (length cs) - 1"
  have n: "unat n = length cs - 1" and ne: "0 < length cs"
    using assms(2,3) unat_of_nat_small [where ?'a = 'a, of "length cs"]
    by (simp_all add: n_def unat_minus_one flip: unat_eq_zero)
  have "bytes_at (itoa_reverse m buf n 0) buf (length cs) = rev (bytes_at m buf (length cs))"
  proof (rule nth_equalityI)
    fix i assume "i < length (bytes_at (itoa_reverse m buf n 0) buf (length cs))"
    then have i: "i < length cs" by simp
    then have "i \<le> length cs - Suc 0" by simp
    moreover have u: "unat (of_nat i :: 'a word) = i" using i assms(3) by (intro unat_of_nat_small) simp
    moreover have "n - of_nat i = of_nat (length cs - Suc i)"
      using i by (simp add: n_def of_nat_diff algebra_simps)
    ultimately show "bytes_at (itoa_reverse m buf n 0) buf (length cs) ! i = rev (bytes_at m buf (length cs)) ! i"
      using i u n by (simp add: nth_bytes_at rev_nth itoa_reverse_eq diff_diff_eq le_diff_conv2 Suc_le_eq)
  qed simp
  then show "lies (itoa_reverse m buf (of_nat (length cs) - 1) 0) buf (rev cs)"
    using assms(1) by (simp add: lies_iff n_def)
  show "itoa_reverse m buf (of_nat (length cs) - 1) 0 x = m x" if "x \<notin> region buf (length cs)"
  proof -
    have "\<not> unat (x - buf) \<le> unat n" using that n ne by (simp only: in_region_iff)
    then show ?thesis unfolding n_def [symmetric] by (simp add: itoa_reverse_eq)
  qed
qed

lemma sint_cases:
  fixes val :: u64
  shows "sint val = (if sint val < 0 then uint val - 2 ^ 64 else uint val)"
proof (cases "uint val < 2 ^ 63")
  case True
  have "sint val = signed_take_bit 63 (uint val)" by (simp add: sint_uint)
  also have "\<dots> = uint val"
    using True by (intro signed_take_bit_int_eq_self) (rule order_trans [OF _ uint_ge_0], simp_all)
  finally show ?thesis by simp
next
  case False
  have "(uint val + 2 ^ 63) mod 2 ^ 64 = (uint val + 2 ^ 63 - 2 ^ 64) mod 2 ^ 64"
    by (simp only: minus_mod_self2)
  also have "\<dots> = uint val + 2 ^ 63 - 2 ^ 64"
    using False uint_lt2p [of val] by (intro mod_pos_pos_trivial) simp_all
  finally have "sint val = uint val - 2 ^ 64"
    by (simp add: sint_uint signed_take_bit_eq_take_bit_shift take_bit_eq_mod)
  then show ?thesis using uint_lt2p [of val] by simp
qed

lemma unat_neg_signed:
  fixes val :: u64
  assumes "sint val < 0" shows "unat (- val) = nat (- sint val)" "unat (- val) \<le> 2 ^ 63"
proof -
  have s: "sint val = uint val - 2 ^ 64" using sint_cases [of val] assms by simp
  have "- (2 ^ 63) \<le> sint val" using sint_ge [of val] by simp
  moreover have "val \<noteq> 0" using assms by auto
  then have "uint (- val) = 2 ^ 64 - uint val"
    using uint_lt2p [of val] uint_ge_0 [of val]
    by (simp add: uint_word_ariths zmod_zminus1_eq_if mod_pos_pos_trivial uint_0_iff)
  ultimately show "unat (- val) = nat (- sint val)" "unat (- val) \<le> 2 ^ 63"
    using s by (simp_all add: unat_eq_nat_uint nat_le_iff)
qed

section \<open>itoa\<close>

lemma length_itoa_text: "2 \<le> unat base \<Longrightarrow> length (itoa_text base u val) < bufferSize"
proof -
  assume b: "2 \<le> unat base"
  have "nat (- sint val) < 10 ^ 63" if "sint val < 0"
    using unat_neg_signed [OF that] by (simp add: order_le_less_trans)
  moreover have "(2::nat) ^ 64 \<le> unat base ^ 64" using b by (rule power_mono) simp
  then have "unat val < unat base ^ 64" using unat_lt_64 [of val] by simp
  ultimately show ?thesis
    using length_number [of 10 "nat (- sint val)" 63] length_number [OF b, of "unat val" 64]
    by (auto simp: itoa_text_def bufferSize_def)
qed

lemma itoa_text_nonzero: "unat base \<le> 16 \<Longrightarrow> 0 \<notin> set (itoa_text base u val)"
  using number_nonzero [of "unat base" "unat val"] number_nonzero [of 10 "nat (- sint val)"]
  by (auto simp: itoa_text_def)

lemma itoa_run:
  fixes m :: "'a::len mem"
  assumes b: "2 \<le> unat base" "unat base \<le> 16" and w: "bufferSize < 2 ^ LENGTH('a)"
  shows "\<exists>m'. itoa base u m buf val = Some m' \<and> cstr m' buf (itoa_text base u val) \<and>
    (\<forall>x. x \<notin> region buf bufferSize \<longrightarrow> m' x = m x)"
proof (cases "val = 0")
  case True
  have "buf + 1 \<noteq> buf" by simp
  then show ?thesis using True w
    by (auto simp: itoa_def itoa_text_def number_def in_region_iff bufferSize_def)
next
  case False
  define sign where "sign = (base = 10 \<and> \<not> u \<and> sint val < 0)"
  define v where "v = (if sign then - val else val)"
  define ds where "ds = ldigits (unat base) (unat v)"
  define cs where "cs = map (\<lambda>d. chars ! d) ds @ (if sign then [ch CHR ''-''] else [])"
  have v: "v \<noteq> 0" using False by (simp add: v_def)
  have tx: "itoa_text base u val = rev cs"
    using v False unat_neg_signed [of val]
    by (auto simp: itoa_text_def cs_def ds_def v_def sign_def number_def rev_map unat_eq_zero)
  have len: "length cs < bufferSize" using length_itoa_text [OF b(1), of u val] tx by simp
  then have lds: "length ds < 2 ^ LENGTH('a)" "length cs < 2 ^ LENGTH('a)" using w by (simp_all add: cs_def)
  have ne: "cs \<noteq> []" using ldigits_nonempty [OF b(1), of "unat v"] v by (simp add: cs_def ds_def unat_eq_zero)
  obtain m1 where m1: "itoa_digits m buf base v 0 = Some (m1, of_nat (length ds))"
      "lies m1 buf (map (\<lambda>d. chars ! d) ds)" "\<And>x. x \<notin> region buf (length ds) \<Longrightarrow> m1 x = m x"
    using itoa_digits_run [OF b(1), of 0 v m buf] lds by (auto simp: ds_def)
  define m2 where "m2 = (if sign then m1(buf + of_nat (length ds) := ch CHR ''-'') else m1)"
  define m3 where "m3 = (itoa_reverse m2 buf (of_nat (length cs) - 1) 0)(buf + of_nat (length cs) := 0)"
  have run: "itoa base u m buf val = Some m3"
    using False m1(1) unfolding itoa_def sign_def [symmetric] 
    by (simp add: Let_def v_def [symmetric] m3_def m2_def cs_def)
  have out: "buf + of_nat k \<notin> region buf k" if "k < 2 ^ LENGTH('a)" for k
    using that by (simp add: in_region_iff unat_of_nat_small)
  have "lies m2 buf (map (\<lambda>d. chars ! d) ds) \<longleftrightarrow> lies m1 buf (map (\<lambda>d. chars ! d) ds)"
    using lds(1) out [OF lds(1)] by (intro lies_cong) (auto simp: m2_def)
  then have l2: "lies m2 buf cs" using m1(2) by (auto simp: cs_def lies_append m2_def)
  have "lies m3 buf (rev cs) \<longleftrightarrow> lies (itoa_reverse m2 buf (of_nat (length cs) - 1) 0) buf (rev cs)"
    using lds(2) out [OF lds(2)] by (intro lies_cong) (auto simp: m3_def)
  then have l3: "lies m3 buf (rev cs)" using itoa_reverse_lies(1) [OF l2 ne lds(2)] by simp
  have "cstr m3 buf (rev cs)"
    using l3 itoa_text_nonzero [OF b(2), of u val] by (simp add: cstr_def lies_append tx) (simp add: m3_def)
  moreover have "m3 x = m x" if x: "x \<notin> region buf bufferSize" for x
  proof -
    have "x \<notin> region buf (length ds)" "x \<notin> region buf (length cs)" "x \<notin> region buf (Suc (length cs))"
      using x len by (auto simp: cs_def in_region_iff)
    moreover have "buf + of_nat (length ds) \<in> region buf (length cs)" if sign
      using that lds by (simp add: in_region_iff unat_of_nat_small cs_def)
    moreover have "buf + of_nat (length cs) \<in> region buf (Suc (length cs))"
      using lds(2) by (simp add: in_region_iff unat_of_nat_small)
    ultimately show ?thesis
      using m1(3) itoa_reverse_lies(2) [OF l2 ne lds(2), of x] by (auto simp: m3_def m2_def)
  qed
  ultimately show ?thesis using run tx by auto
qed

text \<open>
  C15. For every base from 2 to 16 \<open>itoa\<close> ends, leaves the number with its minus sign as a C string
  in the buffer and writes nothing but the 65 bytes of the buffer.  This holds at both widths of
  an address, the kernel's 64 and the loader's 32 bits.
\<close>

theorem itoa_prints:
  fixes m :: "'a::len mem"
  assumes "2 \<le> unat base" and "unat base \<le> 16" and "bufferSize < 2 ^ LENGTH('a)"
  shows "\<exists>m'. itoa base u m buf val = Some m' \<and> cstr m' buf (itoa_text base u val) \<and>
    length (itoa_text base u val) < bufferSize \<and> (\<forall>x. x \<notin> region buf bufferSize \<longrightarrow> m' x = m x)"
  using itoa_run [OF assms] length_itoa_text [OF assms(1)] by blast

theorem itoa_prints_witness:
  "\<exists>m'. itoa 10 False (\<lambda>_. 0 :: u8) (0x1000 :: u64) (- 305) = Some m' \<and> cstr m' 0x1000 (map of_char ''-305'')"
proof -
  have t: "itoa_text 10 False (- 305) = map of_char ''-305''" by code_simp
  show ?thesis using itoa_prints [of 10 False "\<lambda>_. 0 :: u8" "0x1000 :: u64" "- 305"]
    unfolding t by (auto simp: bufferSize_def)
qed

lemma read_itoa_text:
  assumes "2 \<le> unat base" and "unat base \<le> 16"
  shows "u \<or> base \<noteq> 10 \<Longrightarrow> read_number (unat base) (itoa_text base u val) = unat val"
    and "read_signed 10 (itoa_text 10 False val) = sint val"
proof -
  show "read_number (unat base) (itoa_text base u val) = unat val" if "u \<or> base \<noteq> 10"
    using that read_number_number [OF assms, of "unat val"] by (auto simp: itoa_text_def)
  have "read_signed 10 (number 10 n) = int n" for n
    using number_no_minus [of 10 n] read_number_number [of 10 n]
    by (cases "number 10 n") (auto simp: read_signed_def)
  moreover have "int (unat val) = sint val" if "\<not> sint val < 0"
    using that sint_cases [of val] by simp
  moreover have "read_signed 10 (ch CHR ''-'' # number 10 n) = - int n" for n
    using read_number_number [of 10 n] by (simp add: read_signed_def)
  ultimately show "read_signed 10 (itoa_text 10 False val) = sint val" by (auto simp: itoa_text_def)
qed

text \<open>What \<open>itoa\<close> leaves, as the code finds it again: from the buffer up to the zero \<open>strlen\<close> stops at.\<close>

definition printed :: "'a::len mem \<Rightarrow> 'a word \<Rightarrow> u8 list option" where
  "printed m buf = map_option (\<lambda>l. bytes_at m buf (unat l)) (strlen_loop m buf 0)"

lemma printed_cstr:
  fixes m :: "'a::len mem"
  shows "cstr m buf cs \<Longrightarrow> length cs < 2 ^ LENGTH('a) \<Longrightarrow> printed m buf = Some cs"
proof -
  assume c: "cstr m buf cs" and "length cs < 2 ^ LENGTH('a)"
  then have "printed m buf = Some (bytes_at m buf (length cs))"
    by (simp add: printed_def strlen_loop_cstr unat_of_nat_small)
  moreover have "lies m buf cs" using c unfolding cstr_def lies_append by blast
  ultimately show "printed m buf = Some cs" by (simp add: lies_iff)
qed

lemma itoa_printed:
  fixes m :: "'a::len mem"
  assumes "2 \<le> unat base" and "unat base \<le> 16" and "bufferSize < 2 ^ LENGTH('a)"
  shows "\<exists>m'. itoa base u m buf val = Some m' \<and> printed m' buf = Some (itoa_text base u val)"
proof -
  obtain m' where "itoa base u m buf val = Some m'" "cstr m' buf (itoa_text base u val)"
    using itoa_run [OF assms] by blast
  moreover have "length (itoa_text base u val) < 2 ^ LENGTH('a)"
    using length_itoa_text [OF assms(1)] assms(3) by (rule order_less_trans)
  ultimately show ?thesis using printed_cstr by blast
qed

text \<open>
  C16. Reading back the string \<open>itoa\<close> leaves in the buffer gives the number it was called with:
  the unsigned value for the unsigned instances and every base but 10, the signed one for
  \<open>itoa<10>\<close>.  This holds at both widths of an address.
\<close>

theorem itoa_roundtrip:
  fixes m :: "'a::len mem"
  assumes "2 \<le> unat base" and "unat base \<le> 16" and "bufferSize < 2 ^ LENGTH('a)"
  shows "(u \<or> base \<noteq> 10 \<longrightarrow> (\<exists>m' cs. itoa base u m buf val = Some m' \<and> printed m' buf = Some cs \<and>
       read_number (unat base) cs = unat val)) \<and>
    (\<exists>m' cs. itoa 10 False m buf val = Some m' \<and> printed m' buf = Some cs \<and> read_signed 10 cs = sint val)"
proof -
  have "2 \<le> unat (10 :: u64)" "unat (10 :: u64) \<le> 16" by simp_all
  then have "\<exists>m'. itoa 10 False m buf val = Some m' \<and> printed m' buf = Some (itoa_text 10 False val)"
    using assms(3) by (rule itoa_printed)
  then show ?thesis using itoa_printed [OF assms, of u m buf val] read_itoa_text [OF assms(1,2)] by metis
qed

theorem itoa_roundtrip_witness:
  "\<exists>m' cs. itoa 10 False (\<lambda>_. 0 :: u8) (0x1000 :: u64) (- 305) = Some m' \<and> printed m' 0x1000 = Some cs \<and>
     read_signed 10 cs = - 305"
proof -
  have "sint (- 305 :: u64) = - 305" by simp
  then show ?thesis
    using itoa_roundtrip [of 10 True "\<lambda>_. 0 :: u8" "0x1000 :: u64" "- 305"] by (auto simp: bufferSize_def)
qed

text \<open>The \<open>static_assert\<close> of the template admits base 1, for which the first loop never ends.\<close>

lemma itoa_base_1_diverges:
  fixes m :: "'a::len mem"
  assumes "val \<noteq> 0" shows "itoa 1 u m buf val = None"
proof -
  have "itoa_digits m buf 1 val 0 = None"
  proof (cases "itoa_digits m buf 1 val 0")
    case (Some r)
    have "1 = (1 :: u64) \<longrightarrow> val = 0"
    proof (rule itoa_digits.raw_induct [where P = "\<lambda>(m :: 'a mem) (buf :: 'a word) (base :: u64) (val :: u64)
        (n :: 'a word) (r :: 'a mem \<times> 'a word). base = 1 \<longrightarrow> val = 0", OF _ Some], goal_cases)
      case (1 f m buf base val n r)
      show ?case
      proof (rule impI, rule ccontr)
        assume "base = 1" "val \<noteq> 0"
        then show False using 1(1) [of _ buf base "val div base" "n + 1" r] 1(2) by simp
      qed
    qed
    then show ?thesis using assms by simp
  qed
  then show ?thesis using assms by (simp add: itoa_def)
qed

end
