(* ===== verification/Debug.thy ===== *)
theory Debug
  imports Itoa "HOL-Library.Stream"
begin

text \<open>
  The kernel's output: kernel/dev/rs232.cpp and kernel/sys/debug.cpp.  Output is the sequence of
  bytes written to ports; \<open>io::out\<close> of kernel/dev/io.hpp is one \<open>out\<close> instruction.  A \<open>va_list\<close> of the kernel's
  calling convention is the sequence of the 8-byte slots still to be read.  The buffer of
  \<open>vprintf\<close> is a local array, so its address is an argument of the model.
\<close>

unbundle bit_operations_syntax

section \<open>The serial port\<close>

type_synonym port_output = "(u16 \<times> u8) list"

definition io_out :: "u16 \<Rightarrow> u8 \<Rightarrow> port_output \<Rightarrow> port_output" where
  "io_out port value out = out @ [(port, value)]"

record SerialPort = m_port :: u16

definition SerialPort_new :: "u16 \<Rightarrow> SerialPort" where
  "SerialPort_new port = \<lparr>m_port = port\<rparr>"

definition putc :: "SerialPort \<Rightarrow> u8 \<Rightarrow> port_output \<Rightarrow> port_output" where
  "putc p c out = io_out (m_port p) c out"

definition debug_out :: SerialPort where
  "debug_out = SerialPort_new 0x3F8"

section \<open>puts, print, println\<close>

partial_function (option) puts :: "64 mem \<Rightarrow> u64 \<Rightarrow> port_output \<Rightarrow> port_output option" where
  "puts m s out = (if m s \<noteq> 0 then puts m (s + 1) (putc debug_out (m s) out) else Some out)"

function pad_loop :: "u8 \<Rightarrow> u64 \<Rightarrow> u64 \<Rightarrow> port_output \<Rightarrow> port_output" where
  "pad_loop c p i out = (if i < p then pad_loop c p (i + 1) (putc debug_out c out) else out)"
  by pat_completeness auto
termination by (relation "measure (\<lambda>(c, p, i, out). unat p - unat i)") (simp_all add: loop_measure)

function chars_loop :: "64 mem \<Rightarrow> u64 \<Rightarrow> u64 \<Rightarrow> u64 \<Rightarrow> port_output \<Rightarrow> port_output" where
  "chars_loop m s l i out =
     (if i < l then chars_loop m s l (i + 1) (putc debug_out (m (s + i)) out) else out)"
  by pat_completeness auto
termination by (relation "measure (\<lambda>(m, s, l, i, out). unat l - unat i)") (simp_all add: loop_measure)

declare pad_loop.simps [simp del] chars_loop.simps [simp del]

definition puts_pad :: "64 mem \<Rightarrow> u64 \<Rightarrow> u8 \<Rightarrow> u64 \<Rightarrow> port_output \<Rightarrow> port_output option" where
  "puts_pad m s c p out = map_option (\<lambda>l. chars_loop m s l 0 (pad_loop c p l out)) (strlen m s)"

definition debug_print :: "64 mem \<Rightarrow> str \<Rightarrow> port_output \<Rightarrow> port_output" where
  "debug_print m s out = chars_loop m (str_data s) (str_length s) 0 out"

definition debug_println :: "64 mem \<Rightarrow> str \<Rightarrow> port_output \<Rightarrow> port_output" where
  "debug_println m s out = putc debug_out 10 (chars_loop m (str_data s) (str_length s) 0 out)"

section \<open>vprintf\<close>

text \<open>The local variables of \<open>vprintf\<close> that live from one turn of the loop to the next.\<close>

record vprintf_state =
  vmem :: "64 mem"
  vout :: port_output
  fmt :: u64
  vargs :: "u64 stream"
  padChar :: u8
  padCount :: u64

partial_function (option) vp_width :: "64 mem \<Rightarrow> u64 \<Rightarrow> u64 \<Rightarrow> (u64 \<times> u64) option" where
  "vp_width m f count =
     (let c = m f in
      if c \<noteq> 0 \<and> c \<ge> ch CHR ''0'' \<and> c \<le> ch CHR ''9''
      then vp_width m (f + 1) (count * 10 + ucast (c - ch CHR ''0''))
      else Some (f, count))"

definition put_literal :: "string \<Rightarrow> vprintf_state \<Rightarrow> vprintf_state" where
  "put_literal cs s = s\<lparr>vout := fold (\<lambda>c. putc debug_out (of_char c)) cs (vout s)\<rparr>"

definition vp_puts :: "u64 \<Rightarrow> u8 \<Rightarrow> u64 \<Rightarrow> vprintf_state \<Rightarrow> vprintf_state option" where
  "vp_puts p c n s = map_option (\<lambda>out. s\<lparr>vout := out\<rparr>) (puts_pad (vmem s) p c n (vout s))"

definition vp_itoa :: "u64 \<Rightarrow> u64 \<Rightarrow> bool \<Rightarrow> u64 \<Rightarrow> u8 \<Rightarrow> u64 \<Rightarrow> vprintf_state \<Rightarrow> vprintf_state option" where
  "vp_itoa buf base u v c n s =
     Option.bind (itoa base u (vmem s) buf v) (\<lambda>m. vp_puts buf c n (s\<lparr>vmem := m\<rparr>))"

definition va_arg64 :: "vprintf_state \<Rightarrow> u64 \<times> vprintf_state" where
  "va_arg64 s = (shd (vargs s), s\<lparr>vargs := stl (vargs s)\<rparr>)"

definition va_arg32 :: "vprintf_state \<Rightarrow> u64 \<times> vprintf_state" where
  "va_arg32 s = (ucast (ucast (shd (vargs s)) :: u32), s\<lparr>vargs := stl (vargs s)\<rparr>)"

text \<open>The inner switch after \<open>%l\<close>.\<close>

definition vp_long :: "u64 \<Rightarrow> u8 \<Rightarrow> vprintf_state \<Rightarrow> vprintf_state option" where
  "vp_long buf c s =
     (let (v64, s1) = va_arg64 s in
      if c = ch CHR ''d'' then vp_itoa buf 10 False v64 (padChar s) (padCount s) s1
      else if c = ch CHR ''x'' then vp_itoa buf 16 False v64 (padChar s) (padCount s) s1
      else if c = ch CHR ''u'' then vp_itoa buf 10 True v64 (padChar s) (padCount s) s1
      else if c = ch CHR ''a'' then vp_itoa buf 16 False v64 (ch CHR ''0'') 16 (put_literal ''0x'' s1)
      else Some s)"

definition vp_conversion :: "u64 \<Rightarrow> u8 \<Rightarrow> vprintf_state \<Rightarrow> vprintf_state option" where
  "vp_conversion buf c s =
     (let (v64, s64) = va_arg64 s; (v32, s32) = va_arg32 s in
      if c = ch CHR ''s'' then vp_puts v64 (padChar s) (padCount s) s64
      else if c = ch CHR ''d'' then vp_itoa buf 10 False v32 (padChar s) (padCount s) s32
      else if c = ch CHR ''x'' then vp_itoa buf 16 False v32 (padChar s) (padCount s) s32
      else if c = ch CHR ''u'' then vp_itoa buf 10 True v32 (padChar s) (padCount s) s32
      else if c = ch CHR ''a'' then vp_itoa buf 16 False v32 (ch CHR ''0'') 8 (put_literal ''0x'' s32)
      else if c = ch CHR ''l'' then
        let s1 = s\<lparr>fmt := fmt s + 1\<rparr> in vp_long buf (vmem s1 (fmt s1)) s1
      else Some (s\<lparr>vout := putc debug_out c (putc debug_out (ch CHR ''%'') (vout s))\<rparr>))"

text \<open>One turn of the loop, for a character other than the terminating zero.\<close>

definition vp_step :: "u64 \<Rightarrow> vprintf_state \<Rightarrow> vprintf_state option" where
  "vp_step buf s =
     (let c = vmem s (fmt s) in
      map_option (\<lambda>s'. s'\<lparr>fmt := fmt s' + 1\<rparr>)
      (if c = ch CHR ''%'' then
         let f1 = fmt s + 1; c1 = vmem s f1;
             (padc, f2) = (if c1 = ch CHR ''0'' \<or> c1 = ch CHR '' '' then (c1, f1 + 1) else (padChar s, f1)) in
         Option.bind (vp_width (vmem s) f2 (padCount s)) (\<lambda>(f3, count).
         vp_conversion buf (vmem s f3) (s\<lparr>fmt := f3, padChar := padc, padCount := count\<rparr>))
       else Some (s\<lparr>vout := putc debug_out c (vout s)\<rparr>)))"

partial_function (option) vprintf_loop :: "u64 \<Rightarrow> vprintf_state \<Rightarrow> vprintf_state option" where
  "vprintf_loop buf s =
     (if vmem s (fmt s) \<noteq> 0 then Option.bind (vp_step buf s) (vprintf_loop buf) else Some s)"

definition vprintf :: "u64 \<Rightarrow> 64 mem \<Rightarrow> port_output \<Rightarrow> u64 \<Rightarrow> u64 stream \<Rightarrow> (64 mem \<times> port_output) option" where
  "vprintf buf m out f args =
     map_option (\<lambda>s. (vmem s, vout s))
       (vprintf_loop buf \<lparr>vmem = m, vout = out, fmt = f, vargs = args, padChar = - 1, padCount = 0\<rparr>)"

definition debug_printf :: "u64 \<Rightarrow> 64 mem \<Rightarrow> port_output \<Rightarrow> u64 \<Rightarrow> u64 stream \<Rightarrow> (64 mem \<times> port_output) option" where
  "debug_printf buf m out f args = vprintf buf m out f args"

section \<open>assertFail and panic\<close>

text \<open>
  The loop \<open>while (1)\<close> around \<open>cli; hlt\<close>, over the interrupt flag: \<open>cli\<close> clears it, and \<open>hlt\<close>
  changes nothing more.
\<close>

partial_function (option) hlt_loop :: "bool \<Rightarrow> unit option" where
  "hlt_loop interrupts = hlt_loop False"

text \<open>
  The start code of the kernel has cleared the flag and nothing sets it.  The result of \<open>panic\<close>, when its \<open>printf\<close> returns, is the output at the time the loop is entered
  and what the loop ends with, which is what \<open>panic\<close> returns with.  \<open>lit_fail\<close> and \<open>lit_panic\<close> are the
  addresses of the two format literals.
\<close>

definition sys_panic :: "u64 \<Rightarrow> u64 \<Rightarrow> 64 mem \<Rightarrow> port_output \<Rightarrow> (port_output \<times> unit option) option" where
  "sys_panic buf lit_panic m out =
     map_option (\<lambda>(m1, out1). (out1, hlt_loop False)) (debug_printf buf m out lit_panic (sconst 0))"

definition assertFail ::
  "u64 \<Rightarrow> u64 \<Rightarrow> u64 \<Rightarrow> 64 mem \<Rightarrow> port_output \<Rightarrow> u64 \<Rightarrow> u32 \<Rightarrow> u64 \<Rightarrow>
    (port_output \<times> unit option) option" where
  "assertFail buf lit_fail lit_panic m out file line msg =
     Option.bind (debug_printf buf m out lit_fail (file ## ucast line ## msg ## sconst 0))
       (\<lambda>(m1, out1). sys_panic buf lit_panic m1 out1)"

end
