(* ===== verification/DebugProps.thy ===== *)
theory DebugProps
  imports Debug
begin

text \<open>
  What the output functions print.  A format string is the code of a list of \<open>piece\<close>s; \<open>render\<close>
  says what each piece prints and which arguments it takes, with the padding that \<open>vprintf\<close> carries
  from one conversion to the next.
\<close>

unbundle bit_operations_syntax

section \<open>The loops\<close>

abbreviation serial :: "u8 list \<Rightarrow> port_output" where
  "serial \<equiv> map (Pair 0x3F8)"

lemma putc_debug_out [simp]: "putc debug_out c out = out @ [(0x3F8, c)]"
  by (simp add: putc_def io_out_def debug_out_def SerialPort_new_def)

lemma puts_cstr: "cstr m s cs \<Longrightarrow> puts m s out = Some (out @ serial cs)"
  by (induction cs arbitrary: s out) (simp_all add: puts.simps)

lemma pad_loop_eq: "pad_loop c p i out = out @ serial (replicate (unat p - unat i) c)"
proof (induction c p i out rule: pad_loop.induct)
  case (1 c p i out)
  show ?case
  proof (cases "i < p")
    case True
    then have "unat p - unat i = Suc (unat p - unat (i + 1))"
      by (simp add: unat_suc_less word_less_nat_alt)
    then show ?thesis using 1 True by (simp add: pad_loop.simps [of c p i])
  next
    case False
    then show ?thesis by (simp add: pad_loop.simps [of c p i] word_less_nat_alt)
  qed
qed

lemma chars_loop_eq: "chars_loop m s l i out = out @ serial (bytes_at m (s + i) (unat l - unat i))"
proof (induction m s l i out rule: chars_loop.induct)
  case (1 m s l i out)
  show ?case
  proof (cases "i < l")
    case True
    then have "unat l - unat i = Suc (unat l - unat (i + 1))"
      by (simp add: unat_suc_less word_less_nat_alt)
    then show ?thesis using 1 True by (simp add: chars_loop.simps [of m s l i] add.assoc)
  next
    case False
    then show ?thesis by (simp add: chars_loop.simps [of m s l i] word_less_nat_alt)
  qed
qed

definition padded :: "u8 \<Rightarrow> u64 \<Rightarrow> u8 list \<Rightarrow> u8 list" where
  "padded c n cs = replicate (unat n - length cs) c @ cs"

lemma cstr_bytes: "cstr m s cs \<Longrightarrow> bytes_at m s (length cs) = cs"
  by (simp add: cstr_iff)

lemma puts_pad_cstr: "cstr m s cs \<Longrightarrow> puts_pad m s c n out = Some (out @ serial (padded c n cs))"
  using cstr_length [of m s cs] cstr_bytes [of m s cs]
  by (simp add: puts_pad_def strlen_cstr pad_loop_eq chars_loop_eq padded_def unat_of_nat_small)

section \<open>Formats and what they print\<close>

datatype conversion = Str | Dec | Hex | Uns | Addr | LDec | LHex | LUns | LAddr | Other u8 | LOther u8

primrec conversion_chars :: "conversion \<Rightarrow> u8 list" where
  "conversion_chars Str = [ch CHR ''s'']"
| "conversion_chars Dec = [ch CHR ''d'']"
| "conversion_chars Hex = [ch CHR ''x'']"
| "conversion_chars Uns = [ch CHR ''u'']"
| "conversion_chars Addr = [ch CHR ''a'']"
| "conversion_chars LDec = [ch CHR ''l'', ch CHR ''d'']"
| "conversion_chars LHex = [ch CHR ''l'', ch CHR ''x'']"
| "conversion_chars LUns = [ch CHR ''l'', ch CHR ''u'']"
| "conversion_chars LAddr = [ch CHR ''l'', ch CHR ''a'']"
| "conversion_chars (Other c) = [c]"
| "conversion_chars (LOther c) = [ch CHR ''l'', c]"

definition digit :: "u8 \<Rightarrow> bool" where
  "digit c \<longleftrightarrow> c \<ge> ch CHR ''0'' \<and> c \<le> ch CHR ''9''"

primrec conversion_ok :: "conversion \<Rightarrow> bool" where
  "conversion_ok Str = True" | "conversion_ok Dec = True" | "conversion_ok Hex = True"
| "conversion_ok Uns = True" | "conversion_ok Addr = True" | "conversion_ok LDec = True"
| "conversion_ok LHex = True" | "conversion_ok LUns = True" | "conversion_ok LAddr = True"
| "conversion_ok (Other c) \<longleftrightarrow> c \<notin> set (0 # map of_char ''sdxual'') \<and> \<not> digit c"
| "conversion_ok (LOther c) \<longleftrightarrow> c \<notin> set (0 # map of_char ''dxua'')"

text \<open>
  A piece: a character printed as it is, or a conversion with its flag and its width.  A blank
  right behind the percent sign is a flag; behind a flag or a width it is an unknown conversion.
\<close>

datatype piece = Lit u8 | Conv "u8 option" "u8 list" conversion

primrec encode :: "piece \<Rightarrow> u8 list" where
  "encode (Lit c) = [c]"
| "encode (Conv f ds k) = ch CHR ''%'' # (case f of None \<Rightarrow> [] | Some c \<Rightarrow> [c]) @ ds @ conversion_chars k"

primrec piece_ok :: "piece \<Rightarrow> bool" where
  "piece_ok (Lit c) \<longleftrightarrow> c \<noteq> 0 \<and> c \<noteq> ch CHR ''%''"
| "piece_ok (Conv f ds k) \<longleftrightarrow> (\<forall>d \<in> set ds. digit d) \<and> conversion_ok k \<and>
     (case f of None \<Rightarrow> if ds = [] then k \<noteq> Other (ch CHR '' '') else hd ds \<noteq> ch CHR ''0'' | Some c \<Rightarrow> c = ch CHR ''0'' \<or> c = ch CHR '' '')"

definition c_text :: "64 mem \<Rightarrow> u64 \<Rightarrow> u8 list" where
  "c_text m p = (case strlen m p of None \<Rightarrow> [] | Some l \<Rightarrow> bytes_at m p (unat l))"

primrec conversion_text :: "64 mem \<Rightarrow> u8 \<Rightarrow> u64 \<Rightarrow> u64 \<Rightarrow> conversion \<Rightarrow> u8 list" where
  "conversion_text m c n v Str = padded c n (c_text m v)"
| "conversion_text m c n v Dec = padded c n (number 10 (unat (ucast v :: u32)))"
| "conversion_text m c n v Hex = padded c n (number 16 (unat (ucast v :: u32)))"
| "conversion_text m c n v Uns = padded c n (number 10 (unat (ucast v :: u32)))"
| "conversion_text m c n v Addr = map of_char ''0x'' @ padded (ch CHR ''0'') 8 (number 16 (unat (ucast v :: u32)))"
| "conversion_text m c n v LDec = padded c n (itoa_text 10 False v)"
| "conversion_text m c n v LHex = padded c n (number 16 (unat v))"
| "conversion_text m c n v LUns = padded c n (number 10 (unat v))"
| "conversion_text m c n v LAddr = map of_char ''0x'' @ padded (ch CHR ''0'') 16 (number 16 (unat v))"
| "conversion_text m c n v (Other d) = [ch CHR ''%'', d]"
| "conversion_text m c n v (LOther d) = []"

primrec takes_argument :: "conversion \<Rightarrow> bool" where
  "takes_argument Str = True" | "takes_argument Dec = True" | "takes_argument Hex = True"
| "takes_argument Uns = True" | "takes_argument Addr = True" | "takes_argument LDec = True"
| "takes_argument LHex = True" | "takes_argument LUns = True" | "takes_argument LAddr = True"
| "takes_argument (Other c) = False" | "takes_argument (LOther c) = False"

definition rest_arguments :: "conversion \<Rightarrow> u64 stream \<Rightarrow> u64 stream" where
  "rest_arguments k a = (if takes_argument k then stl a else a)"

definition widen :: "u64 \<Rightarrow> u8 list \<Rightarrow> u64" where
  "widen n ds = foldl (\<lambda>n d. n * 10 + ucast (d - ch CHR ''0'')) n ds"

definition flag_char :: "u8 option \<Rightarrow> u8 \<Rightarrow> u8" where
  "flag_char f c = (case f of None \<Rightarrow> c | Some d \<Rightarrow> d)"

fun render :: "64 mem \<Rightarrow> u8 \<Rightarrow> u64 \<Rightarrow> u64 stream \<Rightarrow> piece list \<Rightarrow> u8 list" where
  "render m c n a [] = []"
| "render m c n a (Lit d # ps) = d # render m c n a ps"
| "render m c n a (Conv f ds k # ps) =
     conversion_text m (flag_char f c) (widen n ds) (shd a) k @
     render m (flag_char f c) (widen n ds) (rest_arguments k a) ps"

text \<open>Every argument of a \<open>%s\<close> is a string that lies outside the buffer.\<close>

definition string_outside :: "64 mem \<Rightarrow> u64 set \<Rightarrow> u64 \<Rightarrow> bool" where
  "string_outside m R p \<longleftrightarrow> (\<exists>cs. cstr m p cs \<and> region p (Suc (length cs)) \<inter> R = {})"

fun strings_outside :: "64 mem \<Rightarrow> u64 set \<Rightarrow> u64 stream \<Rightarrow> piece list \<Rightarrow> bool" where
  "strings_outside m R a [] \<longleftrightarrow> True"
| "strings_outside m R a (Lit d # ps) \<longleftrightarrow> strings_outside m R a ps"
| "strings_outside m R a (Conv f ds k # ps) \<longleftrightarrow>
     (k = Str \<longrightarrow> string_outside m R (shd a)) \<and> strings_outside m R (rest_arguments k a) ps"

section \<open>One conversion\<close>

lemma vp_puts_cstr:
  "cstr (vmem s) p cs \<Longrightarrow> vp_puts p c n s = Some (s\<lparr>vout := vout s @ serial (padded c n cs)\<rparr>)"
  by (simp add: vp_puts_def puts_pad_cstr)

lemma vp_itoa_run:
  assumes "2 \<le> unat base" and "unat base \<le> 16"
  shows "\<exists>m'. vp_itoa buf base u v c n s =
      Some (s\<lparr>vmem := m', vout := vout s @ serial (padded c n (itoa_text base u v))\<rparr>) \<and>
    (\<forall>x. x \<notin> region buf bufferSize \<longrightarrow> m' x = vmem s x)"
proof -
  have "bufferSize < 2 ^ LENGTH(64)" by (simp add: bufferSize_def)
  from itoa_run [OF assms this] obtain m' where m': "itoa base u (vmem s) buf v = Some m'"
      "cstr m' buf (itoa_text base u v)" "\<forall>x. x \<notin> region buf bufferSize \<longrightarrow> m' x = vmem s x" by blast
  then show ?thesis by (auto simp: vp_itoa_def vp_puts_cstr)
qed

lemma put_literal_0x: "put_literal ''0x'' s = s\<lparr>vout := vout s @ serial (map of_char ''0x'')\<rparr>"
  by (simp add: put_literal_def)

lemma itoa_text_unsigned:
  "itoa_text 16 u v = number 16 (unat v)" "itoa_text 10 True v = number 10 (unat v)"
  by (simp_all add: itoa_text_def)

lemma itoa_text_32: "itoa_text 10 False (ucast (v :: u32)) = number 10 (unat v)"
proof -
  have "sint (ucast v :: u64) = int (unat v)"
    using unat_lt_32 [of v] by (subst sint_small) (simp_all add: unat_ucast_32_64)
  then show ?thesis by (simp add: itoa_text_def unat_ucast_32_64)
qed

lemma c_text_cstr: "cstr m p cs \<Longrightarrow> c_text m p = cs"
  using cstr_length [of m p cs] by (simp add: c_text_def strlen_cstr cstr_bytes unat_of_nat_small)

text \<open>What the frame leaves: a string outside the buffer is the same string in both memories.\<close>

definition agrees :: "u64 \<Rightarrow> 64 mem \<Rightarrow> 64 mem \<Rightarrow> bool" where
  "agrees buf m m' \<longleftrightarrow> (\<forall>x. x \<notin> region buf bufferSize \<longrightarrow> m' x = m x)"

lemma agrees_refl [simp]: "agrees buf m m"
  by (simp add: agrees_def)

lemma agrees_trans: "agrees buf m m' \<Longrightarrow> agrees buf m' m'' \<Longrightarrow> agrees buf m m''"
  by (simp add: agrees_def)

lemma agrees_cstr:
  assumes "agrees buf m m'" and "cstr m p cs" and "region p (Suc (length cs)) \<inter> region buf bufferSize = {}"
  shows "cstr m' p cs"
proof -
  have "cstr m' p cs \<longleftrightarrow> cstr m p cs"
    using assms cstr_length [OF assms(2)] by (intro cstr_cong) (auto simp: agrees_def)
  then show ?thesis using assms(2) by simp
qed

lemma agrees_string_outside:
  assumes "agrees buf m m'" and "string_outside m (region buf bufferSize) p"
  shows "cstr m' p (c_text m p)"
  using assms agrees_cstr c_text_cstr unfolding string_outside_def by metis

text \<open>
  A conversion leaves the padding and the position alone (\<open>%l\<close> moves on by one), takes its
  argument and prints its text.
\<close>

lemma vp_conversion_run:
  assumes m: "agrees buf m (vmem s)" and k: "conversion_ok k"
    and l: "lies (vmem s) (fmt s) (conversion_chars k)"
    and str: "k = Str \<Longrightarrow> string_outside m (region buf bufferSize) (shd (vargs s))"
  shows "\<exists>s'. vp_conversion buf (vmem s (fmt s)) s = Some s' \<and> vargs s' = rest_arguments k (vargs s) \<and>
    fmt s' = fmt s + of_nat (length (conversion_chars k) - 1) \<and>
    vout s' = vout s @ serial (conversion_text m (padChar s) (padCount s) (shd (vargs s)) k) \<and>
    padChar s' = padChar s \<and> padCount s' = padCount s \<and> agrees buf (vmem s) (vmem s')"
proof -
  let ?c = "padChar s" and ?n = "padCount s" and ?v = "shd (vargs s)"
  let ?s = "s\<lparr>vargs := stl (vargs s)\<rparr>" and ?l = "s\<lparr>fmt := fmt s + 1, vargs := stl (vargs s)\<rparr>"
  have b: "2 \<le> unat (10 :: u64)" "unat (10 :: u64) \<le> 16" "2 \<le> unat (16 :: u64)" "unat (16 :: u64) \<le> 16"
    by simp_all
  note run = vp_itoa_run [OF b(1,2), of buf] vp_itoa_run [OF b(3,4), of buf]
  note defs = vp_conversion_def vp_long_def va_arg64_def va_arg32_def rest_arguments_def Let_def
    put_literal_0x itoa_text_unsigned itoa_text_32 unat_ucast_32_64
  show ?thesis
  proof (cases k)
    case Str
    then have "cstr (vmem ?s) ?v (c_text m ?v)" using agrees_string_outside [OF m str] by simp
    from vp_puts_cstr [OF this, of ?c ?n] show ?thesis using l Str by (auto simp: defs)
  next
    case Dec
    then show ?thesis using l run(1) [of False "ucast (ucast ?v :: u32)" ?c ?n ?s] by (auto simp: defs agrees_def)
  next
    case Hex
    then show ?thesis using l run(2) [of False "ucast (ucast ?v :: u32)" ?c ?n ?s] by (auto simp: defs agrees_def)
  next
    case Uns
    then show ?thesis using l run(1) [of True "ucast (ucast ?v :: u32)" ?c ?n ?s] by (auto simp: defs agrees_def)
  next
    case Addr
    then show ?thesis
      using l run(2) [of False "ucast (ucast ?v :: u32)" "ch CHR ''0''" 8 "put_literal ''0x'' ?s"]
      by (auto simp: defs agrees_def)
  next
    case LDec
    then show ?thesis using l run(1) [of False ?v ?c ?n ?l] by (auto simp: defs agrees_def)
  next
    case LHex
    then show ?thesis using l run(2) [of False ?v ?c ?n ?l] by (auto simp: defs agrees_def)
  next
    case LUns
    then show ?thesis using l run(1) [of True ?v ?c ?n ?l] by (auto simp: defs agrees_def)
  next
    case LAddr
    then show ?thesis using l run(2) [of False ?v "ch CHR ''0''" 16 "put_literal ''0x'' ?l"]
      by (auto simp: defs agrees_def)
  next
    case (Other c)
    then show ?thesis using l k by (auto simp: defs)
  next
    case (LOther c)
    then show ?thesis using l k by (auto simp: defs)
  qed
qed

section \<open>One turn of the loop\<close>

lemma vp_width_run:
  "lies m f ds \<Longrightarrow> \<forall>d \<in> set ds. digit d \<Longrightarrow> \<not> digit (m (f + of_nat (length ds))) \<Longrightarrow>
   vp_width m f n = Some (f + of_nat (length ds), widen n ds)"
proof (induction ds arbitrary: f n)
  case Nil
  then show ?case by (subst vp_width.simps) (auto simp: widen_def digit_def Let_def)
next
  case (Cons d ds)
  have "vp_width m (f + 1) (n * 10 + ucast (d - ch CHR ''0'')) =
      Some (f + 1 + of_nat (length ds), widen (n * 10 + ucast (d - ch CHR ''0'')) ds)"
    using Cons by (intro Cons.IH) (simp_all add: add.assoc)
  moreover have "d \<noteq> 0" using Cons.prems(2) by (auto simp: digit_def)
  ultimately show ?case using Cons.prems
    by (simp add: vp_width.simps [of m f n] widen_def digit_def Let_def add.assoc)
qed

lemma conversion_chars_hd:
  "conversion_ok k \<Longrightarrow> conversion_chars k \<noteq> [] \<and> \<not> digit (hd (conversion_chars k)) \<and>
    (k \<noteq> Other (ch CHR '' '') \<longrightarrow> hd (conversion_chars k) \<noteq> ch CHR '' '')"
  by (cases k) (auto simp: digit_def)

lemma encode_nonempty: "piece_ok p \<Longrightarrow> encode p \<noteq> [] \<and> 0 \<notin> set (encode p)"
  by (cases p; (cases "case p of Conv f ds k \<Rightarrow> k | _ \<Rightarrow> Str")?) (auto simp: digit_def split: option.splits)

text \<open>Flag and width are read up to the character that names the conversion.\<close>

lemma vp_step_Conv:
  assumes "lies (vmem s) (fmt s) (encode (Conv f ds k))" and "piece_ok (Conv f ds k)"
  defines "p \<equiv> fmt s + of_nat (length (encode (Conv f ds k)) - length (conversion_chars k))"
  shows "vp_step buf s = map_option (\<lambda>s'. s'\<lparr>fmt := fmt s' + 1\<rparr>)
      (vp_conversion buf (vmem s p) (s\<lparr>fmt := p, padChar := flag_char f (padChar s), padCount := widen (padCount s) ds\<rparr>))"
    and "lies (vmem s) p (conversion_chars k)"
proof -
  let ?m = "vmem s" and ?fl = "case f of None \<Rightarrow> [] | Some c \<Rightarrow> [c]"
  let ?f2 = "fmt s + 1 + of_nat (length ?fl)"
  have p: "p = ?f2 + of_nat (length ds)" by (simp add: p_def add.assoc)
  from assms(1) have l: "?m (fmt s) = ch CHR ''%''" "lies ?m (fmt s + 1) ?fl" "lies ?m ?f2 ds" "lies ?m p (conversion_chars k)"
    unfolding p by (simp_all add: lies_append algebra_simps)
  then show "lies ?m p (conversion_chars k)" by simp
  have "?m p = hd (conversion_chars k)" using l(4) conversion_chars_hd [of k] assms(2)
    by (cases "conversion_chars k") auto
  then have nd: "\<not> digit (?m p)" and nsp: "k \<noteq> Other (ch CHR '' '') \<Longrightarrow> ?m p \<noteq> ch CHR '' ''"
    using conversion_chars_hd [of k] assms(2) by auto
  have ds: "\<forall>d \<in> set ds. digit d" using assms(2) by simp
  have w: "vp_width ?m ?f2 (padCount s) = Some (p, widen (padCount s) ds)"
    using vp_width_run [OF l(3) ds] nd unfolding p by simp
  have fl: "(if ?m (fmt s + 1) = ch CHR ''0'' \<or> ?m (fmt s + 1) = ch CHR '' '' then (?m (fmt s + 1), fmt s + 1 + 1)
      else (padChar s, fmt s + 1)) = (flag_char f (padChar s), ?f2)"
  proof (cases f)
    case (Some c)
    then show ?thesis using l(2) assms(2) by (auto simp: flag_char_def)
  next
    case None
    have "?m (fmt s + 1) \<noteq> ch CHR ''0''" "?m (fmt s + 1) \<noteq> ch CHR '' ''"
      using None assms(2) l(3) nd nsp p by (cases ds; auto simp: digit_def)+
    then show ?thesis using None by (simp add: flag_char_def)
  qed
  show "vp_step buf s = map_option (\<lambda>s'. s'\<lparr>fmt := fmt s' + 1\<rparr>)
      (vp_conversion buf (?m p) (s\<lparr>fmt := p, padChar := flag_char f (padChar s), padCount := widen (padCount s) ds\<rparr>))"
    unfolding vp_step_def Let_def fl using l(1) w by simp
qed

lemma vp_step_Lit:
  "vmem s (fmt s) = c \<Longrightarrow> c \<noteq> ch CHR ''%'' \<Longrightarrow>
   vp_step buf s = Some (s\<lparr>vout := vout s @ [(0x3F8, c)], fmt := fmt s + 1\<rparr>)"
  by (simp add: vp_step_def)

section \<open>vprintf\<close>

lemma cstr_append:
  "cstr m p (cs @ ds) \<longleftrightarrow> 0 \<notin> set cs \<and> lies m p cs \<and> cstr m (p + of_nat (length cs)) ds"
  by (induction cs arbitrary: p) (auto simp: add.assoc)

text \<open>What one piece leaves behind; \<open>c'\<close>, \<open>n'\<close> and \<open>a'\<close> are the padding and the arguments after it.\<close>

lemma vp_step_piece:
  assumes p: "piece_ok p" and m: "agrees buf m (vmem s)" and l: "lies (vmem s) (fmt s) (encode p)"
    and str: "strings_outside m (region buf bufferSize) (vargs s) (p # ps)"
  shows "\<exists>s' t. vp_step buf s = Some s' \<and> fmt s' = fmt s + of_nat (length (encode p)) \<and> vout s' = vout s @ serial t \<and>
    render m (padChar s) (padCount s) (vargs s) (p # ps) = t @ render m (padChar s') (padCount s') (vargs s') ps \<and>
    agrees buf m (vmem s') \<and> strings_outside m (region buf bufferSize) (vargs s') ps"
proof (cases p)
  case (Lit c)
  let ?s = "s\<lparr>vout := vout s @ [(0x3F8, c)], fmt := fmt s + 1\<rparr>"
  have "vp_step buf s = Some ?s" using l p Lit by (intro vp_step_Lit) simp_all
  then show ?thesis using m str Lit by (intro exI [of _ ?s] exI [of _ "[c]"]) simp
next
  case (Conv f ds k)
  define q where "q = fmt s + of_nat (length (encode p) - length (conversion_chars k))"
  define s1 where "s1 = s\<lparr>fmt := q, padChar := flag_char f (padChar s), padCount := widen (padCount s) ds\<rparr>"
  have st: "vp_step buf s = map_option (\<lambda>s'. s'\<lparr>fmt := fmt s' + 1\<rparr>) (vp_conversion buf (vmem s1 (fmt s1)) s1)"
      "lies (vmem s1) (fmt s1) (conversion_chars k)"
    using vp_step_Conv(1) [of s f ds k buf] vp_step_Conv(2) [of s f ds k] l p Conv
    by (simp_all add: q_def s1_def)
  have k: "conversion_ok k" using p Conv by simp
  have "string_outside m (region buf bufferSize) (shd (vargs s1))" if "k = Str"
    using str that Conv by (simp add: s1_def)
  then obtain s2 where s2: "vp_conversion buf (vmem s1 (fmt s1)) s1 = Some s2" "vargs s2 = rest_arguments k (vargs s)"
      "fmt s2 = q + of_nat (length (conversion_chars k) - 1)"
      "vout s2 = vout s @ serial (conversion_text m (padChar s1) (padCount s1) (shd (vargs s)) k)"
      "padChar s2 = padChar s1" "padCount s2 = padCount s1" "agrees buf (vmem s) (vmem s2)"
    using vp_conversion_run [OF _ k st(2), of buf m] m by (auto simp: s1_def)
  have ne: "0 < length (conversion_chars k)" using conversion_chars_hd [OF k] by simp
  have le: "length (conversion_chars k) \<le> length (encode p)" using Conv by simp
  have "fmt s2 + 1 = fmt s + (of_nat (length (encode p) - length (conversion_chars k)) + of_nat (length (conversion_chars k) - 1) + 1)"
    using s2(3) by (simp add: q_def add.assoc)
  also have "\<dots> = fmt s + of_nat (length (encode p) - length (conversion_chars k) + (length (conversion_chars k) - 1) + 1)"
    by simp
  also have "length (encode p) - length (conversion_chars k) + (length (conversion_chars k) - 1) + 1 = length (encode p)"
    using ne le by arith
  finally have "fmt s2 + 1 = fmt s + of_nat (length (encode p))" .
  then show ?thesis using st(1) s2 str agrees_trans [OF m s2(7)] Conv
    by (intro exI [of _ "s2\<lparr>fmt := fmt s2 + 1\<rparr>"]
      exI [of _ "conversion_text m (padChar s1) (padCount s1) (shd (vargs s)) k"]) (simp add: s1_def)
qed

lemma vprintf_loop_run:
  assumes "\<forall>p \<in> set ps. piece_ok p" and "agrees buf m (vmem s)"
    and "cstr m (fmt s) (concat (map encode ps))"
    and "region (fmt s) (Suc (length (concat (map encode ps)))) \<inter> region buf bufferSize = {}"
    and "strings_outside m (region buf bufferSize) (vargs s) ps"
  shows "\<exists>s'. vprintf_loop buf s = Some s' \<and> agrees buf m (vmem s') \<and>
    vout s' = vout s @ serial (render m (padChar s) (padCount s) (vargs s) ps)"
  using assms
proof (induction ps arbitrary: s)
  case Nil
  then have "vmem s (fmt s) = 0" using agrees_cstr [of buf m "vmem s" "fmt s" "[]"] by simp
  then show ?case using Nil by (simp add: vprintf_loop.simps)
next
  case (Cons p ps)
  let ?rest = "concat (map encode ps)"
  have c: "cstr (vmem s) (fmt s) (encode p @ ?rest)" using agrees_cstr [OF Cons.prems(2)] Cons.prems(3,4) by simp
  have e: "encode p \<noteq> []" "0 \<notin> set (encode p)" using encode_nonempty Cons.prems(1) by auto
  have "vmem s (fmt s) \<noteq> 0" using c e by (cases "encode p") auto
  moreover obtain s' t where s': "vp_step buf s = Some s'" "fmt s' = fmt s + of_nat (length (encode p))"
      "vout s' = vout s @ serial t"
      "render m (padChar s) (padCount s) (vargs s) (p # ps) = t @ render m (padChar s') (padCount s') (vargs s') ps"
      "agrees buf m (vmem s')" "strings_outside m (region buf bufferSize) (vargs s') ps"
    using vp_step_piece [of p buf m s ps] Cons.prems c by (auto simp: cstr_append)
  have "unat (fmt s' - fmt s) + Suc (length ?rest) \<le> Suc (length (concat (map encode (p # ps))))"
    using s'(2) by (simp add: unat_of_nat)
  then have "region (fmt s') (Suc (length ?rest)) \<inter> region buf bufferSize = {}"
    using Cons.prems(4) region_sub by blast
  then obtain s'' where "vprintf_loop buf s' = Some s''" "agrees buf m (vmem s'')"
      "vout s'' = vout s' @ serial (render m (padChar s') (padCount s') (vargs s') ps)"
    using Cons.IH [OF _ s'(5) _ _ s'(6)] Cons.prems(1,3) s'(2) by (auto simp: cstr_append)
  ultimately show ?case using s' by (simp add: vprintf_loop.simps [of buf s])
qed

lemma vprintf_run:
  assumes "\<forall>p \<in> set ps. piece_ok p" and "cstr m f (concat (map encode ps))"
    and "region f (Suc (length (concat (map encode ps)))) \<inter> region buf bufferSize = {}"
    and "strings_outside m (region buf bufferSize) args ps"
  shows "\<exists>m'. vprintf buf m out f args = Some (m', out @ serial (render m 0xFF 0 args ps)) \<and>
    (\<forall>x. x \<notin> region buf bufferSize \<longrightarrow> m' x = m x)"
proof -
  let ?s = "\<lparr>vmem = m, vout = out, fmt = f, vargs = args, padChar = - 1, padCount = 0\<rparr>"
  have e: "(0xFF :: u8) = - 1" by simp
  from vprintf_loop_run [of ps buf m ?s] assms obtain s' where
    "vprintf_loop buf ?s = Some s'" "agrees buf m (vmem s')"
    "vout s' = out @ serial (render m (- 1) 0 args ps)" by auto
  then show ?thesis unfolding e by (auto simp: vprintf_def agrees_def)
qed

text \<open>
  C10. On the code of a format, with the format and the strings it prints outside the buffer,
  \<open>vprintf\<close> returns, writes to memory nothing but the buffer and prints the pieces in order: the
  characters, and for each conversion its argument in the flag and width read so far.  Flag and
  width are not reset between conversions.
\<close>

theorem vprintf_renders:
  assumes "\<forall>p \<in> set ps. piece_ok p" and "cstr m f (concat (map encode ps))"
    and "region f (Suc (length (concat (map encode ps)))) \<inter> region buf bufferSize = {}"
    and "strings_outside m (region buf bufferSize) args ps"
  shows "\<exists>m'. vprintf buf m out f args = Some (m', out @ serial (render m 0xFF 0 args ps)) \<and>
    (\<forall>x. x \<notin> region buf bufferSize \<longrightarrow> m' x = m x)"
  using assms by (rule vprintf_run)

text \<open>A memory that holds a C string, for closed instances.\<close>

primrec put_bytes :: "64 mem \<Rightarrow> u64 \<Rightarrow> u8 list \<Rightarrow> 64 mem" where
  "put_bytes m p [] = m"
| "put_bytes m p (c # cs) = (put_bytes m (p + 1) cs)(p := c)"

lemma put_bytes_eq:
  "length cs \<le> 2 ^ 64 \<Longrightarrow> put_bytes m p cs x = (if unat (x - p) < length cs then cs ! unat (x - p) else m x)"
proof (induction cs arbitrary: p)
  case (Cons c cs)
  show ?case
  proof (cases "x = p")
    case False
    then have "unat (x - (p + 1)) = unat (x - p) - 1" "0 < unat (x - p)"
      by (simp_all add: diff_diff_eq [symmetric] unat_minus_one unat_gt_0)
    then show ?thesis using Cons False by (auto simp: nth_Cons' less_diff_conv)
  qed simp
qed simp

lemma cstr_put_bytes:
  assumes "0 \<notin> set cs" and "length cs < 2 ^ 64"
  shows "cstr (put_bytes (\<lambda>_. 0) p cs) p cs"
proof -
  have "bytes_at (put_bytes (\<lambda>_. 0) p cs) p (length cs) = cs"
    using assms(2) unat_of_nat_small [where ?'a = 64]
    by (intro nth_equalityI) (simp_all add: nth_bytes_at put_bytes_eq)
  moreover have "put_bytes (\<lambda>_. 0) p cs (p + of_nat (length cs)) = 0"
    using assms(2) unat_of_nat_small [where ?'a = 64, of "length cs"] by (simp add: put_bytes_eq)
  ultimately show ?thesis using assms(1) unfolding cstr_def lies_append
    by (simp only: lies_iff) simp
qed

text \<open>The second number is padded like the first: \<open>printf("%04x %x", 0xa, 0xb)\<close> prints 000a 000b.\<close>

theorem vprintf_renders_witness:
  "\<exists>m'. vprintf 0x1000 (put_bytes (\<lambda>_. 0) 0x100 (map of_char ''%04x %x'')) [] 0x100 (0xA ## 0xB ## sconst 0) =
    Some (m', serial (map of_char ''000a 000b''))"
proof -
  let ?ps = "[Conv (Some (ch CHR ''0'')) [ch CHR ''4''] Hex, Lit (ch CHR '' ''), Conv None [] Hex]"
  let ?m = "put_bytes (\<lambda>_. 0) 0x100 (map of_char ''%04x %x'')"
  have e: "concat (map encode ?ps) = map of_char ''%04x %x''" by simp
  have c: "cstr ?m 0x100 (map of_char ''%04x %x'')" by (rule cstr_put_bytes) simp_all
  have d: "region 0x100 (Suc (length (map of_char ''%04x %x'' :: u8 list))) \<inter> region (0x1000 :: u64) bufferSize = {}"
    by (rule region_disjoint_nat) (simp_all add: bufferSize_def)
  have n: "number 16 10 = [ch CHR ''a'']" "number 16 11 = [ch CHR ''b'']" by code_simp+
  have r: "render ?m 0xFF 0 (0xA ## 0xB ## sconst 0) ?ps = map of_char ''000a 000b''"
    by (simp add: rest_arguments_def flag_char_def widen_def padded_def n numeral_3_eq_3)
  have "\<exists>m'. vprintf 0x1000 ?m [] 0x100 (0xA ## 0xB ## sconst 0) =
      Some (m', [] @ serial (render ?m 0xFF 0 (0xA ## 0xB ## sconst 0) ?ps)) \<and>
    (\<forall>x. x \<notin> region 0x1000 bufferSize \<longrightarrow> m' x = ?m x)"
  proof (rule vprintf_renders)
    show "\<forall>p \<in> set ?ps. piece_ok p" by (simp add: digit_def)
    show "cstr ?m 0x100 (concat (map encode ?ps))" unfolding e by (rule c)
    show "region 0x100 (Suc (length (concat (map encode ?ps)))) \<inter> region (0x1000 :: u64) bufferSize = {}"
      unfolding e by (rule d)
    show "strings_outside ?m (region 0x1000 bufferSize) (0xA ## 0xB ## sconst 0) ?ps" by simp
  qed
  then show ?thesis unfolding r by auto
qed

text \<open>
  A percent sign at the end of a format makes \<open>vprintf\<close> print it with the terminating zero and
  read on behind it: whatever format lies there is printed too, with the arguments.
\<close>

lemma percent_at_end_reads_on:
  assumes "m f = ch CHR ''%''" and "m (f + 1) = 0"
    and "\<forall>p \<in> set ps. piece_ok p" and "cstr m (f + 2) (concat (map encode ps))"
    and "region (f + 2) (Suc (length (concat (map encode ps)))) \<inter> region buf bufferSize = {}"
    and "strings_outside m (region buf bufferSize) args ps"
  shows "\<exists>m'. vprintf buf m out f args =
    Some (m', out @ serial (ch CHR ''%'' # 0 # render m 0xFF 0 args ps))"
proof -
  let ?s = "\<lparr>vmem = m, vout = out, fmt = f, vargs = args, padChar = - 1, padCount = 0\<rparr>"
  let ?s1 = "?s\<lparr>fmt := f + 2, vout := out @ serial [ch CHR ''%'', 0]\<rparr>"
  have e: "(0xFF :: u8) = - 1" by simp
  have "vp_width m (f + 1) 0 = Some (f + 1, 0)" using assms(2) by (simp add: vp_width.simps [of m "f + 1"])
  then have "vp_step buf ?s = Some ?s1"
    using assms(1,2) by (simp add: vp_step_def vp_conversion_def va_arg64_def va_arg32_def Let_def)
  then have "vprintf_loop buf ?s = vprintf_loop buf ?s1"
    using assms(1) by (simp add: vprintf_loop.simps [of buf ?s])
  moreover from vprintf_loop_run [of ps buf m ?s1] assms(3-6) obtain s' where
    "vprintf_loop buf ?s1 = Some s'" "vout s' = vout ?s1 @ serial (render m (- 1) 0 args ps)" by auto
  ultimately show ?thesis unfolding e by (simp add: vprintf_def)
qed

section \<open>print, assertFail\<close>

lemma debug_print_view: "debug_print m s out = out @ serial (str_view m s)"
  by (simp add: debug_print_def chars_loop_eq str_view_def str_data_def str_length_def)

lemma debug_println_view: "debug_println m s out = out @ serial (str_view m s @ [10])"
  by (simp add: debug_println_def chars_loop_eq str_view_def str_data_def str_length_def)

definition fail_format :: "piece list" where
  "fail_format = [Conv None [] Str, Lit (ch CHR '':''), Conv None [] Dec, Lit (ch CHR '':''),
     Lit (ch CHR '' ''), Conv None [] Str, Lit 10]"

definition panic_text :: "u8 list" where
  "panic_text = map of_char '' !!! PANIC !!!'' @ [10]"

lemma hlt_loop_None: "hlt_loop i = None"
proof (cases "hlt_loop i")
  case (Some u)
  have False by (rule hlt_loop.raw_induct [where P = "\<lambda>i u. False", OF _ Some])
  then show ?thesis ..
qed simp

text \<open>
  C37. \<open>assertFail\<close>, with the format literals and its strings outside the buffer, always reaches the
  loop of \<open>panic\<close>, having printed the file, the line, the message and the line of \<open>panic\<close>, and the
  loop never ends, so that \<open>assertFail\<close> never returns.
\<close>

theorem assertFail_prints:
  assumes "cstr m lit_fail (concat (map encode fail_format))"
    and "region lit_fail (Suc (length (concat (map encode fail_format)))) \<inter> region buf bufferSize = {}"
    and "cstr m lit_panic panic_text"
    and "region lit_panic (Suc (length panic_text)) \<inter> region buf bufferSize = {}"
    and "cstr m file fs" and "region file (Suc (length fs)) \<inter> region buf bufferSize = {}"
    and "cstr m msg ms" and "region msg (Suc (length ms)) \<inter> region buf bufferSize = {}"
  shows "assertFail buf lit_fail lit_panic m out file line msg =
    Some (out @ serial (fs @ [ch CHR '':''] @ number 10 (unat line) @ [ch CHR '':'', ch CHR '' ''] @ ms @ [10] @ panic_text), None)"
proof -
  let ?a = "file ## ucast line ## msg ## sconst 0"
  have "strings_outside m (region buf bufferSize) ?a fail_format"
    using assms(5-8) by (auto simp: fail_format_def rest_arguments_def string_outside_def)
  then obtain m1 where m1: "vprintf buf m out lit_fail ?a = Some (m1, out @ serial (render m 0xFF 0 ?a fail_format))"
      "agrees buf m m1"
    using vprintf_run [of fail_format m lit_fail buf ?a out] assms(1,2)
    by (auto simp: fail_format_def agrees_def)
  have "ucast (ucast line :: u64) = line" by (rule bit_word_eqI) (auto simp: bit_simps)
  then have r: "render m 0xFF 0 ?a fail_format =
      fs @ [ch CHR '':''] @ number 10 (unat line) @ [ch CHR '':'', ch CHR '' ''] @ ms @ [10]"
    using assms(5,7) by (simp add: fail_format_def rest_arguments_def flag_char_def widen_def padded_def c_text_cstr)
  have lits: "concat (map encode (map Lit cs)) = cs" "render m c n a (map Lit cs) = cs"
      "strings_outside m R a (map Lit cs)" for cs m c n a R
    by (induction cs) simp_all
  have "cstr m1 lit_panic panic_text" using agrees_cstr [OF m1(2) assms(3,4)] .
  moreover have "\<forall>p \<in> set (map Lit panic_text). piece_ok p" by (simp add: panic_text_def)
  moreover have "strings_outside m1 (region buf bufferSize) (sconst 0) (map Lit panic_text)" by (rule lits(3))
  ultimately obtain m2 where "vprintf buf m1 (out @ serial (render m 0xFF 0 ?a fail_format)) lit_panic (sconst 0) =
      Some (m2, (out @ serial (render m 0xFF 0 ?a fail_format)) @ serial panic_text)"
    using vprintf_run [of "map Lit panic_text" m1 lit_panic buf "sconst 0", unfolded lits] assms(4) by blast
  then show ?thesis using m1(1)
    by (simp add: assertFail_def sys_panic_def debug_printf_def r hlt_loop_None)
qed

text \<open>An assertion that fails in line 57 of a file a with the message b.\<close>

theorem assertFail_prints_witness:
  "\<exists>m. assertFail 0x1000 0x100 0x200 m [] 0x300 57 0x400 =
    Some (serial (map of_char ''a:57: b'' @ [10] @ panic_text), None)"
proof -
  define m where "m = (\<lambda>x. if x \<in> region 0x100 0x100 then put_bytes (\<lambda>_. 0) 0x100 (concat (map encode fail_format)) x
    else if x \<in> region 0x200 0x100 then put_bytes (\<lambda>_. 0) 0x200 panic_text x
    else if x = 0x300 then 97 else if x = 0x400 then 98 else 0)"
  have in_r: "x \<in> region (p :: u64) 0x100 \<longleftrightarrow> unat p \<le> unat x \<and> unat x < unat p + 0x100"
    if "unat p \<le> 0x200" for x p using that by (intro in_region_nat) simp
  have a: "\<And>x. x \<in> region 0x100 (Suc (length (concat (map encode fail_format)))) \<Longrightarrow> x \<in> region (0x100 :: u64) 0x100"
    "\<And>x. x \<in> region 0x200 (Suc (length panic_text)) \<Longrightarrow> x \<in> region (0x200 :: u64) 0x100"
    by (auto simp: in_region_iff fail_format_def panic_text_def)
  have dj: "region p (Suc k) \<inter> region (0x1000 :: u64) bufferSize = {}" if "unat p \<le> 0x400" "k < 0x100" for p k
    using that by (intro region_disjoint_nat) (simp_all add: bufferSize_def)
  have "cstr (put_bytes (\<lambda>_. 0) 0x100 (concat (map encode fail_format))) 0x100 (concat (map encode fail_format))"
    "cstr (put_bytes (\<lambda>_. 0) 0x200 panic_text) 0x200 panic_text"
    by (rule cstr_put_bytes; simp add: fail_format_def panic_text_def)+
  moreover have "cstr (put_bytes (\<lambda>_. 0) 0x100 (concat (map encode fail_format))) 0x100 (concat (map encode fail_format)) =
      cstr m 0x100 (concat (map encode fail_format))"
    by (rule cstr_cong) (auto simp: m_def a fail_format_def)
  moreover have "cstr (put_bytes (\<lambda>_. 0) 0x200 panic_text) 0x200 panic_text = cstr m 0x200 panic_text"
    by (rule cstr_cong) (auto simp: m_def in_r dest!: a(2), simp add: panic_text_def)
  moreover have "cstr m 0x300 [97]" "cstr m 0x400 [98]" by (simp_all add: m_def in_r)
  ultimately have "assertFail 0x1000 0x100 0x200 m [] 0x300 57 0x400 =
      Some ([] @ serial ([97] @ [ch CHR '':''] @ number 10 (unat (57 :: u32)) @ [ch CHR '':'', ch CHR '' ''] @ [98] @ [10] @ panic_text), None)"
    by (intro assertFail_prints) (simp_all add: fail_format_def panic_text_def dj)
  moreover have "unat (57 :: u32) = 57" by simp
  moreover have "number 10 57 = map of_char ''57''" by code_simp
  ultimately show ?thesis by (intro exI [of _ m]) simp
qed

end
