(* ===== verification/LoaderDebug.thy ===== *)
theory LoaderDebug
  imports DebugProps
begin

text \<open>
  The loader's copy of the output functions, loader/sys/debug.cpp and loader/sys/panic.cpp, and
  what they print.  Its \<open>vprintf\<close> knows other conversions than the kernel's and no padding.  The
  arguments of a variadic call are 4-byte slots; a 64-bit argument takes two, the low half first.
\<close>

unbundle bit_operations_syntax

section \<open>The serial port, puts\<close>

text \<open>\<open>io::out\<close> of loader/sys/io.hpp, the same text as the kernel's.\<close>

definition loader_io_out :: "u16 \<Rightarrow> u8 \<Rightarrow> port_output \<Rightarrow> port_output" where
  "loader_io_out port value out = out @ [(port, value)]"

record SerialDebug = d_port :: u16

definition SerialDebug_new :: "u16 \<Rightarrow> SerialDebug" where
  "SerialDebug_new port = \<lparr>d_port = port\<rparr>"

definition loader_putc :: "SerialDebug \<Rightarrow> u8 \<Rightarrow> port_output \<Rightarrow> port_output" where
  "loader_putc p c out = loader_io_out (d_port p) c out"

definition loader_out :: SerialDebug where
  "loader_out = SerialDebug_new 0x3F8"

partial_function (option) loader_puts :: "32 mem \<Rightarrow> u32 \<Rightarrow> port_output \<Rightarrow> port_output option" where
  "loader_puts m s out = (if m s \<noteq> 0 then loader_puts m (s + 1) (loader_putc loader_out (m s) out) else Some out)"

section \<open>vprintf\<close>

record loader_vp =
  lv_mem :: "32 mem"
  lv_out :: port_output
  lv_fmt :: u32
  lv_args :: "u32 stream"

definition lv_literal :: "string \<Rightarrow> loader_vp \<Rightarrow> loader_vp" where
  "lv_literal cs s = s\<lparr>lv_out := fold (\<lambda>c. loader_putc loader_out (of_char c)) cs (lv_out s)\<rparr>"

definition lv_puts :: "u32 \<Rightarrow> loader_vp \<Rightarrow> loader_vp option" where
  "lv_puts p s = map_option (\<lambda>out. s\<lparr>lv_out := out\<rparr>) (loader_puts (lv_mem s) p (lv_out s))"

definition lv_itoa :: "u32 \<Rightarrow> u64 \<Rightarrow> u64 \<Rightarrow> loader_vp \<Rightarrow> loader_vp option" where
  "lv_itoa buf base v s =
     Option.bind (loader_itoa base False (lv_mem s) buf v) (\<lambda>m. lv_puts buf (s\<lparr>lv_mem := m\<rparr>))"

definition lv_arg32 :: "loader_vp \<Rightarrow> u32 \<times> loader_vp" where
  "lv_arg32 s = (shd (lv_args s), s\<lparr>lv_args := stl (lv_args s)\<rparr>)"

definition lv_arg64 :: "loader_vp \<Rightarrow> u64 \<times> loader_vp" where
  "lv_arg64 s = (ucast (shd (lv_args s)) OR push_bit 32 (ucast (shd (stl (lv_args s)))),
     s\<lparr>lv_args := stl (stl (lv_args s))\<rparr>)"

definition lv_conversion :: "u32 \<Rightarrow> u8 \<Rightarrow> loader_vp \<Rightarrow> loader_vp option" where
  "lv_conversion buf c s =
     (if c = ch CHR ''a'' \<or> c = ch CHR ''x'' then
        let s1 = (if c = ch CHR ''a'' then lv_literal ''0x'' s else s); (v32, s2) = lv_arg32 s1 in
        lv_itoa buf 16 (ucast v32) s2
      else if c = ch CHR ''d'' then let (v32, s1) = lv_arg32 s in lv_itoa buf 10 (ucast v32) s1
      else if c = ch CHR ''A'' \<or> c = ch CHR ''X'' then
        let s1 = (if c = ch CHR ''A'' then lv_literal ''0x'' s else s); (v64, s2) = lv_arg64 s1 in
        lv_itoa buf 16 v64 s2
      else if c = ch CHR ''s'' then let (v32, s1) = lv_arg32 s in lv_puts v32 s1
      else Some (s\<lparr>lv_out := loader_putc loader_out c (loader_putc loader_out (ch CHR ''%'') (lv_out s))\<rparr>))"

definition lv_step :: "u32 \<Rightarrow> loader_vp \<Rightarrow> loader_vp option" where
  "lv_step buf s =
     (let c = lv_mem s (lv_fmt s) in
      map_option (\<lambda>s'. s'\<lparr>lv_fmt := lv_fmt s' + 1\<rparr>)
      (if c = ch CHR ''%'' then
         let s1 = s\<lparr>lv_fmt := lv_fmt s + 1\<rparr> in lv_conversion buf (lv_mem s1 (lv_fmt s1)) s1
       else Some (s\<lparr>lv_out := loader_putc loader_out c (lv_out s)\<rparr>)))"

partial_function (option) lv_loop :: "u32 \<Rightarrow> loader_vp \<Rightarrow> loader_vp option" where
  "lv_loop buf s =
     (if lv_mem s (lv_fmt s) \<noteq> 0 then Option.bind (lv_step buf s) (lv_loop buf) else Some s)"

definition loader_vprintf :: "u32 \<Rightarrow> 32 mem \<Rightarrow> port_output \<Rightarrow> u32 \<Rightarrow> u32 stream \<Rightarrow> (32 mem \<times> port_output) option" where
  "loader_vprintf buf m out f args =
     map_option (\<lambda>s. (lv_mem s, lv_out s)) (lv_loop buf \<lparr>lv_mem = m, lv_out = out, lv_fmt = f, lv_args = args\<rparr>)"

definition loader_printf :: "u32 \<Rightarrow> 32 mem \<Rightarrow> port_output \<Rightarrow> u32 \<Rightarrow> u32 stream \<Rightarrow> (32 mem \<times> port_output) option" where
  "loader_printf buf m out f args = loader_vprintf buf m out f args"

section \<open>dump, assertFail, panic\<close>

text \<open>\<open>cs[b]\<close> is a \<open>char\<close>, widened with its sign.\<close>

partial_function (option) loader_dump_loop ::
  "u32 \<Rightarrow> u32 \<Rightarrow> 32 mem \<Rightarrow> port_output \<Rightarrow> u32 \<Rightarrow> u32 \<Rightarrow> u32 \<Rightarrow> (32 mem \<times> port_output) option" where
  "loader_dump_loop buf lit m out cs lim b =
     (if b < lim then
        Option.bind (loader_printf buf m out lit (b ## scast (m (cs + b)) ## scast (m (cs + b)) ## sconst 0))
          (\<lambda>r. loader_dump_loop buf lit (fst r) (snd r) cs lim (b + 1))
      else Some (m, out))"

definition loader_dump :: "u32 \<Rightarrow> u32 \<Rightarrow> 32 mem \<Rightarrow> port_output \<Rightarrow> u32 \<Rightarrow> u32 \<Rightarrow> (32 mem \<times> port_output) option" where
  "loader_dump buf lit m out cs lim = loader_dump_loop buf lit m out cs lim 0"

text \<open>As in the kernel: the output when the endless loop is entered, and what the loop ends with.\<close>

definition loader_panic :: "u32 \<Rightarrow> u32 \<Rightarrow> 32 mem \<Rightarrow> port_output \<Rightarrow> (port_output \<times> unit option) option" where
  "loader_panic buf lit_panic m out =
     map_option (\<lambda>(m1, out1). (out1, hlt_loop False)) (loader_printf buf m out lit_panic (sconst 0))"

definition loader_assertFail ::
  "u32 \<Rightarrow> u32 \<Rightarrow> u32 \<Rightarrow> 32 mem \<Rightarrow> port_output \<Rightarrow> u32 \<Rightarrow> u32 \<Rightarrow> u32 \<Rightarrow>
    (port_output \<times> unit option) option" where
  "loader_assertFail buf lit_fail lit_panic m out file line msg =
     Option.bind (loader_printf buf m out lit_fail (file ## line ## msg ## sconst 0))
       (\<lambda>(m1, out1). loader_panic buf lit_panic m1 out1)"

end
