(* ===== verification/LoaderDebugProps.thy ===== *)
theory LoaderDebugProps
  imports LoaderDebug
begin

text \<open>
  What the loader's output functions print: the same pattern as for the kernel's, over the
  loader's conversions, and what both copies print on the formats both know.
\<close>

unbundle bit_operations_syntax

lemma loader_putc_out [simp]: "loader_putc loader_out c out = out @ [(0x3F8, c)]"
  by (simp add: loader_putc_def loader_io_out_def loader_out_def SerialDebug_new_def)

lemma loader_puts_cstr: "cstr m s cs \<Longrightarrow> loader_puts m s out = Some (out @ serial cs)"
  by (induction cs arbitrary: s out) (simp_all add: loader_puts.simps)

section \<open>Formats and what they print\<close>

datatype lpiece = LLit u8 | LConv u8

primrec lencode :: "lpiece \<Rightarrow> u8 list" where
  "lencode (LLit c) = [c]"
| "lencode (LConv c) = [ch CHR ''%'', c]"

primrec lpiece_ok :: "lpiece \<Rightarrow> bool" where
  "lpiece_ok (LLit c) \<longleftrightarrow> c \<noteq> 0 \<and> c \<noteq> ch CHR ''%''"
| "lpiece_ok (LConv c) \<longleftrightarrow> c \<noteq> 0"

definition loader_text :: "32 mem \<Rightarrow> u32 \<Rightarrow> u8 list" where
  "loader_text m p = (case loader_strlen m p of None \<Rightarrow> [] | Some l \<Rightarrow> bytes_at m p (unat l))"

text \<open>Of the two slots of a 64-bit argument the first is the low half.\<close>

definition pair_value :: "u32 stream \<Rightarrow> nat" where
  "pair_value a = unat (shd a) + 0x100000000 * unat (shd (stl a))"

definition lconv_text :: "32 mem \<Rightarrow> u32 stream \<Rightarrow> u8 \<Rightarrow> u8 list" where
  "lconv_text m a c =
     (if c = ch CHR ''a'' then map of_char ''0x'' @ number 16 (unat (shd a))
      else if c = ch CHR ''x'' then number 16 (unat (shd a))
      else if c = ch CHR ''d'' then number 10 (unat (shd a))
      else if c = ch CHR ''A'' then map of_char ''0x'' @ number 16 (pair_value a)
      else if c = ch CHR ''X'' then number 16 (pair_value a)
      else if c = ch CHR ''s'' then loader_text m (shd a)
      else [ch CHR ''%'', c])"

definition lconv_rest :: "u8 \<Rightarrow> u32 stream \<Rightarrow> u32 stream" where
  "lconv_rest c a =
     (if c \<in> set (map of_char ''axds'') then stl a
      else if c \<in> set (map of_char ''AX'') then stl (stl a) else a)"

fun lrender :: "32 mem \<Rightarrow> u32 stream \<Rightarrow> lpiece list \<Rightarrow> u8 list" where
  "lrender m a [] = []"
| "lrender m a (LLit c # ps) = c # lrender m a ps"
| "lrender m a (LConv c # ps) = lconv_text m a c @ lrender m (lconv_rest c a) ps"

definition lstring_outside :: "32 mem \<Rightarrow> u32 set \<Rightarrow> u32 \<Rightarrow> bool" where
  "lstring_outside m R p \<longleftrightarrow> (\<exists>cs. cstr m p cs \<and> region p (Suc (length cs)) \<inter> R = {})"

fun lstrings_outside :: "32 mem \<Rightarrow> u32 set \<Rightarrow> u32 stream \<Rightarrow> lpiece list \<Rightarrow> bool" where
  "lstrings_outside m R a [] \<longleftrightarrow> True"
| "lstrings_outside m R a (LLit c # ps) \<longleftrightarrow> lstrings_outside m R a ps"
| "lstrings_outside m R a (LConv c # ps) \<longleftrightarrow>
     (c = ch CHR ''s'' \<longrightarrow> lstring_outside m R (shd a)) \<and> lstrings_outside m R (lconv_rest c a) ps"

section \<open>One conversion\<close>

definition lagrees :: "u32 \<Rightarrow> 32 mem \<Rightarrow> 32 mem \<Rightarrow> bool" where
  "lagrees buf m m' \<longleftrightarrow> (\<forall>x. x \<notin> region buf bufferSize \<longrightarrow> m' x = m x)"

lemma lagrees_refl [simp]: "lagrees buf m m"
  by (simp add: lagrees_def)

lemma lagrees_trans: "lagrees buf m m' \<Longrightarrow> lagrees buf m' m'' \<Longrightarrow> lagrees buf m m''"
  by (simp add: lagrees_def)

lemma lagrees_cstr:
  assumes "lagrees buf m m'" and "cstr m p cs" and "region p (Suc (length cs)) \<inter> region buf bufferSize = {}"
  shows "cstr m' p cs"
proof -
  have "cstr m' p cs \<longleftrightarrow> cstr m p cs"
    using assms cstr_length [OF assms(2)] by (intro cstr_cong) (auto simp: lagrees_def)
  then show ?thesis using assms(2) by simp
qed

lemma loader_strlen_cstr: "cstr m p cs \<Longrightarrow> loader_strlen m p = Some (of_nat (length cs))"
  by (simp add: loader_strlen_def strlen_loop_cstr)

lemma loader_text_cstr: "cstr m p cs \<Longrightarrow> loader_text m p = cs"
  using cstr_length [of m p cs] by (simp add: loader_text_def loader_strlen_cstr cstr_iff unat_of_nat_small)

lemma lagrees_string_outside:
  assumes "lagrees buf m m'" and "lstring_outside m (region buf bufferSize) p"
  shows "cstr m' p (loader_text m p)"
  using assms lagrees_cstr loader_text_cstr unfolding lstring_outside_def by metis

lemma lv_itoa_run:
  assumes "2 \<le> unat base" and "unat base \<le> 16"
  shows "\<exists>m'. lv_itoa buf base v s = Some (s\<lparr>lv_mem := m', lv_out := lv_out s @ serial (itoa_text base False v)\<rparr>) \<and>
    lagrees buf (lv_mem s) m'"
proof -
  have "bufferSize < 2 ^ LENGTH(32)" by (simp add: bufferSize_def)
  from itoa_run [OF assms this] obtain m' where m': "itoa base False (lv_mem s) buf v = Some m'"
      "cstr m' buf (itoa_text base False v)" "\<forall>x. x \<notin> region buf bufferSize \<longrightarrow> m' x = lv_mem s x" by blast
  then show ?thesis by (auto simp: lv_itoa_def lv_puts_def loader_itoa_def loader_puts_cstr lagrees_def)
qed

lemma lv_literal_0x: "lv_literal ''0x'' s = s\<lparr>lv_out := lv_out s @ serial (map of_char ''0x'')\<rparr>"
  by (simp add: lv_literal_def)

lemma pair_value_eq: "unat (ucast (shd a) OR push_bit 32 (ucast (shd (stl a))) :: u64) = pair_value a"
proof -
  let ?l = "ucast (shd a) :: u64" and ?h = "push_bit 32 (ucast (shd (stl a))) :: u64"
  have "?l AND ?h = 0" by (rule bit_word_eqI) (auto simp: bit_simps dest: bit_imp_le_length)
  then have "?l OR ?h = ?l + ?h" using word_plus_and_or [of ?l ?h] by (simp only: add_0_left)
  moreover have "unat ?h = 0x100000000 * unat (shd (stl a))"
    using unat_lt_32 [of "shd (stl a)"]
    by (simp only: push_bit_eq_mult unat_word_ariths unat_ucast_32_64) (simp add: mult.commute)
  ultimately show ?thesis using unat_lt_32 [of "shd a"] unat_lt_32 [of "shd (stl a)"]
    by (simp add: pair_value_def unat_add_small unat_ucast_32_64)
qed

lemma lv_conversion_run:
  assumes m: "lagrees buf m (lv_mem s)"
    and str: "c = ch CHR ''s'' \<Longrightarrow> lstring_outside m (region buf bufferSize) (shd (lv_args s))"
  shows "\<exists>s'. lv_conversion buf c s = Some s' \<and> lv_args s' = lconv_rest c (lv_args s) \<and> lv_fmt s' = lv_fmt s \<and>
    lv_out s' = lv_out s @ serial (lconv_text m (lv_args s) c) \<and> lagrees buf (lv_mem s) (lv_mem s')"
proof -
  let ?a = "lv_args s"
  let ?s = "s\<lparr>lv_args := stl ?a\<rparr>" and ?t = "s\<lparr>lv_args := stl (stl ?a)\<rparr>"
  have b: "2 \<le> unat (10 :: u64)" "unat (10 :: u64) \<le> 16" "2 \<le> unat (16 :: u64)" "unat (16 :: u64) \<le> 16"
    by simp_all
  note ten = lv_itoa_run [OF b(1,2), of buf] and sixteen = lv_itoa_run [OF b(3,4), of buf]
  note defs = lv_conversion_def lv_arg32_def lv_arg64_def lconv_text_def lconv_rest_def Let_def lv_literal_0x
    itoa_text_unsigned itoa_text_32 unat_ucast_32_64 pair_value_eq
  consider "c = ch CHR ''a''" | "c = ch CHR ''x''" | "c = ch CHR ''d''" | "c = ch CHR ''A''" | "c = ch CHR ''X''"
    | "c = ch CHR ''s''" | "c \<notin> set (map of_char ''axdAXs'')" by auto
  then show ?thesis
  proof cases
    case 1
    then show ?thesis using sixteen [of "ucast (shd ?a)" "s\<lparr>lv_out := lv_out s @ serial (map of_char ''0x''), lv_args := stl ?a\<rparr>"]
      by (auto simp: defs)
  next
    case 2
    then show ?thesis using sixteen [of "ucast (shd ?a)" ?s] by (auto simp: defs)
  next
    case 3
    then show ?thesis using ten [of "ucast (shd ?a)" ?s] by (auto simp: defs)
  next
    case 4
    then show ?thesis
      using sixteen [of "ucast (shd ?a) OR push_bit 32 (ucast (shd (stl ?a)))" "s\<lparr>lv_out := lv_out s @ serial (map of_char ''0x''), lv_args := stl (stl ?a)\<rparr>"]
      by (auto simp: defs)
  next
    case 5
    then show ?thesis using sixteen [of "ucast (shd ?a) OR push_bit 32 (ucast (shd (stl ?a)))" ?t] by (auto simp: defs)
  next
    case 6
    then have "cstr (lv_mem s) (shd ?a) (loader_text m (shd ?a))" using lagrees_string_outside [OF m str] by simp
    then show ?thesis using 6 by (auto simp: defs lv_puts_def loader_puts_cstr)
  next
    case 7
    then show ?thesis by (auto simp: defs)
  qed
qed

lemma lv_step_piece:
  assumes p: "lpiece_ok p" and m: "lagrees buf m (lv_mem s)" and l: "lies (lv_mem s) (lv_fmt s) (lencode p)"
    and str: "lstrings_outside m (region buf bufferSize) (lv_args s) (p # ps)"
  shows "\<exists>s' t. lv_step buf s = Some s' \<and> lv_fmt s' = lv_fmt s + of_nat (length (lencode p)) \<and>
    lv_out s' = lv_out s @ serial t \<and> lrender m (lv_args s) (p # ps) = t @ lrender m (lv_args s') ps \<and>
    lagrees buf m (lv_mem s') \<and> lstrings_outside m (region buf bufferSize) (lv_args s') ps"
proof (cases p)
  case (LLit c)
  let ?s = "s\<lparr>lv_out := lv_out s @ [(0x3F8, c)], lv_fmt := lv_fmt s + 1\<rparr>"
  have "lv_step buf s = Some ?s" using l p LLit by (simp add: lv_step_def)
  then show ?thesis using m str LLit by (intro exI [of _ ?s] exI [of _ "[c]"]) simp
next
  case (LConv c)
  let ?s = "s\<lparr>lv_fmt := lv_fmt s + 1\<rparr>"
  obtain s' where s': "lv_conversion buf c ?s = Some s'" "lv_args s' = lconv_rest c (lv_args s)" "lv_fmt s' = lv_fmt s + 1"
    "lv_out s' = lv_out s @ serial (lconv_text m (lv_args s) c)" "lagrees buf (lv_mem s) (lv_mem s')"
    using lv_conversion_run [of buf m ?s c] m str LConv by auto
  then have "lv_step buf s = Some (s'\<lparr>lv_fmt := lv_fmt s' + 1\<rparr>)"
    using l LConv by (simp add: lv_step_def)
  then show ?thesis using s' str lagrees_trans [OF m s'(5)] LConv
    by (intro exI [of _ "s'\<lparr>lv_fmt := lv_fmt s' + 1\<rparr>"] exI [of _ "lconv_text m (lv_args s) c"]) simp
qed

section \<open>vprintf\<close>

lemma lencode_nonempty: "lpiece_ok p \<Longrightarrow> lencode p \<noteq> [] \<and> 0 \<notin> set (lencode p)"
  by (cases p) auto

lemma lcstr_append:
  "cstr m p (cs @ ds) \<longleftrightarrow> 0 \<notin> set cs \<and> lies m p cs \<and> cstr m (p + of_nat (length cs)) ds"
  for m :: "32 mem"
  by (induction cs arbitrary: p) (auto simp: add.assoc)

lemma lv_loop_run:
  assumes "\<forall>p \<in> set ps. lpiece_ok p" and "lagrees buf m (lv_mem s)"
    and "cstr m (lv_fmt s) (concat (map lencode ps))"
    and "region (lv_fmt s) (Suc (length (concat (map lencode ps)))) \<inter> region buf bufferSize = {}"
    and "lstrings_outside m (region buf bufferSize) (lv_args s) ps"
  shows "\<exists>s'. lv_loop buf s = Some s' \<and> lagrees buf m (lv_mem s') \<and>
    lv_out s' = lv_out s @ serial (lrender m (lv_args s) ps)"
  using assms
proof (induction ps arbitrary: s)
  case Nil
  then have "lv_mem s (lv_fmt s) = 0" using lagrees_cstr [of buf m "lv_mem s" "lv_fmt s" "[]"] by simp
  then show ?case using Nil by (simp add: lv_loop.simps)
next
  case (Cons p ps)
  let ?rest = "concat (map lencode ps)"
  have c: "cstr (lv_mem s) (lv_fmt s) (lencode p @ ?rest)" using lagrees_cstr [OF Cons.prems(2)] Cons.prems(3,4) by simp
  have e: "lencode p \<noteq> []" "0 \<notin> set (lencode p)" using lencode_nonempty Cons.prems(1) by auto
  have "lv_mem s (lv_fmt s) \<noteq> 0" using c e by (cases "lencode p") auto
  moreover obtain s' t where s': "lv_step buf s = Some s'" "lv_fmt s' = lv_fmt s + of_nat (length (lencode p))"
      "lv_out s' = lv_out s @ serial t" "lrender m (lv_args s) (p # ps) = t @ lrender m (lv_args s') ps"
      "lagrees buf m (lv_mem s')" "lstrings_outside m (region buf bufferSize) (lv_args s') ps"
    using lv_step_piece [of p buf m s ps] Cons.prems c by (auto simp: lcstr_append)
  have "unat (lv_fmt s' - lv_fmt s) + Suc (length ?rest) \<le> Suc (length (concat (map lencode (p # ps))))"
    using s'(2) by (simp add: unat_of_nat)
  then have "region (lv_fmt s') (Suc (length ?rest)) \<inter> region buf bufferSize = {}"
    using Cons.prems(4) region_sub by blast
  then obtain s'' where "lv_loop buf s' = Some s''" "lagrees buf m (lv_mem s'')"
      "lv_out s'' = lv_out s' @ serial (lrender m (lv_args s') ps)"
    using Cons.IH [OF _ s'(5) _ _ s'(6)] Cons.prems(1,3) s'(2) by (auto simp: lcstr_append)
  ultimately show ?case using s' by (simp add: lv_loop.simps [of buf s])
qed

lemma loader_vprintf_run:
  assumes "\<forall>p \<in> set ps. lpiece_ok p" and "cstr m f (concat (map lencode ps))"
    and "region f (Suc (length (concat (map lencode ps)))) \<inter> region buf bufferSize = {}"
    and "lstrings_outside m (region buf bufferSize) args ps"
  shows "\<exists>m'. loader_vprintf buf m out f args = Some (m', out @ serial (lrender m args ps)) \<and> lagrees buf m m'"
proof -
  let ?s = "\<lparr>lv_mem = m, lv_out = out, lv_fmt = f, lv_args = args\<rparr>"
  from lv_loop_run [of ps buf m ?s] assms obtain s' where
    "lv_loop buf ?s = Some s'" "lagrees buf m (lv_mem s')" "lv_out s' = out @ serial (lrender m args ps)" by auto
  then show ?thesis by (auto simp: loader_vprintf_def)
qed

text \<open>
  C40. The loader's \<open>vprintf\<close>, with the format and the strings it prints outside its buffer, returns
  on every format in which a character follows each percent sign, writes to memory nothing but the
  buffer and prints the pieces in order, each conversion its next argument: one slot for 32 bits
  and strings, two for 64 bits.
\<close>

theorem loader_vprintf_renders:
  assumes "\<forall>p \<in> set ps. lpiece_ok p" and "cstr m f (concat (map lencode ps))"
    and "region f (Suc (length (concat (map lencode ps)))) \<inter> region buf bufferSize = {}"
    and "lstrings_outside m (region buf bufferSize) args ps"
  shows "\<exists>m'. loader_vprintf buf m out f args = Some (m', out @ serial (lrender m args ps)) \<and>
    (\<forall>x. x \<notin> region buf bufferSize \<longrightarrow> m' x = m x)"
  using loader_vprintf_run [OF assms] by (simp add: lagrees_def)

lemma loader_bytes_apart:
  "unat p + k \<le> 0x1000 \<Longrightarrow> region p k \<inter> region (0x1000 :: u32) bufferSize = {}"
  by (cases "k = 0") (simp, intro region_disjoint_nat, simp_all add: bufferSize_def)

theorem loader_vprintf_renders_witness:
  "\<exists>m'. loader_vprintf 0x1000 ((\<lambda>_. 0)(0x100 := ch CHR ''%'', 0x101 := ch CHR ''A'')) [] 0x100 (0xB ## 0xA ## sconst 0) =
    Some (m', serial (map of_char ''0xa0000000b''))"
proof -
  let ?m = "(\<lambda>_. 0)(0x100 := ch CHR ''%'', 0x101 := ch CHR ''A'') :: 32 mem"
  have n: "number 16 (pair_value (0xB ## 0xA ## sconst 0)) = map of_char ''a0000000b''"
    by (simp add: pair_value_def number_def ldigits.simps chars_def)
  have d: "region (0x100 :: u32) (Suc (length (concat (map lencode [LConv (ch CHR ''A'')])))) \<inter> region 0x1000 bufferSize = {}"
    by (rule loader_bytes_apart) simp
  have "\<exists>m'. loader_vprintf 0x1000 ?m [] 0x100 (0xB ## 0xA ## sconst 0) =
      Some (m', [] @ serial (lrender ?m (0xB ## 0xA ## sconst 0) [LConv (ch CHR ''A'')])) \<and>
      (\<forall>x. x \<notin> region 0x1000 bufferSize \<longrightarrow> m' x = ?m x)"
    by (rule loader_vprintf_renders [OF _ _ d]) (simp_all add: lconv_rest_def)
  moreover have "lrender ?m (0xB ## 0xA ## sconst 0) [LConv (ch CHR ''A'')] = map of_char ''0xa0000000b''"
    by (simp add: lconv_text_def n)
  ultimately show ?thesis by auto
qed

section \<open>Both copies\<close>

text \<open>
  The pieces both know: characters, decimal, hexadecimal, string and address conversions without
  flag and width, and the conversions neither knows.
\<close>

datatype common = CLit u8 | CDec | CHex | CStr | CAddr | COther u8

primrec kernel_piece :: "common \<Rightarrow> piece" where
  "kernel_piece (CLit c) = Lit c"
| "kernel_piece CDec = Conv None [] Dec"
| "kernel_piece CHex = Conv None [] Hex"
| "kernel_piece CStr = Conv None [] Str"
| "kernel_piece CAddr = Conv None [] Addr"
| "kernel_piece (COther c) = Conv None [] (Other c)"

primrec loader_piece :: "common \<Rightarrow> lpiece" where
  "loader_piece (CLit c) = LLit c"
| "loader_piece CDec = LConv (ch CHR ''d'')"
| "loader_piece CHex = LConv (ch CHR ''x'')"
| "loader_piece CStr = LConv (ch CHR ''s'')"
| "loader_piece CAddr = LConv (ch CHR ''a'')"
| "loader_piece (COther c) = LConv c"

primrec common_ok :: "common \<Rightarrow> bool" where
  "common_ok (CLit c) \<longleftrightarrow> c \<noteq> 0 \<and> c \<noteq> ch CHR ''%''"
| "common_ok CDec = True" | "common_ok CHex = True" | "common_ok CStr = True" | "common_ok CAddr = True"
| "common_ok (COther c) \<longleftrightarrow> c \<notin> set (0 # map of_char ''sdxual AX'') \<and> \<not> digit c"

lemma common_pieces_ok: "common_ok p \<Longrightarrow> piece_ok (kernel_piece p) \<and> lpiece_ok (loader_piece p)"
  by (cases p) auto

text \<open>The arguments agree: the same 32-bit numbers, the same strings.\<close>

fun same_arguments :: "64 mem \<Rightarrow> 32 mem \<Rightarrow> u64 stream \<Rightarrow> u32 stream \<Rightarrow> common list \<Rightarrow> bool" where
  "same_arguments M m a b [] \<longleftrightarrow> True"
| "same_arguments M m a b (CLit c # ps) \<longleftrightarrow> same_arguments M m a b ps"
| "same_arguments M m a b (COther c # ps) \<longleftrightarrow> same_arguments M m a b ps"
| "same_arguments M m a b (CDec # ps) \<longleftrightarrow> ucast (shd a) = shd b \<and> same_arguments M m (stl a) (stl b) ps"
| "same_arguments M m a b (CHex # ps) \<longleftrightarrow> ucast (shd a) = shd b \<and> same_arguments M m (stl a) (stl b) ps"
| "same_arguments M m a b (CAddr # ps) \<longleftrightarrow> ucast (shd a) = shd b \<and> same_arguments M m (stl a) (stl b) ps"
| "same_arguments M m a b (CStr # ps) \<longleftrightarrow> c_text M (shd a) = loader_text m (shd b) \<and> same_arguments M m (stl a) (stl b) ps"

definition format :: "common list \<Rightarrow> u8 list" where
  "format ps = concat (map (\<lambda>p. lencode (loader_piece p)) ps)"

lemma format_encodings:
  "concat (map encode (map kernel_piece ps)) = format ps" "concat (map lencode (map loader_piece ps)) = format ps"
proof -
  have "encode (kernel_piece p) = lencode (loader_piece p)" for p by (cases p) simp_all
  then show "concat (map encode (map kernel_piece ps)) = format ps" by (simp add: format_def o_def)
  show "concat (map lencode (map loader_piece ps)) = format ps" by (simp add: format_def o_def)
qed

text \<open>
  What each piece prints in the loader, and what the kernel prints for it: the same, but an address
  with its digits filled up to eight by zeros behind the \<open>0x\<close>.
\<close>

fun piece_texts :: "32 mem \<Rightarrow> u32 stream \<Rightarrow> common list \<Rightarrow> u8 list list" where
  "piece_texts m b [] = []"
| "piece_texts m b (CLit c # ps) = [c] # piece_texts m b ps"
| "piece_texts m b (CDec # ps) = lconv_text m b (ch CHR ''d'') # piece_texts m (stl b) ps"
| "piece_texts m b (CHex # ps) = lconv_text m b (ch CHR ''x'') # piece_texts m (stl b) ps"
| "piece_texts m b (CStr # ps) = lconv_text m b (ch CHR ''s'') # piece_texts m (stl b) ps"
| "piece_texts m b (CAddr # ps) = lconv_text m b (ch CHR ''a'') # piece_texts m (stl b) ps"
| "piece_texts m b (COther c # ps) = [ch CHR ''%'', c] # piece_texts m b ps"

definition fill_address :: "common \<Rightarrow> u8 list \<Rightarrow> u8 list" where
  "fill_address p t = (if p = CAddr then take 2 t @ replicate (10 - length t) (ch CHR ''0'') @ drop 2 t else t)"

lemma length_piece_texts: "length (piece_texts m b ps) = length ps"
  by (induction m b ps rule: piece_texts.induct) simp_all

lemma loader_piece_texts:
  "\<forall>p\<in>set ps. common_ok p \<Longrightarrow> lrender m b (map loader_piece ps) = concat (piece_texts m b ps)"
  by (induction m b ps rule: piece_texts.induct) (auto simp: lconv_rest_def lconv_text_def)

lemma kernel_piece_texts:
  "same_arguments M m a b ps \<Longrightarrow>
   render M c 0 a (map kernel_piece ps) = concat (map2 fill_address ps (piece_texts m b ps))"
  by (induction M m a b ps rule: same_arguments.induct)
    (simp_all add: widen_def padded_def rest_arguments_def lconv_text_def flag_char_def fill_address_def)

text \<open>
  C39. On a format of the pieces both know, with the same arguments, the kernel's and the loader's
  \<open>vprintf\<close> both return, and send the same bytes for every piece but \<open>%a\<close>: the kernel fills its
  digits up to eight with zeros, the loader does not.  Without a \<open>%a\<close> the outputs are the same.
\<close>

theorem printf_copies_agree:
  assumes "\<forall>p\<in>set ps. common_ok p"
    and "cstr M f (format ps)" and "region f (Suc (length (format ps))) \<inter> region buf bufferSize = {}"
    and "cstr m g (format ps)" and "region g (Suc (length (format ps))) \<inter> region lbuf bufferSize = {}"
    and "strings_outside M (region buf bufferSize) a (map kernel_piece ps)"
    and "lstrings_outside m (region lbuf bufferSize) b (map loader_piece ps)"
    and "same_arguments M m a b ps"
  shows "\<exists>M' m'. vprintf buf M out f a =
      Some (M', out @ serial (concat (map2 fill_address ps (piece_texts m b ps)))) \<and>
    loader_vprintf lbuf m out g b = Some (m', out @ serial (concat (piece_texts m b ps))) \<and>
    (CAddr \<notin> set ps \<longrightarrow> map2 fill_address ps (piece_texts m b ps) = piece_texts m b ps)"
proof -
  have k: "\<forall>p \<in> set (map kernel_piece ps). piece_ok p" "\<forall>p \<in> set (map loader_piece ps). lpiece_ok p"
    using assms(1) common_pieces_ok by auto
  have "map2 fill_address ps ts = ts" if "length ts = length ps" "CAddr \<notin> set ps" for ts
    using that by (induction ps ts rule: list_induct2') (auto simp: fill_address_def)
  then have "CAddr \<notin> set ps \<longrightarrow> map2 fill_address ps (piece_texts m b ps) = piece_texts m b ps"
    by (simp add: length_piece_texts)
  moreover have "\<exists>M'. vprintf buf M out f a = Some (M', out @ serial (concat (map2 fill_address ps (piece_texts m b ps))))"
    using vprintf_run [OF k(1), of M f buf a out] assms(2,3,6) kernel_piece_texts [OF assms(8), of "0xFF"]
    unfolding format_encodings by auto
  moreover have "\<exists>m'. loader_vprintf lbuf m out g b = Some (m', out @ serial (concat (piece_texts m b ps)))"
    using loader_vprintf_run [OF k(2), of m g lbuf b out] assms(4,5,7) loader_piece_texts [OF assms(1), of m b]
    unfolding format_encodings by auto
  ultimately show ?thesis by blast
qed

text \<open>The address 57 is 0x00000039 to the kernel and 0x39 to the loader.\<close>

theorem printf_copies_agree_witness:
  "\<exists>M' m'. vprintf 0x1000 ((\<lambda>_. 0)(0x100 := ch CHR ''%'', 0x101 := ch CHR ''a'')) [] 0x100 (57 ## sconst 0) =
       Some (M', serial (map of_char ''0x00000039'')) \<and>
     loader_vprintf 0x1000 ((\<lambda>_. 0)(0x200 := ch CHR ''%'', 0x201 := ch CHR ''a'')) [] 0x200 (57 ## sconst 0) =
       Some (m', serial (map of_char ''0x39''))"
proof -
  let ?ps = "[CAddr]" and ?M = "(\<lambda>_. 0)(0x100 := ch CHR ''%'', 0x101 := ch CHR ''a'') :: 64 mem"
  let ?m = "(\<lambda>_. 0)(0x200 := ch CHR ''%'', 0x201 := ch CHR ''a'') :: 32 mem" and ?b = "57 ## sconst 0 :: u32 stream"
  have "number 16 57 = map of_char ''39''" by code_simp
  then have t: "piece_texts ?m ?b ?ps = [map of_char ''0x39'']" by (simp add: lconv_text_def)
  have "region (0x100 :: u64) (Suc (length (format ?ps))) \<inter> region 0x1000 bufferSize = {}"
    by (rule region_disjoint_nat) (simp_all add: format_def bufferSize_def)
  moreover have "region (0x200 :: u32) (Suc (length (format ?ps))) \<inter> region 0x1000 bufferSize = {}"
    by (rule loader_bytes_apart) (simp add: format_def)
  ultimately have "\<exists>M' m'. vprintf 0x1000 ?M [] 0x100 (57 ## sconst 0) =
        Some (M', [] @ serial (concat (map2 fill_address ?ps (piece_texts ?m ?b ?ps)))) \<and>
      loader_vprintf 0x1000 ?m [] 0x200 ?b = Some (m', [] @ serial (concat (piece_texts ?m ?b ?ps))) \<and>
      (CAddr \<notin> set ?ps \<longrightarrow> map2 fill_address ?ps (piece_texts ?m ?b ?ps) = piece_texts ?m ?b ?ps)"
    by (intro printf_copies_agree) (simp_all add: format_def lconv_rest_def rest_arguments_def)
  moreover have "fill_address CAddr (map of_char ''0x39'') = map of_char ''0x00000039''"
    by (simp add: fill_address_def eval_nat_numeral)
  ultimately show ?thesis unfolding t by auto
qed

end
