(* ===== verification/LoaderPaging.thy ===== *)
theory LoaderPaging
  imports Strings
begin

text \<open>
  The loader's paging, loader/mem: the pages of the paging range and their bit field (pm.cpp,
  pm.hpp), the three-level PAE tables the loader itself runs on (pmpae.cpp) and the four-level
  tables it builds for the kernel (pm64.cpp).  The state holds the 32-bit physical memory, the
  static variables of pm.cpp and the control registers the assembly routines set.  The tables and
  the bit field lie where the loader maps every address to itself, so they are read and written
  at their physical addresses; \<open>translate\<close> is what the processor does to every other access.
\<close>

unbundle bit_operations_syntax

section \<open>std.hpp\<close>

definition loader_alignUp :: "u32 \<Rightarrow> u32 \<Rightarrow> u32" where
  "loader_alignUp v bound = (v + (bound - 1)) AND - bound"

text \<open>\<open>const_range\<close> with its two template arguments.\<close>

definition const_range_contains :: "u32 \<Rightarrow> u32 \<Rightarrow> u32 \<Rightarrow> bool" where
  "const_range_contains start e v \<longleftrightarrow> v \<ge> start \<and> v \<le> e"

definition const_range_length :: "u32 \<Rightarrow> u32 \<Rightarrow> u32" where
  "const_range_length start e = e - start"

section \<open>pm.cpp\<close>

record loader =
  lmem :: "32 mem"
  dataTracker :: u32
  current_vaddr :: u32
  cr3 :: u32
  cr0_pg :: bool
  cr4_pae :: bool

definition paging_start :: u32 where "paging_start = 0x100000"
definition paging_end :: u32 where "paging_end = 0x200000"

definition in_paging_region :: "u32 \<Rightarrow> bool" where
  "in_paging_region v \<longleftrightarrow> const_range_contains paging_start paging_end v"

definition lat32 :: "loader \<Rightarrow> u32 \<Rightarrow> u32 \<Rightarrow> u32" where "lat32 s p i = ld32 (lmem s) (p + 4 * i)"
definition lput32 :: "loader \<Rightarrow> u32 \<Rightarrow> u32 \<Rightarrow> u32 \<Rightarrow> loader" where
  "lput32 s p i v = s\<lparr>lmem := st32 (lmem s) (p + 4 * i) v\<rparr>"

definition lat64 :: "loader \<Rightarrow> u32 \<Rightarrow> u32 \<Rightarrow> u64" where "lat64 s p i = ld64 (lmem s) (p + 8 * i)"
definition lput64 :: "loader \<Rightarrow> u32 \<Rightarrow> u32 \<Rightarrow> u64 \<Rightarrow> loader" where
  "lput64 s p i v = s\<lparr>lmem := st64 (lmem s) (p + 8 * i) v\<rparr>"

definition tracker_index :: "u32 \<Rightarrow> u32" where "tracker_index addr = drop_bit 17 (addr - paging_start)"
definition tracker_bit :: "u32 \<Rightarrow> u32" where
  "tracker_bit addr = push_bit (unat (drop_bit 12 (addr - paging_start) AND 0x1F)) 1"

definition loader_isFree :: "loader \<Rightarrow> u32 \<Rightarrow> bool run" where
  "loader_isFree s addr =
     assertR (in_paging_region addr) ''paging_region.contains(addr)''
     (assertR (addr AND 0xFFF = 0) ''!(addr & 0xFFF)''
     (ret (lat32 s (dataTracker s) (tracker_index addr) AND tracker_bit addr = 0)))"

definition loader_setAlloc :: "loader \<Rightarrow> u32 \<Rightarrow> loader" where
  "loader_setAlloc s addr =
     lput32 s (dataTracker s) (tracker_index addr)
       (lat32 s (dataTracker s) (tracker_index addr) OR tracker_bit addr)"

partial_function (option) loader_alloc_loop :: "loader \<Rightarrow> u32 \<Rightarrow> (u32 \<times> loader) run" where
  "loader_alloc_loop s addr =
     (if addr < paging_end then
        bindR (loader_isFree s addr) (\<lambda>free.
          if free then
            let s1 = loader_setAlloc s addr in
            ret (addr, s1\<lparr>lmem := loader_memset (lmem s1) addr 0 0x1000\<rparr>)
          else loader_alloc_loop s (addr + 0x1000))
      else ret (0xFFFFFFFF, s))"

definition loader_alloc :: "loader \<Rightarrow> (u32 \<times> loader) run" where
  "loader_alloc s = loader_alloc_loop s paging_start"

definition trackingPtr :: "loader \<Rightarrow> u32" where "trackingPtr s = dataTracker s"

text \<open>\<open>pm::set\<close>: \<open>pm_load\<close> writes CR3.\<close>

definition pm_set :: "loader \<Rightarrow> u32 \<Rightarrow> loader run" where
  "pm_set s p =
     assertR (in_paging_region p) ''paging_region.contains(addr)''
     (ret (s\<lparr>current_vaddr := p, cr3 := p\<rparr>))"

definition pm_current_tables :: "loader \<Rightarrow> u32" where "pm_current_tables s = current_vaddr s"

section \<open>pmpae.cpp\<close>

definition pae_init :: "loader \<Rightarrow> u32 \<Rightarrow> loader" where
  "pae_init s this = s\<lparr>lmem := loader_memset (lmem s) this 0 (4 * 8)\<rparr>"

definition pae_apply :: "loader \<Rightarrow> u32 \<Rightarrow> loader run" where "pae_apply s this = pm_set s this"

definition pae_pdpti :: "u64 \<Rightarrow> u32" where "pae_pdpti vaddr = ucast (drop_bit 34 vaddr)"
definition pae_pdi :: "u64 \<Rightarrow> u32" where "pae_pdi vaddr = ucast (drop_bit 21 vaddr AND 0x1FF)"

definition table_ptr :: "u64 \<Rightarrow> u32" where "table_ptr e = ucast (e AND 0xFFFFF000)"

definition pae_map :: "loader \<Rightarrow> u32 \<Rightarrow> u64 \<Rightarrow> u64 \<Rightarrow> u32 \<Rightarrow> loader run" where
  "pae_map s this vaddr paddr flags =
     (let pdpti = pae_pdpti vaddr; pdi = pae_pdi vaddr in
      if lat64 s this pdpti AND 1 \<noteq> 0 then
        let pd = table_ptr (lat64 s this pdpti) in
        ret (lput64 s pd pdi (paddr OR ucast flags OR 0x81))
      else
        bindR (loader_alloc s) (\<lambda>(addr, s1).
        assertR (addr \<noteq> 0xFFFFFFFF) ''addr != 0xFFFFFFFF''
        (let s2 = lput64 s1 addr pdi (paddr OR ucast flags OR 0x81) in
         ret (lput64 s2 this pdpti (scast addr OR 1)))))"

definition pae_unmap :: "loader \<Rightarrow> u32 \<Rightarrow> u64 \<Rightarrow> loader" where
  "pae_unmap s this vaddr =
     (let pdpti = pae_pdpti vaddr; pdi = pae_pdi vaddr in
      if lat64 s this pdpti AND 1 \<noteq> 0 then lput64 s (table_ptr (lat64 s this pdpti)) pdi 0 else s)"

section \<open>pm64.cpp\<close>

definition pm64_init :: "loader \<Rightarrow> u32 \<Rightarrow> loader" where
  "pm64_init s this = s\<lparr>lmem := loader_memset (lmem s) this 0 (512 * 8)\<rparr>"

definition pm64_apply :: "loader \<Rightarrow> u32 \<Rightarrow> loader run" where "pm64_apply s this = pm_set s this"

declare pae_apply_def [simp] pm64_apply_def [simp]

definition pm64_map :: "loader \<Rightarrow> u32 \<Rightarrow> u64 \<Rightarrow> u64 \<Rightarrow> u32 \<Rightarrow> loader run" where
  "pm64_map s this vaddr paddr flags =
     (let pml4i = ucast (drop_bit 39 vaddr); pdpi = ucast (drop_bit 30 vaddr AND 0x1FF);
          pdi = ucast (drop_bit 21 vaddr AND 0x1FF); e = paddr OR ucast (flags OR 0x81) in
      if lat64 s this pml4i AND 1 \<noteq> 0 then
        let pdp = table_ptr (lat64 s this pml4i) in
        if (ucast (lat64 s pdp pdpi) :: u32) AND 1 \<noteq> 0 then
          let pd = table_ptr (lat64 s pdp pdpi) in ret (lput64 s pd pdi e)
        else
          bindR (loader_alloc s) (\<lambda>(pdaddr, s1).
          assertR (pdaddr \<noteq> 0xFFFFFFFF) ''pdaddr != 0xFFFFFFFF''
          (let s2 = lput64 s1 pdaddr pdi e in ret (lput64 s2 pdp pdpi (ucast (pdaddr OR 1)))))
      else
        bindR (loader_alloc s) (\<lambda>(pdp, s1).
        assertR (pdp \<noteq> 0xFFFFFFFF) ''pdp_addr != 0xFFFFFFFF''
        (bindR (loader_alloc s1) (\<lambda>(pdaddr, s2).
         assertR (pdaddr \<noteq> 0xFFFFFFFF) ''pdaddr != 0xFFFFFFFF''
         (let s3 = s2\<lparr>lmem := loader_memset (lmem s2) pdp 0 0x1000\<rparr>;
              s4 = s3\<lparr>lmem := loader_memset (lmem s3) pdaddr 0 0x1000\<rparr>;
              s5 = lput64 s4 pdaddr pdi e;
              s6 = lput64 s5 pdp pdpi (ucast (pdaddr OR 1)) in
          ret (lput64 s6 this pml4i (ucast (pdp OR 1))))))))"

text \<open>\<open>while (true);\<close>\<close>

definition pm64_unmap :: "loader \<Rightarrow> u32 \<Rightarrow> u64 \<Rightarrow> loader run" where
  "pm64_unmap s this vaddr = None"

section \<open>The processor\<close>

text \<open>
  Address translation with the PAE tables at CR3, 2 MiB pages only (the loader sets the page-size
  bit in every entry, and never turns paging on without PAE).  \<open>None\<close> is a page fault; no
  interrupt table is loaded, so it ends the run.
\<close>

definition translate :: "loader \<Rightarrow> u32 \<Rightarrow> u32 option" where
  "translate s va =
     (if \<not> cr0_pg s then Some va
      else if \<not> cr4_pae s then None
      else
        let e = lat64 s (cr3 s) (drop_bit 30 va) in
        if e AND 1 = 0 then None
        else
          let d = lat64 s (table_ptr e) (drop_bit 21 va AND 0x1FF) in
          if d AND 0x81 = 0x81 then Some ((ucast d AND 0xFFE00000) OR (va AND 0x1FFFFF)) else None)"

definition view :: "loader \<Rightarrow> 32 mem" where
  "view s va = (case translate s va of None \<Rightarrow> 0 | Some pa \<Rightarrow> lmem s pa)"

definition accessible :: "loader \<Rightarrow> u32 \<Rightarrow> nat \<Rightarrow> bool" where
  "accessible s va n \<longleftrightarrow> list_all (\<lambda>i. translate s (va + of_nat i) \<noteq> None) [0..<n]"

text \<open>The bytes an access needs are mapped, or it faults.\<close>

definition reads :: "loader \<Rightarrow> u32 \<Rightarrow> nat \<Rightarrow> 'a run \<Rightarrow> 'a run" where
  "reads s va n k = (if accessible s va n then k else halt PageFault)"

lemma reads_mono [partial_function_mono]: "mono_option K \<Longrightarrow> mono_option (\<lambda>f. reads s va n (K f))"
  unfolding reads_def by (cases "accessible s va n") (auto intro: option.const_mono)

text \<open>\<open>strlen\<close> through the tables; \<open>None\<close>: no zero byte and no unmapped page ever ends the loop.\<close>

partial_function (option) strlen_mapped :: "loader \<Rightarrow> u32 \<Rightarrow> u32 \<Rightarrow> u32 run" where
  "strlen_mapped s p l = reads s p 1 (if view s p \<noteq> 0 then strlen_mapped s (p + 1) (l + 1) else ret l)"

text \<open>\<open>memcpy\<close> through the tables, byte by byte.\<close>

function copy_mapped :: "loader \<Rightarrow> u32 \<Rightarrow> u32 \<Rightarrow> u32 \<Rightarrow> u32 \<Rightarrow> loader run" where
  "copy_mapped s dst src count i =
     (if i < count then
        case (translate s (src + i), translate s (dst + i)) of
          (Some p, Some q) \<Rightarrow> copy_mapped (s\<lparr>lmem := (lmem s)(q := lmem s p)\<rparr>) dst src count (i + 1)
        | _ \<Rightarrow> halt PageFault
      else ret s)"
  by pat_completeness auto
termination
  by (relation "measure (\<lambda>(s, dst, src, count, i). unat count - unat i)") (simp_all add: loop_measure)

declare copy_mapped.simps [simp del]

end
