(* ===== verification/Loader.thy ===== *)
theory Loader
  imports LoaderPaging KernelBoot
begin

text \<open>
  The loader, loader/loader.cpp: where the kernel goes (\<open>calculateLoadAddr\<close>), loading the ELF
  file (\<open>load_elf\<close> with the class of sys/elf.hpp and elf64.cpp over the structs of sys/elf.h),
  the hand-over record and \<open>loader_main\<close>.  The multiboot structs are those of boot/multiboot.h.
  Trace lines are left out, but not the \<open>strlen\<close> that guards one: it reads memory that need not be
  mapped, so it can fault.
\<close>

unbundle bit_operations_syntax

section \<open>sys/elf.h\<close>

definition PT_LOAD :: u32 where "PT_LOAD = 1"
definition EI_CLASS :: nat where "EI_CLASS = 4"
definition ELFCLASS64 :: u8 where "ELFCLASS64 = 2"
definition SHN_UNDEF :: u16 where "SHN_UNDEF = 0"

text \<open>\<open>"\177ELF"\<close>, and the number of its characters.\<close>

definition ELFMAG :: "u8 list" where "ELFMAG = [0x7F, ch CHR ''E'', ch CHR ''L'', ch CHR ''F'']"

record Elf64_Ehdr =
  e_ident :: "u8 list"
  e_type :: u16
  e_machine :: u16
  e_version :: u32
  e_entry :: u64
  e_phoff :: u64
  e_shoff :: u64
  e_flags :: u32
  e_ehsize :: u16
  e_phentsize :: u16
  e_phnum :: u16
  e_shentsize :: u16
  e_shnum :: u16
  e_shstrndx :: u16

definition read_Ehdr :: "32 mem \<Rightarrow> u32 \<Rightarrow> Elf64_Ehdr" where
  "read_Ehdr m p =
     \<lparr>e_ident = bytes_at m p 16, e_type = ld16 m (p + 16), e_machine = ld16 m (p + 18), e_version = ld32 m (p + 20),
      e_entry = ld64 m (p + 24), e_phoff = ld64 m (p + 32), e_shoff = ld64 m (p + 40), e_flags = ld32 m (p + 48),
      e_ehsize = ld16 m (p + 52), e_phentsize = ld16 m (p + 54), e_phnum = ld16 m (p + 56),
      e_shentsize = ld16 m (p + 58), e_shnum = ld16 m (p + 60), e_shstrndx = ld16 m (p + 62)\<rparr>"

record Elf64_Phdr =
  p_type :: u32
  p_flags :: u32
  p_offset :: u64
  p_vaddr :: u64
  p_paddr :: u64
  p_filesz :: u64
  p_memsz :: u64
  p_align :: u64

definition read_Phdr :: "32 mem \<Rightarrow> u32 \<Rightarrow> Elf64_Phdr" where
  "read_Phdr m p =
     \<lparr>p_type = ld32 m p, p_flags = ld32 m (p + 4), p_offset = ld64 m (p + 8), p_vaddr = ld64 m (p + 16),
      p_paddr = ld64 m (p + 24), p_filesz = ld64 m (p + 32), p_memsz = ld64 m (p + 40), p_align = ld64 m (p + 48)\<rparr>"

record Elf64_Shdr =
  sh_name :: u32
  sh_type :: u32
  sh_flags :: u64
  sh_addr :: u64
  sh_offset :: u64
  sh_size :: u64
  sh_link :: u32
  sh_info :: u32
  sh_addralign :: u64
  sh_entsize :: u64

definition read_Shdr :: "32 mem \<Rightarrow> u32 \<Rightarrow> Elf64_Shdr" where
  "read_Shdr m p =
     \<lparr>sh_name = ld32 m p, sh_type = ld32 m (p + 4), sh_flags = ld64 m (p + 8), sh_addr = ld64 m (p + 16),
      sh_offset = ld64 m (p + 24), sh_size = ld64 m (p + 32), sh_link = ld32 m (p + 40), sh_info = ld32 m (p + 44),
      sh_addralign = ld64 m (p + 48), sh_entsize = ld64 m (p + 56)\<rparr>"

section \<open>elf::Elf64\<close>

text \<open>The object is the address \<open>this\<close> of the file's header; \<open>elfmag\<close> is where the literal is.\<close>

definition elf_isValid :: "32 mem \<Rightarrow> u32 \<Rightarrow> u32 \<Rightarrow> bool" where
  "elf_isValid m elfmag this \<longleftrightarrow> loader_strncmp m elfmag this 4 = 0"

definition elf_target :: "32 mem \<Rightarrow> u32 \<Rightarrow> u8" where
  "elf_target m this = e_ident (read_Ehdr m this) ! EI_CLASS"

definition elf_sectionCount :: "32 mem \<Rightarrow> u32 \<Rightarrow> u32" where
  "elf_sectionCount m this = ucast (e_shnum (read_Ehdr m this))"

definition elf_programCount :: "32 mem \<Rightarrow> u32 \<Rightarrow> u32" where
  "elf_programCount m this = ucast (e_phnum (read_Ehdr m this))"

definition elf_entry :: "32 mem \<Rightarrow> u32 \<Rightarrow> u64" where
  "elf_entry m this = e_entry (read_Ehdr m this)"

definition elf_sectionHeaders :: "32 mem \<Rightarrow> u32 \<Rightarrow> u32" where
  "elf_sectionHeaders m this = this + ucast (e_shoff (read_Ehdr m this))"

definition elf_programHeaders :: "32 mem \<Rightarrow> u32 \<Rightarrow> u32" where
  "elf_programHeaders m this = this + ucast (e_phoff (read_Ehdr m this))"

definition elf_section :: "32 mem \<Rightarrow> u32 \<Rightarrow> u32 \<Rightarrow> u32" where
  "elf_section m this idx = elf_sectionHeaders m this + 64 * idx"

definition elf_programHeader :: "32 mem \<Rightarrow> u32 \<Rightarrow> u32 \<Rightarrow> u32" where
  "elf_programHeader m this idx = elf_programHeaders m this + 56 * idx"

definition elf_strTable :: "32 mem \<Rightarrow> u32 \<Rightarrow> u32" where
  "elf_strTable m this =
     (let x = e_shstrndx (read_Ehdr m this) in
      if x = SHN_UNDEF then 0
      else this + ucast (sh_offset (read_Shdr m (elf_section m this (ucast x)))))"

definition elf_string :: "32 mem \<Rightarrow> u32 \<Rightarrow> u32 \<Rightarrow> u32" where
  "elf_string m this offset =
     (let strtab = elf_strTable m this in if strtab = 0 then 0 else strtab + offset)"

definition elf_data :: "u32 \<Rightarrow> u32" where "elf_data this = this"

section \<open>boot/multiboot.h\<close>

text \<open>\<open>multiboot_info\<close> with the names that are taken prefixed, the first union read as the ELF table, the
  last as its six bytes; and a module.\<close>

record multiboot_elf_section_header_table =
  elf_num :: u32
  elf_size :: u32
  elf_addr :: u32
  elf_shndx :: u32

definition read_elf_sec :: "32 mem \<Rightarrow> u32 \<Rightarrow> multiboot_elf_section_header_table" where
  "read_elf_sec m p =
     \<lparr>elf_num = ld32 m p, elf_size = ld32 m (p + 4), elf_addr = ld32 m (p + 8), elf_shndx = ld32 m (p + 12)\<rparr>"

record multiboot_info =
  mb_flags :: u32
  mem_lower :: u32
  mem_upper :: u32
  boot_device :: u32
  mb_cmdline :: u32
  mods_count :: u32
  mods_addr :: u32
  elf_sec :: multiboot_elf_section_header_table
  mmap_length :: u32
  mmap_addr :: u32
  drives_length :: u32
  drives_addr :: u32
  config_table :: u32
  boot_loader_name :: u32
  apm_table :: u32
  vbe_control_info :: u32
  vbe_mode_info :: u32
  vbe_mode :: u16
  vbe_interface_seg :: u16
  vbe_interface_off :: u16
  vbe_interface_len :: u16
  framebuffer_addr :: u64
  framebuffer_pitch :: u32
  framebuffer_width :: u32
  framebuffer_height :: u32
  framebuffer_bpp :: u8
  framebuffer_type :: u8
  framebuffer_colors :: "u8 list"

definition read_multiboot_info :: "32 mem \<Rightarrow> u32 \<Rightarrow> multiboot_info" where
  "read_multiboot_info m p =
     \<lparr>mb_flags = ld32 m p, mem_lower = ld32 m (p + 4), mem_upper = ld32 m (p + 8),
     boot_device = ld32 m (p + 12), mb_cmdline = ld32 m (p + 16), mods_count = ld32 m (p + 20),
     mods_addr = ld32 m (p + 24), elf_sec = read_elf_sec m (p + 28), mmap_length = ld32 m (p + 44),
     mmap_addr = ld32 m (p + 48), drives_length = ld32 m (p + 52), drives_addr = ld32 m (p + 56),
     config_table = ld32 m (p + 60), boot_loader_name = ld32 m (p + 64), apm_table = ld32 m (p + 68),
     vbe_control_info = ld32 m (p + 72), vbe_mode_info = ld32 m (p + 76), vbe_mode = ld16 m (p + 80),
     vbe_interface_seg = ld16 m (p + 82), vbe_interface_off = ld16 m (p + 84),
     vbe_interface_len = ld16 m (p + 86), framebuffer_addr = ld64 m (p + 88),
     framebuffer_pitch = ld32 m (p + 96), framebuffer_width = ld32 m (p + 100),
     framebuffer_height = ld32 m (p + 104), framebuffer_bpp = m (p + 108), framebuffer_type = m (p + 109),
     framebuffer_colors = map (\<lambda>i. m (p + 110 + of_nat i)) [0..<6]\<rparr>"

record multiboot_mod_list =
  mod_start :: u32
  mod_end :: u32
  cmdline :: u32
  pad :: u32

definition read_mod :: "32 mem \<Rightarrow> u32 \<Rightarrow> multiboot_mod_list" where
  "read_mod m p = \<lparr>mod_start = ld32 m p, mod_end = ld32 m (p + 4), cmdline = ld32 m (p + 8), pad = ld32 m (p + 12)\<rparr>"

section \<open>loader.cpp\<close>

text \<open>Addresses the linker fixes: of \<open>loader_data\<close>, of the literal, and the value of \<open>mb_info_ptr\<close>.\<close>

record link_map =
  loader_data :: u32
  elfmag :: u32
  mb_info_ptr :: u32

text \<open>\<open>operator new\<close> of sys/std.cpp with a fixed address, at which both kinds of tables are built.\<close>

definition new_at :: "u32 \<Rightarrow> u32 \<Rightarrow> u32" where "new_at a b = b"

declare new_at_def [simp]

definition root_page :: u32 where "root_page = new_at (4 * 8) 0x100000"

text \<open>One program header of the loop of \<open>load_elf\<close>; \<open>pdp\<close> is the loader's own PDPT.\<close>

definition load_segment :: "loader \<Rightarrow> u32 \<Rightarrow> u32 \<Rightarrow> u32 \<Rightarrow> Elf64_Phdr \<Rightarrow> loader run" where
  "load_segment s pdp loadAddr modStart ph =
     (if p_type ph = PT_LOAD then
        let paddr32 = ucast (p_paddr ph); size32 = ucast (p_filesz ph); off32 = ucast (p_offset ph);
            memsz32 = ucast (p_memsz ph); l = modStart + off32; paddrPage = paddr32 AND - 0x200000 in
        assertR (memsz32 \<le> (0x200000 :: u32)) ''memsz32 <= 0x200000''
        (if paddrPage \<ge> loadAddr then
           bindR (pae_map s pdp 0x400000 (ucast paddrPage) (push_bit 7 1)) (\<lambda>s1.
           bindR (pae_apply s1 pdp) (\<lambda>s2.
           bindR (copy_mapped s2 (paddr32 - paddrPage + 0x400000) l size32 0) (\<lambda>s3.
           pae_apply (pae_unmap s3 pdp 0x400000) pdp)))
         else halt (Panic ''Physical address is too low\<newline>''))
      else ret s)"

function load_segments :: "loader \<Rightarrow> u32 \<Rightarrow> u32 \<Rightarrow> u32 \<Rightarrow> u32 \<Rightarrow> u32 \<Rightarrow> loader run" where
  "load_segments s pdp loadAddr elf ns i =
     (if i < ns then
        reads s elf 64
        (let p = elf_programHeader (view s) elf i in
         reads s p 56
         (bindR (load_segment s pdp loadAddr elf (read_Phdr (view s) p))
            (\<lambda>s1. load_segments s1 pdp loadAddr elf ns (i + 1))))
      else ret s)"
  by pat_completeness auto
termination
  by (relation "measure (\<lambda>(s, pdp, loadAddr, elf, ns, i). unat ns - unat i)") (simp_all add: loop_measure)

declare load_segments.simps [simp del]

text \<open>The record for the kernel, its checksum last; \<open>loader_data\<close> is read and written in place.\<close>

definition fill_loader_data :: "loader \<Rightarrow> u32 \<Rightarrow> u32 \<Rightarrow> loader" where
  "fill_loader_data s ld mb =
     (let m = lmem s;
          m = st32 m ld LOADER_MAGIC;
          m = st32 m (ld + 4) paging_start;
          m = st32 m (ld + 8) (const_range_length paging_start paging_end);
          m = st32 m (ld + 12) (trackingPtr s);
          m = st32 m (ld + 16) mb;
          m = m(ld + 20 := 0);
          sum = byte_sum m ld sizeof_LoaderData AND 0xFF in
      s\<lparr>lmem := m(ld + 20 := ucast (- sum))\<rparr>)"

text \<open>The tables for the kernel; the result is the state \<open>long_enter\<close> is called in.\<close>

definition build_kernel_tables :: "loader \<Rightarrow> u32 \<Rightarrow> u64 \<Rightarrow> loader run" where
  "build_kernel_tables s loadAddr entry64 =
     (let s1 = pm64_init s root_page in
      bindR (pm64_map s1 root_page 0 0 (push_bit 7 1)) (\<lambda>s2.
      bindR (pm64_map s2 root_page 0x200000 0x200000 (push_bit 7 1)) (\<lambda>s3.
      bindR (pm64_map s3 root_page entry64 (ucast loadAddr) (push_bit 7 1)) (\<lambda>s4.
      pm64_apply s4 root_page))))"

definition load_elf :: "link_map \<Rightarrow> loader \<Rightarrow> u32 \<Rightarrow> u32 \<Rightarrow> u32 \<Rightarrow> u32 \<Rightarrow> (loader \<times> u64) run" where
  "load_elf lk s pdp loadAddr modStart modSize =
     reads s modStart 64
     (assertR (elf_isValid (view s) (elfmag lk) modStart) ''elf->isValid()''
     (assertR (elf_target (view s) modStart = ELFCLASS64) ''elf->target() == ELFCLASS64''
     (let ns = elf_programCount (view s) modStart; entry64 = elf_entry (view s) modStart in
      bindR (load_segments s pdp loadAddr modStart ns 0) (\<lambda>s1.
      bindR (build_kernel_tables (s1\<lparr>cr0_pg := False\<rparr>) loadAddr entry64) (\<lambda>s2.
      ret (fill_loader_data s2 (loader_data lk) (mb_info_ptr lk), entry64))))))"

text \<open>
  The length of the command line decides only whether it is printed, which reads the same bytes
  again; a command line that is not mapped ends the run in \<open>strlen\<close>.
\<close>

function calculateLoadAddr_loop :: "loader \<Rightarrow> u32 \<Rightarrow> u32 \<Rightarrow> u32 \<Rightarrow> u32 \<Rightarrow> u32 run" where
  "calculateLoadAddr_loop s mods modCount i addr =
     (if i < modCount then
        let p = mods + 16 * i in
        reads s p 12
        (let md = read_mod (view s) p in
         bindR (if cmdline md \<noteq> 0 then strlen_mapped s (cmdline md) 0 else ret 0) (\<lambda>l.
         calculateLoadAddr_loop s mods modCount (i + 1)
           (if mod_end md > addr then loader_alignUp (mod_end md) 0x200000 else addr)))
      else ret addr)"
  by pat_completeness auto
termination
  by (relation "measure (\<lambda>(s, mods, modCount, i, addr). unat modCount - unat i)") (simp_all add: loop_measure)

declare calculateLoadAddr_loop.simps [simp del]

definition calculateLoadAddr :: "loader \<Rightarrow> u32 \<Rightarrow> u32 \<Rightarrow> u32 run" where
  "calculateLoadAddr s mods modCount = calculateLoadAddr_loop s mods modCount 0 0x400000"

text \<open>The loader's own address space: a PDPT in the first page of the range.\<close>

definition enter_paging :: "loader \<Rightarrow> loader run" where
  "enter_paging s =
     (let s1 = pae_init (loader_setAlloc s root_page) root_page in
      bindR (pae_map s1 root_page 0 0 (push_bit 7 1)) (\<lambda>s2.
      bindR (pae_map s2 root_page 0x200000 0x200000 (push_bit 7 1)) (\<lambda>s3.
      bindR (pae_apply s3 root_page) (\<lambda>s4. ret (s4\<lparr>cr4_pae := True, cr0_pg := True\<rparr>)))))"

text \<open>The result is what \<open>long_enter\<close> jumps with; it does not return.\<close>

definition loader_main :: "link_map \<Rightarrow> loader \<Rightarrow> (loader \<times> u64) run" where
  "loader_main lk s =
     bindR (enter_paging s) (\<lambda>s1.
     reads s1 (mb_info_ptr lk) 28
     (let mb = read_multiboot_info (view s1) (mb_info_ptr lk) in
      assertR (mods_count mb \<noteq> 0) ''mb_info_ptr->mods_count != 0''
      (bindR (calculateLoadAddr s1 (mods_addr mb) (mods_count mb)) (\<lambda>availablePhysAddr.
       reads s1 (mods_addr mb) 8
       (let md = read_mod (view s1) (mods_addr mb) in
        load_elf lk s1 root_page availablePhysAddr (mod_start md) (mod_end md - mod_start md))))))"

end
