(* ===== verification/LoaderInv.thy ===== *)
theory LoaderInv
  imports LoaderPaging
begin

text \<open>
  The loader's paging state by numbers: the \<open>n\<close>-th page of the paging range, whether the bit field
  marks it and the 512 entries it holds.  The lemmas say what each store does to the three and
  that no other byte changes; \<open>loader_alloc\<close>, \<open>pae_map\<close> and \<open>pm64_map\<close> are characterised over
  them, so that later proofs never look at bytes.
\<close>

unbundle bit_operations_syntax

section \<open>Pages, bits and entries\<close>

definition lpage :: "nat \<Rightarrow> u32" where
  "lpage n = 0x100000 + of_nat (0x1000 * n)"

definition ltracked :: "loader \<Rightarrow> nat \<Rightarrow> bool" where
  "ltracked s n \<longleftrightarrow> bit (lat32 s (dataTracker s) (of_nat (n div 32))) (n mod 32)"

definition lentry :: "loader \<Rightarrow> nat \<Rightarrow> nat \<Rightarrow> u64" where
  "lentry s n k = lat64 s (lpage n) (of_nat k)"

text \<open>The bit field lies in the image of the loader, behind the pages and before the kernel.\<close>

definition lgeom :: "loader \<Rightarrow> bool" where
  "lgeom s \<longleftrightarrow> 0x200000 \<le> unat (dataTracker s) \<and> unat (dataTracker s) + 32 \<le> 0x3FF000"

text \<open>From \<open>s\<close> to \<open>s'\<close> only pages and bit field change.\<close>

definition ltabs :: "loader \<Rightarrow> loader \<Rightarrow> bool" where
  "ltabs s s' \<longleftrightarrow> s' = s\<lparr>lmem := lmem s'\<rparr> \<and>
     (\<forall>x. x \<notin> region 0x100000 0x100000 \<longrightarrow> x \<notin> region (dataTracker s) 32 \<longrightarrow> lmem s' x = lmem s x)"

lemma ltabs_refl [simp]: "ltabs s s"
  by (simp add: ltabs_def)

lemma ltabs_fields:
  assumes "ltabs s s'"
  shows "dataTracker s' = dataTracker s" "current_vaddr s' = current_vaddr s" "cr3 s' = cr3 s"
    "cr0_pg s' = cr0_pg s" "cr4_pae s' = cr4_pae s" "lgeom s' = lgeom s"
proof -
  have e: "s' = s\<lparr>lmem := lmem s'\<rparr>" using assms by (simp add: ltabs_def)
  show "dataTracker s' = dataTracker s" "current_vaddr s' = current_vaddr s" "cr3 s' = cr3 s"
    "cr0_pg s' = cr0_pg s" "cr4_pae s' = cr4_pae s" "lgeom s' = lgeom s"
    by (subst e; simp add: lgeom_def)+
qed

lemma ltabs_trans: "ltabs s s' \<Longrightarrow> ltabs s' s'' \<Longrightarrow> ltabs s s''"
proof -
  assume a: "ltabs s s'" "ltabs s' s''"
  then have "s'' = s'\<lparr>lmem := lmem s''\<rparr>" "s' = s\<lparr>lmem := lmem s'\<rparr>" by (simp_all add: ltabs_def)
  then have "s'' = s\<lparr>lmem := lmem s''\<rparr>" by (metis loader.update_convs(1) loader.surjective)
  then show ?thesis using a ltabs_fields(1) [OF a(1)] by (simp add: ltabs_def)
qed

lemma unat_lpage: "n < 256 \<Longrightarrow> unat (lpage n) = 0x100000 + 0x1000 * n"
  unfolding lpage_def using unat_of_nat_small [where ?'a = 32, of "0x1000 * n"] by (subst unat_add_small) simp_all

lemma lpage_next: "lpage n + 0x1000 = lpage (Suc n)"
  by (simp add: lpage_def algebra_simps)

lemma lpage_offset: "n < 256 \<Longrightarrow> unat (lpage n - paging_start) = 0x1000 * n"
  unfolding paging_start_def lpage_def add_diff_cancel_left' by (rule unat_of_nat_small) simp

lemma loader_masks: "(0xFFF :: u32) = mask 12" "(0x1F :: u32) = mask 5" "(0x1FFFFF :: u32) = mask 21"
  by (simp_all add: mask_eq_exp_minus_1)

lemma unat_and_lit_32:
  "unat (x AND 0xFFF) = unat x mod 4096" "unat (x AND 0x1F) = unat x mod 32" "unat (x AND 0x1FFFFF) = unat x mod 2097152"
  for x :: u32
  by (simp_all only: loader_masks unat_and_mask) simp_all

lemma tracker_index_lpage: "n < 256 \<Longrightarrow> tracker_index (lpage n) = of_nat (n div 32)"
proof -
  assume n: "n < 256"
  have "n * 4096 div (32 * 4096) = n div 32" by (rule div_mult_mult2) simp
  then have "4096 * n div 131072 = n div 32" by (simp add: mult.commute)
  then have "unat (tracker_index (lpage n)) = n div 32"
    using n by (simp only: tracker_index_def unat_shr lpage_offset) simp
  then show ?thesis using n unat_of_nat_small [where ?'a = 32, of "n div 32"] by (simp add: word_unat_eq_iff)
qed

lemma tracker_bit_lpage: "n < 256 \<Longrightarrow> tracker_bit (lpage n) = push_bit (n mod 32) 1"
proof -
  assume n: "n < 256"
  have "unat (drop_bit 12 (lpage n - paging_start) AND 0x1F) = n mod 32"
    using n by (simp only: unat_and_lit_32 unat_shr lpage_offset) simp
  then show ?thesis by (simp only: tracker_bit_def)
qed

lemma lpage_in_region: "n \<le> 256 \<Longrightarrow> in_paging_region (lpage n)"
proof -
  assume "n \<le> 256"
  then have "unat (lpage n) = 0x100000 + 0x1000 * n" 
    unfolding lpage_def using unat_of_nat_small [where ?'a = 32, of "0x1000 * n"] by (subst unat_add_small) simp_all
  then show ?thesis using \<open>n \<le> 256\<close>
    by (simp add: in_paging_region_def const_range_contains_def paging_start_def paging_end_def word_le_nat_alt)
qed

lemma lpage_aligned: "n < 256 \<Longrightarrow> lpage n AND 0xFFF = 0"
  by (simp add: word_unat_eq_iff unat_and_lit_32 unat_lpage)

lemma lpage_below: "n < 256 \<Longrightarrow> lpage n < paging_end"
  by (simp add: paging_end_def word_less_nat_alt unat_lpage)

lemma isFree_lpage: "n < 256 \<Longrightarrow> loader_isFree s (lpage n) = ret (\<not> ltracked s n)"
  using and_one_bit_iff [of "n mod 32" "lat32 s (dataTracker s) (of_nat (n div 32))"]
  by (auto simp: loader_isFree_def lpage_in_region lpage_aligned tracker_index_lpage tracker_bit_lpage ltracked_def)

section \<open>Where the bytes are\<close>

lemma elem_word_32: "p + 8 * i = elem p 8 (unat i)" "p + 4 * i = elem p 4 (unat i)"
  for p i :: u32
  by (simp_all add: elem_def)

lemma region_lpage: "n < 256 \<Longrightarrow> x \<in> region (lpage n) 4096 \<longleftrightarrow> 0x100000 + 0x1000 * n \<le> unat x \<and> unat x < 0x101000 + 0x1000 * n"
  by (subst in_region_nat) (simp_all add: unat_lpage)

lemma region_pages: "x \<in> region (0x100000 :: u32) 0x100000 \<longleftrightarrow> 0x100000 \<le> unat x \<and> unat x < 0x200000"
  by (subst in_region_nat) simp_all

lemma region_tracker:
  "lgeom s \<Longrightarrow> x \<in> region (dataTracker s) 32 \<longleftrightarrow> unat (dataTracker s) \<le> unat x \<and> unat x < unat (dataTracker s) + 32"
  by (subst in_region_nat) (simp_all add: lgeom_def)

lemma lpage_sub: "n < 256 \<Longrightarrow> region (lpage n) 4096 \<subseteq> region 0x100000 0x100000"
  by (auto simp: region_lpage region_pages)

lemma lpages_disjoint: "n < 256 \<Longrightarrow> n' < 256 \<Longrightarrow> n \<noteq> n' \<Longrightarrow> region (lpage n) 4096 \<inter> region (lpage n') 4096 = {}"
  by (auto simp: region_lpage)

lemma lentry_sub: "k < 512 \<Longrightarrow> region (elem (lpage n) 8 k) 8 \<subseteq> region (lpage n) 4096"
  by (intro region_elem_sub) simp_all

lemma tracker_sub: "n < 256 \<Longrightarrow> region (elem p 4 (n div 32)) 4 \<subseteq> region p 32"
  for p :: u32
  by (intro region_elem_sub) simp_all

lemma tracker_apart: "lgeom s \<Longrightarrow> region (dataTracker s) 32 \<inter> region 0x100000 0x100000 = {}"
  by (auto simp: region_pages region_tracker lgeom_def)

lemma of_nat_index: "k < 512 \<Longrightarrow> unat (of_nat k :: u32) = k"
  by (simp add: unat_of_nat_small)

lemma lentry_eq: "k < 512 \<Longrightarrow> lentry s n k = ld64 (lmem s) (elem (lpage n) 8 k)"
  by (simp only: lentry_def lat64_def elem_word_32 of_nat_index)

lemma ltracked_eq: "n < 256 \<Longrightarrow> ltracked s n \<longleftrightarrow> bit (ld32 (lmem s) (elem (dataTracker s) 4 (n div 32))) (n mod 32)"
  by (simp add: ltracked_def lat32_def elem_word_32 of_nat_index)

text \<open>The bit field and the pages do not see each other's stores.\<close>

lemma lentry_cong:
  assumes "n < 256" and "k < 512" and "\<And>x. x \<in> region (lpage n) 4096 \<Longrightarrow> lmem s' x = lmem s x"
  shows "lentry s' n k = lentry s n k"
  unfolding lentry_eq [OF assms(2)] using lentry_sub [OF assms(2), of n] assms(3)
  by (intro l64.ld_cong) blast

lemma ltracked_cong:
  assumes "n < 256" and "dataTracker s' = dataTracker s" and "\<And>x. x \<in> region (dataTracker s) 32 \<Longrightarrow> lmem s' x = lmem s x"
  shows "ltracked s' n = ltracked s n"
proof -
  have "ld32 (lmem s') (elem (dataTracker s) 4 (n div 32)) = ld32 (lmem s) (elem (dataTracker s) 4 (n div 32))"
    using tracker_sub [OF assms(1), of "dataTracker s"] assms(3) by (intro l32.ld_cong) blast
  then show ?thesis using assms(1,2) by (simp add: ltracked_eq)
qed

section \<open>What one store does\<close>

lemma lput64_fields [simp]:
  "dataTracker (lput64 s p i v) = dataTracker s" "cr3 (lput64 s p i v) = cr3 s" "cr0_pg (lput64 s p i v) = cr0_pg s"
  "cr4_pae (lput64 s p i v) = cr4_pae s" "lgeom (lput64 s p i v) = lgeom s"
  "lmem (lput64 s p i v) = st64 (lmem s) (p + 8 * i) v"
  by (simp_all add: lput64_def lgeom_def)

lemma lput64_frame:
  assumes "k < 512" and "x \<notin> region (lpage n) 4096"
  shows "lmem (lput64 s (lpage n) (of_nat k) v) x = lmem s x"
  using lentry_sub [OF assms(1), of n] assms
  by (simp only: lput64_fields elem_word_32 of_nat_index) (intro l64.st_frame, blast)

lemma put_lentry:
  assumes "n < 256" and "k < 512" and "lgeom s"
  shows "ltabs s (lput64 s (lpage n) (of_nat k) v)"
    and "n' < 256 \<Longrightarrow> k' < 512 \<Longrightarrow>
      lentry (lput64 s (lpage n) (of_nat k) v) n' k' = (if n = n' \<and> k = k' then v else lentry s n' k')"
    and "a < 256 \<Longrightarrow> ltracked (lput64 s (lpage n) (of_nat k) v) a = ltracked s a"
proof -
  note fr = lput64_frame [OF assms(2), of _ n s v]
  show "ltabs s (lput64 s (lpage n) (of_nat k) v)"
    using fr lpage_sub [OF assms(1)] unfolding ltabs_def by (auto simp: lput64_def simp del: lput64_fields(6))
  show "lentry (lput64 s (lpage n) (of_nat k) v) n' k' = (if n = n' \<and> k = k' then v else lentry s n' k')"
    if "n' < 256" "k' < 512"
  proof (cases "n = n'")
    case True
    have "lentry (lput64 s (lpage n) (of_nat k) v) n k' =
        ld64 (st64 (lmem s) (elem (lpage n) 8 k) v) (elem (lpage n) 8 k')"
      using assms(2) that(2) by (simp only: lentry_eq lput64_fields elem_word_32 of_nat_index)
    also have "\<dots> = (if k = k' then v else ld64 (lmem s) (elem (lpage n) 8 k'))"
      using assms(2) that(2) by (intro l64.ld_elem_st_elem) simp_all
    finally show ?thesis using True that(2) by (simp add: lentry_eq)
  next
    case False
    then have "lentry (lput64 s (lpage n) (of_nat k) v) n' k' = lentry s n' k'"
      using lpages_disjoint [OF assms(1) that(1)] that by (intro lentry_cong fr) auto
    then show ?thesis using False by simp
  qed
  show "ltracked (lput64 s (lpage n) (of_nat k) v) a = ltracked s a" if "a < 256"
    using that fr lpage_sub [OF assms(1)] tracker_apart [OF assms(3)] by (intro ltracked_cong) auto
qed

lemma memset_lpage:
  assumes "n < 256" and "lgeom s"
  defines "s' \<equiv> s\<lparr>lmem := loader_memset (lmem s) (lpage n) 0 0x1000\<rparr>"
  shows "ltabs s s'"
    and "n' < 256 \<Longrightarrow> k' < 512 \<Longrightarrow> lentry s' n' k' = (if n = n' then 0 else lentry s n' k')"
    and "a < 256 \<Longrightarrow> ltracked s' a = ltracked s a"
proof -
  have fr: "lmem s' x = (if x \<in> region (lpage n) 4096 then 0 else lmem s x)" for x
    by (simp add: s'_def loader_memset_apply)
  show "ltabs s s'" using fr lpage_sub [OF assms(1)] unfolding ltabs_def by (auto simp: s'_def)
  show "lentry s' n' k' = (if n = n' then 0 else lentry s n' k')" if "n' < 256" "k' < 512"
  proof (cases "n = n'")
    case True
    have "ld64 (lmem s') (elem (lpage n) 8 k') = 0"
      unfolding ld64_def using lentry_sub [OF that(2), of n] by (intro rd_zero) (auto simp: fr)
    then show ?thesis using True that(2) by (simp add: lentry_eq)
  next
    case False
    then show ?thesis using lpages_disjoint [OF assms(1) that(1)] that fr by (auto intro!: lentry_cong)
  qed
  show "ltracked s' a = ltracked s a" if "a < 256"
    using that fr lpage_sub [OF assms(1)] tracker_apart [OF assms(2)]
    by (intro ltracked_cong) (auto simp: s'_def)
qed

lemma same_bit: "n div 32 = a div 32 \<and> n mod 32 = a mod 32 \<longleftrightarrow> n = a"
  for n a :: nat
  by (metis div_mult_mod_eq)

lemma setAlloc_lpage:
  assumes "n < 256" and "lgeom s"
  defines "s' \<equiv> loader_setAlloc s (lpage n)"
  shows "ltabs s s'"
    and "n' < 256 \<Longrightarrow> k' < 512 \<Longrightarrow> lentry s' n' k' = lentry s n' k'"
    and "a < 256 \<Longrightarrow> ltracked s' a \<longleftrightarrow> a = n \<or> ltracked s a"
proof -
  let ?T = "dataTracker s" and ?w = "ld32 (lmem s) (elem (dataTracker s) 4 (n div 32)) OR push_bit (n mod 32) 1"
  have "s' = s\<lparr>lmem := st32 (lmem s) (elem ?T 4 (n div 32)) ?w\<rparr>"
    unfolding s'_def loader_setAlloc_def lput32_def lat32_def tracker_index_lpage [OF assms(1)]
      tracker_bit_lpage [OF assms(1)] elem_word_32 using assms(1) by (simp only: of_nat_index)
  then have m: "lmem s' = st32 (lmem s) (elem ?T 4 (n div 32)) ?w" "dataTracker s' = ?T" by simp_all
  have fr: "lmem s' x = lmem s x" if "x \<notin> region ?T 32" for x
    unfolding m(1) using tracker_sub [OF assms(1), of ?T] that by (intro l32.st_frame) blast
  show "ltabs s s'" using fr unfolding ltabs_def by (auto simp: s'_def loader_setAlloc_def lput32_def)
  show "lentry s' n' k' = lentry s n' k'" if "n' < 256" "k' < 512"
    using that fr lpage_sub [OF that(1)] tracker_apart [OF assms(2)] by (intro lentry_cong) auto
  show "ltracked s' a \<longleftrightarrow> a = n \<or> ltracked s a" if "a < 256"
  proof -
    have "ld32 (lmem s') (elem ?T 4 (a div 32)) = (if n div 32 = a div 32 then ?w else ld32 (lmem s) (elem ?T 4 (a div 32)))"
      unfolding m(1) using assms(1) that by (intro l32.ld_elem_st_elem) simp_all
    then have "ltracked s' a \<longleftrightarrow> n div 32 = a div 32 \<and> n mod 32 = a mod 32 \<or> ltracked s a"
      using that m(2) by (auto simp: ltracked_eq bit_simps)
    then show ?thesis using same_bit [of n a] by blast
  qed
qed

section \<open>alloc\<close>

definition first_free :: "loader \<Rightarrow> nat \<Rightarrow> bool" where
  "first_free s n \<longleftrightarrow> n < 256 \<and> \<not> ltracked s n \<and> (\<forall>j<n. ltracked s j)"

definition loader_taken :: "loader \<Rightarrow> nat \<Rightarrow> loader \<Rightarrow> bool" where
  "loader_taken s n s' \<longleftrightarrow> ltabs s s' \<and> (\<forall>a<256. ltracked s' a \<longleftrightarrow> a = n \<or> ltracked s a) \<and>
     (\<forall>n'<256. \<forall>k<512. lentry s' n' k = (if n' = n then 0 else lentry s n' k))"

lemma loader_alloc_loop_first:
  "first_free s n \<Longrightarrow> lgeom s \<Longrightarrow> j \<le> n \<Longrightarrow> \<exists>s'. loader_alloc_loop s (lpage j) = ret (lpage n, s') \<and> loader_taken s n s'"
proof (induction "n - j" arbitrary: j)
  case 0
  then have j: "j = n" "n < 256" "\<not> ltracked s n" by (simp_all add: first_free_def)
  let ?s1 = "loader_setAlloc s (lpage n)"
  let ?s2 = "?s1\<lparr>lmem := loader_memset (lmem ?s1) (lpage n) 0 0x1000\<rparr>"
  have "loader_alloc_loop s (lpage n) = ret (lpage n, ?s2)"
    using j by (subst loader_alloc_loop.simps) (simp add: lpage_below isFree_lpage Let_def)
  moreover have "loader_taken s n ?s2"
  proof -
    note a = setAlloc_lpage [OF j(2) 0(3)]
    have g: "lgeom ?s1" using ltabs_fields(6) [OF a(1)] 0(3) by simp
    note b = memset_lpage [OF j(2) g]
    show ?thesis unfolding loader_taken_def
      using ltabs_trans [OF a(1) b(1)] a(2,3) b(2,3) by auto
  qed
  ultimately show ?case using j(1) by blast
next
  case (Suc d)
  then have j: "j < n" "n < 256" by (simp_all add: first_free_def)
  then have "loader_alloc_loop s (lpage j) = loader_alloc_loop s (lpage (Suc j))"
    using Suc.prems(1) by (subst loader_alloc_loop.simps) (simp add: lpage_below isFree_lpage first_free_def lpage_next)
  then show ?case using Suc.hyps(1) [of "Suc j"] Suc.prems Suc.hyps(2) j by simp
qed

lemma loader_alloc_first:
  assumes "first_free s n" and "lgeom s"
  obtains s' where "loader_alloc s = ret (lpage n, s')" "loader_taken s n s'"
  using loader_alloc_loop_first [OF assms, of 0]
  by (auto simp: loader_alloc_def lpage_def paging_start_def)

lemma loader_alloc_full:
  assumes "\<forall>n<256. ltracked s n"
  shows "loader_alloc s = ret (0xFFFFFFFF, s)"
proof -
  have "loader_alloc_loop s (lpage j) = ret (0xFFFFFFFF, s)" if "j \<le> 256" for j
    using that
  proof (induction "256 - j" arbitrary: j)
    case 0
    then have "lpage j = paging_end" by (simp add: lpage_def paging_end_def)
    then show ?case by (simp add: loader_alloc_loop.simps)
  next
    case (Suc d)
    then have j: "j < 256" by simp
    then have "loader_alloc_loop s (lpage j) = loader_alloc_loop s (lpage (Suc j))"
      using assms by (subst loader_alloc_loop.simps) (simp add: lpage_below isFree_lpage lpage_next)
    then show ?case using Suc.hyps(1) [of "Suc j"] Suc.hyps(2) j by simp
  qed
  from this [of 0] show ?thesis by (simp add: loader_alloc_def lpage_def paging_start_def)
qed

end
