(* ===== verification/LoaderProps.thy ===== *)
theory LoaderProps
  imports Loader LoaderInv
begin

text \<open>
  What the loader does before it hands over: its own address space is the identity below 4 MiB and
  faults everywhere else, the segments of the kernel are copied to their physical addresses and
  nothing else changes, and the load address lies behind every module.
\<close>

unbundle bit_operations_syntax

section \<open>The loader's address space\<close>

lemma lpage_lits: "lpage 0 = 0x100000" "lpage (Suc 0) = 0x101000" "lpage 1 = 0x101000" "lpage 2 = 0x102000" "lpage 3 = 0x103000"
  by (simp_all add: lpage_def)

lemma root_lpage: "root_page = lpage 0"
  by (simp add: root_page_def lpage_lits)

lemma pm_set_root: "pm_set s root_page = ret (s\<lparr>current_vaddr := 0x100000, cr3 := 0x100000\<rparr>)"
  by (simp add: pm_set_def root_page_def in_paging_region_def const_range_contains_def paging_start_def paging_end_def)

definition paged :: "loader \<Rightarrow> bool" where
  "paged s \<longleftrightarrow> lgeom s \<and> cr0_pg s \<and> cr4_pae s \<and> cr3 s = 0x100000 \<and> current_vaddr s = 0x100000 \<and>
     (\<forall>k<4. lentry s 0 k = (if k = 0 then 0x101001 else 0)) \<and>
     (\<forall>k<512. lentry s 1 k = (if k = 0 then 0x81 else if k = 1 then 0x200081 else 0)) \<and>
     (\<forall>n<256. ltracked s n \<longleftrightarrow> n < 2)"

lemma pae_map_present:
  assumes "lentry s 0 0 = 0x101001" and "pae_pdpti v = 0"
  shows "pae_map s root_page v pa flags = ret (lput64 s (lpage 1) (pae_pdi v) (pa OR ucast flags OR 0x81))"
  using assms by (simp add: pae_map_def lentry_def lpage_lits table_ptr_def root_page_def)

lemma pae_init_run:
  assumes "lgeom s"
  defines "s' \<equiv> pae_init s root_page"
  shows "ltabs s s'" and "k < 4 \<Longrightarrow> lentry s' 0 k = 0" and "a < 256 \<Longrightarrow> ltracked s' a = ltracked s a"
proof -
  have fr: "lmem s' x = (if x \<in> region (lpage 0) 32 then 0 else lmem s x)" for x
    by (simp add: s'_def pae_init_def loader_memset_apply root_page_def lpage_lits)
  have sub: "region (lpage 0) 32 \<subseteq> region 0x100000 0x100000"
    unfolding lpage_lits by (rule region_sub) simp
  show "ltabs s s'" using fr sub unfolding ltabs_def by (auto simp: s'_def pae_init_def)
  show "lentry s' 0 k = 0" if "k < 4"
  proof -
    have "region (elem (lpage 0) 8 k) 8 \<subseteq> region (lpage 0) 32" using that by (intro region_elem_sub) simp_all
    then have "ld64 (lmem s') (elem (lpage 0) 8 k) = 0" unfolding ld64_def by (intro rd_zero) (auto simp: fr)
    then show ?thesis using that by (simp add: lentry_eq)
  qed
  show "ltracked s' a = ltracked s a" if "a < 256"
    using that fr sub tracker_apart [OF assms(1)] by (intro ltracked_cong) (auto simp: s'_def pae_init_def)
qed

lemma pae_first_map:
  assumes "lgeom s" and "lentry s 0 0 = 0" and "\<forall>n<256. ltracked s n \<longleftrightarrow> n < 1"
  obtains s' where "pae_map s root_page 0 0 0x80 = ret s'" "ltabs s s'"
    "\<And>k. k < 512 \<Longrightarrow> lentry s' 0 k = (if k = 0 then 0x101001 else lentry s 0 k)"
    "\<And>k. k < 512 \<Longrightarrow> lentry s' 1 k = (if k = 0 then 0x81 else 0)"
    "\<And>n. n < 256 \<Longrightarrow> ltracked s' n \<longleftrightarrow> n < 2"
proof -
  have "first_free s 1" using assms(3) by (simp add: first_free_def)
  then obtain s1 where s1: "loader_alloc s = ret (lpage 1, s1)" "loader_taken s 1 s1"
    using assms(1) by (rule loader_alloc_first)
  note t = s1(2) [unfolded loader_taken_def]
  have g1: "lgeom s1" using t assms(1) ltabs_fields(6) by blast
  define s2 where "s2 = lput64 s1 (lpage 1) (of_nat 0) 0x81"
  note p1 = put_lentry [where n = 1 and k = 0 and v = "0x81", OF _ _ g1, folded s2_def, simplified]
  have g2: "lgeom s2" using g1 by (simp add: s2_def)
  define s3 where "s3 = lput64 s2 (lpage 0) (of_nat 0) 0x101001"
  note p2 = put_lentry [where n = 0 and k = 0 and v = "0x101001", OF _ _ g2, folded s3_def, simplified]
  have "lat64 s 0x100000 0 = 0" using assms(2) by (simp add: lentry_def lpage_lits)
  then have m: "pae_map s root_page 0 0 0x80 = ret s3"
    using s1(1) by (simp add: pae_map_def pae_pdpti_def pae_pdi_def root_page_def lpage_lits s2_def s3_def)
  have l: "ltabs s s3" using t p1(1) p2(1) ltabs_trans by blast
  show ?thesis by (rule that [OF m l]) (use t p1 p2 assms(3) in auto)
qed

lemma enter_paging_run:
  assumes "lgeom s" and "\<forall>n<256. \<not> ltracked s n"
  obtains s' where "enter_paging s = ret s'" "paged s'" "dataTracker s' = dataTracker s"
    "\<And>x. x \<notin> region 0x100000 0x100000 \<Longrightarrow> x \<notin> region (dataTracker s) 32 \<Longrightarrow> lmem s' x = lmem s x"
proof -
  define s0 where "s0 = loader_setAlloc s (lpage 0)"
  note a = setAlloc_lpage [where n = 0, OF _ assms(1), folded s0_def, simplified]
  have g0: "lgeom s0" using a(1) assms(1) ltabs_fields(6) by blast
  define s1 where "s1 = pae_init s0 root_page"
  note b = pae_init_run [OF g0, folded s1_def]
  have g1: "lgeom s1" using b(1) g0 ltabs_fields(6) by blast
  have "lentry s1 0 0 = 0" "\<forall>n<256. ltracked s1 n \<longleftrightarrow> n < 1" using a b assms(2) by auto
  then obtain s2 where s2: "pae_map s1 root_page 0 0 0x80 = ret s2" "ltabs s1 s2"
    "\<And>k. k < 512 \<Longrightarrow> lentry s2 0 k = (if k = 0 then 0x101001 else lentry s1 0 k)"
    "\<And>k. k < 512 \<Longrightarrow> lentry s2 1 k = (if k = 0 then 0x81 else 0)"
    "\<And>n. n < 256 \<Longrightarrow> ltracked s2 n \<longleftrightarrow> n < 2"
    by (rule pae_first_map [OF g1]) (simp only:)
  have g2: "lgeom s2" using s2(2) g1 ltabs_fields(6) by blast
  define s3 where "s3 = lput64 s2 (lpage 1) (of_nat 1) 0x200081"
  note p = put_lentry [where n = 1 and k = 1 and v = "0x200081", OF _ _ g2, folded s3_def, simplified]
  have "pae_map s2 root_page 0x200000 0x200000 0x80 = ret s3"
    using s2(3) [of 0] by (subst pae_map_present) (simp_all add: s3_def pae_pdpti_def pae_pdi_def)
  moreover have "pae_init (loader_setAlloc s root_page) root_page = s1" by (simp add: s1_def s0_def root_lpage)
  ultimately have e: "enter_paging s = ret (s3\<lparr>current_vaddr := 0x100000, cr3 := 0x100000, cr4_pae := True, cr0_pg := True\<rparr>)"
    using s2(1) by (simp add: enter_paging_def pm_set_root)
  have t: "ltabs s s3" using a(1) b(1) s2(2) p(1) ltabs_trans by metis
  show ?thesis
  proof (rule that [OF e])
    let ?s = "s3\<lparr>current_vaddr := 0x100000, cr3 := 0x100000, cr4_pae := True, cr0_pg := True\<rparr>"
    have same: "lentry ?s n k = lentry s3 n k" "ltracked ?s n = ltracked s3 n" for n k
      by (simp_all add: lentry_def ltracked_def lat64_def lat32_def)
    show "paged ?s" unfolding paged_def same
      using p s2 b g2 by (auto simp: lgeom_def s3_def)
    show "dataTracker ?s = dataTracker s" using ltabs_fields(1) [OF t] by simp
    show "lmem ?s x = lmem s x" if "x \<notin> region 0x100000 0x100000" "x \<notin> region (dataTracker s) 32" for x
      using t that by (simp add: ltabs_def)
  qed
qed

section \<open>Translation\<close>

text \<open>Tables with one directory, whose entries are \<open>f\<close>.\<close>

definition directory :: "loader \<Rightarrow> (nat \<Rightarrow> u64) \<Rightarrow> bool" where
  "directory s f \<longleftrightarrow> cr0_pg s \<and> cr4_pae s \<and> cr3 s = 0x100000 \<and>
     (\<forall>k<4. lentry s 0 k = (if k = 0 then 0x101001 else 0)) \<and> (\<forall>k<512. lentry s 1 k = f k)"

definition identity_entries :: "nat \<Rightarrow> u64" where
  "identity_entries k = (if k = 0 then 0x81 else if k = 1 then 0x200081 else 0)"

lemma paged_directory: "paged s \<Longrightarrow> directory s identity_entries"
  by (simp add: paged_def directory_def identity_entries_def)

lemma directory_cong:
  assumes "directory s f" and "\<And>x. x \<in> region 0x100000 0x100000 \<Longrightarrow> lmem s' x = lmem s x"
    and "cr0_pg s' = cr0_pg s" and "cr4_pae s' = cr4_pae s" and "cr3 s' = cr3 s"
  shows "directory s' f"
proof -
  have "lentry s' n k = lentry s n k" if "n < 256" "k < 512" for n k
    using lpage_sub [OF that(1)] that assms(2) by (intro lentry_cong) auto
  then show ?thesis using assms unfolding directory_def by auto
qed

text \<open>A mapping under index 0 sets one entry of the directory.\<close>

lemma pae_map_directory:
  assumes d: "directory s f" and g: "lgeom s" and v: "pae_pdpti v = 0"
  shows "\<exists>s1. pae_map s root_page v pa flags = ret s1 \<and> lgeom s1 \<and>
    directory s1 (f(unat (pae_pdi v) := pa OR ucast flags OR 0x81))"
proof -
  let ?k = "unat (pae_pdi v)"
  have "unat (drop_bit 21 v AND 0x1FF) < 512" by (simp add: unat_and_lit)
  then have k: "?k < 512" by (simp add: pae_pdi_def unsigned_ucast_eq take_bit_nat_eq_self)
  define s1 where "s1 = lput64 s (lpage 1) (of_nat ?k) (pa OR ucast flags OR 0x81)"
  note p = put_lentry [where n = 1 and v = "pa OR ucast flags OR 0x81", OF _ k g, folded s1_def, simplified]
  have e: "lentry s 0 0 = 0x101001" using d by (simp add: directory_def)
  have "pae_map s root_page v pa flags = ret s1" using pae_map_present [OF e v] by (simp add: s1_def)
  moreover have "cr3 s1 = cr3 s" "cr0_pg s1 = cr0_pg s" "cr4_pae s1 = cr4_pae s" by (simp_all add: s1_def lput64_def)
  then have "directory s1 (f(?k := pa OR ucast flags OR 0x81))" using d p by (auto simp: directory_def)
  moreover have "lgeom s1" using g by (simp add: s1_def)
  ultimately show ?thesis by blast
qed

lemma unat_lits_32:
  "unat (drop_bit 30 va) = unat va div 0x40000000" "unat (drop_bit 21 va AND 0x1FF) = unat va div 0x200000 mod 512"
  for va :: u32
proof -
  have "(0x1FF :: u32) = mask 9" by (simp add: mask_eq_exp_minus_1)
  then show "unat (drop_bit 30 va) = unat va div 0x40000000" "unat (drop_bit 21 va AND 0x1FF) = unat va div 0x200000 mod 512"
    by (simp_all only: unat_and_mask unat_shr) simp_all
qed

lemma translate_directory:
  assumes "directory s f"
  shows "translate s va = (if 0x40000000 \<le> unat va then None
    else let d = f (unat va div 0x200000 mod 512) in
      if d AND 0x81 = 0x81 then Some ((ucast d AND 0xFFE00000) OR (va AND 0x1FFFFF)) else None)"
proof -
  let ?k = "unat va div 0x40000000" and ?j = "unat va div 0x200000 mod 512"
  have k: "?k < 4" using unat_lt_32 [of va] by simp
  have "lat64 s 0x100000 (drop_bit 30 va) = lentry s 0 ?k"
    by (simp add: lentry_def lpage_lits unat_lits_32(1) [symmetric])
  then have e: "lat64 s (cr3 s) (drop_bit 30 va) = (if ?k = 0 then 0x101001 else 0)"
    using assms k by (simp add: directory_def)
  have "lat64 s 0x101000 (drop_bit 21 va AND 0x1FF) = lentry s 1 ?j"
    unfolding unat_lits_32(2) [symmetric] by (simp add: lentry_def lpage_lits)
  then have d: "lat64 s 0x101000 (drop_bit 21 va AND 0x1FF) = f ?j" using assms by (simp add: directory_def)
  have "?k = 0 \<longleftrightarrow> unat va < 0x40000000" by (simp add: div_eq_0_iff)
  then show ?thesis using assms e d by (simp add: translate_def table_ptr_def directory_def Let_def)
qed

lemma or_offset: "q AND 0x1FFFFF = 0 \<Longrightarrow> q OR (va AND 0x1FFFFF) = q + (va AND 0x1FFFFF)"
  for q va :: u32
proof -
  assume q: "q AND 0x1FFFFF = 0"
  have "q AND (va AND 0x1FFFFF) = 0" by (simp only: and.left_commute [of q va] q and_zero_eq)
  then show ?thesis using word_plus_and_or [of q "va AND 0x1FFFFF"] by (simp only: add_0_left)
qed

lemma page_of_entry: "q AND 0x1FFFFF = 0 \<Longrightarrow> (ucast (ucast q OR (0x81 :: u64)) :: u32) AND 0xFFE00000 = q"
  for q :: u32
proof -
  assume q: "q AND 0x1FFFFF = 0"
  have n: "(0xFFE00000 :: u32) = NOT 0x1FFFFF" by simp
  have "(q AND 0x1FFFFF) OR (q AND NOT 0x1FFFFF) = q"
    by (simp only: bit.conj_disj_distrib [symmetric] bit.disj_cancel_right and.right_neutral)
  then have 1: "q AND NOT 0x1FFFFF = q" by (simp only: q or.left_neutral)
  have 2: "(ucast (ucast q OR (0x81 :: u64)) :: u32) = q OR 0x81"
    by (rule bit_word_eqI) (auto simp: bit_simps)
  have 3: "(0x81 :: u32) AND NOT 0x1FFFFF = 0" by simp
  show ?thesis by (simp only: 2 n bit.conj_disj_distrib2 1 3 or.right_neutral)
qed

lemma translate_entry:
  assumes "directory s f" and "unat va div 0x200000 = j" and "j < 512" and "f j = ucast q OR 0x81" and "q AND 0x1FFFFF = 0"
  shows "translate s va = Some (q + (va - of_nat (j * 0x200000)))"
proof -
  have b: "unat va < 0x40000000" using assms(2,3) by simp
  have "unat va = j * 0x200000 + unat va mod 0x200000" using assms(2) by (metis div_mult_mod_eq)
  moreover have "unat (of_nat (j * 0x200000) :: u32) = j * 0x200000" using assms(3) by (intro unat_of_nat_small) simp
  ultimately have o: "va AND 0x1FFFFF = va - of_nat (j * 0x200000)"
    by (subst word_unat_eq_iff, subst unat_sub_ge) (simp_all add: unat_and_lit_32)
  have d: "(ucast q OR 0x81 :: u64) AND 0x81 = 0x81"
    by (rule bit_word_eqI) (auto simp: bit_simps)
  have "f (unat va div 0x200000 mod 512) = ucast q OR 0x81" using assms(2-4) by simp
  then show ?thesis using b
    by (simp only: translate_directory [OF assms(1)] Let_def d page_of_entry [OF assms(5)] or_offset [OF assms(5)] o [symmetric])
      simp
qed

lemma translate_paged:
  assumes "paged s"
  shows "translate s va = (if unat va < 0x400000 then Some va else None)"
proof -
  note d = paged_directory [OF assms]
  let ?j = "unat va div 0x200000"
  consider "?j = 0" | "?j = 1" | "2 \<le> ?j" by linarith
  then show ?thesis
  proof cases
    case 1
    then have "translate s va = Some (0 + (va - of_nat (0 * 0x200000)))"
      by (intro translate_entry [OF d]) (simp_all add: identity_entries_def)
    then show ?thesis using 1 by (auto simp: div_eq_0_iff)
  next
    case 2
    then have "translate s va = Some (0x200000 + (va - of_nat (1 * 0x200000)))"
      by (intro translate_entry [OF d]) (simp_all add: identity_entries_def)
    moreover have "unat va < 0x400000" using 2 by linarith
    ultimately show ?thesis by simp
  next
    case 3
    then have "0x400000 \<le> unat va" by linarith
    moreover have "f = 0 \<Longrightarrow> f AND 0x81 \<noteq> 0x81" for f :: u64 by simp
    moreover have "identity_entries (?j mod 512) = 0" if "unat va < 0x40000000"
    proof -
      have "?j < 512" using that by (simp add: div_less_iff_less_mult)
      then show ?thesis using 3 by (simp add: identity_entries_def)
    qed
    ultimately show ?thesis by (auto simp: translate_directory [OF d] Let_def)
  qed
qed

lemma translate_window:
  assumes "directory s (identity_entries(2 := ucast q OR 0x81))" and "q AND 0x1FFFFF = 0"
  shows "unat va < 0x400000 \<Longrightarrow> translate s va = Some va"
    and "0x400000 \<le> unat va \<Longrightarrow> unat va < 0x600000 \<Longrightarrow> translate s va = Some (q + (va - 0x400000))"
proof -
  show "translate s va = Some va" if "unat va < 0x400000"
  proof -
    have "unat va div 0x200000 < 2" using that by (simp add: div_less_iff_less_mult)
    then consider "unat va div 0x200000 = 0" | "unat va div 0x200000 = 1" by linarith
    then show ?thesis
    proof cases
      case 1
      then have "translate s va = Some (0 + (va - of_nat (0 * 0x200000)))"
        by (intro translate_entry [OF assms(1)]) (simp_all add: identity_entries_def)
      then show ?thesis by simp
    next
      case 2
      then have "translate s va = Some (0x200000 + (va - of_nat (1 * 0x200000)))"
        by (intro translate_entry [OF assms(1)]) (simp_all add: identity_entries_def)
      then show ?thesis by simp
    qed
  qed
  show "translate s va = Some (q + (va - 0x400000))" if "0x400000 \<le> unat va" "unat va < 0x600000"
  proof -
    have "unat va div 0x200000 = 2" using that by linarith
    then have "translate s va = Some (q + (va - of_nat (2 * 0x200000)))"
      by (intro translate_entry [OF assms(1)]) (simp_all add: assms(2))
    then show ?thesis by simp
  qed
qed

lemma view_paged: "paged s \<Longrightarrow> view s = (\<lambda>va. if unat va < 0x400000 then lmem s va else 0)"
  by (auto simp: view_def translate_paged)

lemma accessible_paged: "paged s \<Longrightarrow> unat va + n \<le> 0x400000 \<Longrightarrow> accessible s va n"
proof -
  assume a: "paged s" "unat va + n \<le> 0x400000"
  have "unat (va + of_nat i) < 0x400000" if "i < n" for i
  proof -
    have "unat (of_nat i :: u32) = i" using that a(2) by (intro unat_of_nat_small) simp
    then show ?thesis using that a(2) by (subst unat_add_small) simp_all
  qed
  then show ?thesis using a(1) by (auto simp: accessible_def list_all_iff translate_paged)
qed

section \<open>Copying through the window\<close>

definition place :: "u32 \<Rightarrow> u32 \<Rightarrow> u32 \<Rightarrow> 32 mem \<Rightarrow> 32 mem" where
  "place dst src n m x = (if x \<in> region dst (unat n) then m (src + (x - dst)) else m x)"

lemma copy_mapped_run:
  assumes "\<And>j s'. unat j < unat n \<Longrightarrow> s' = s\<lparr>lmem := lmem s'\<rparr> \<Longrightarrow>
      (\<forall>x. x \<notin> region q (unat n) \<longrightarrow> lmem s' x = lmem s x) \<Longrightarrow>
      translate s' (src + j) = Some (src + j) \<and> translate s' (dst + j) = Some (q + j)"
    and "region src (unat n) \<inter> region q (unat n) = {}"
  shows "copy_mapped s dst src n 0 = ret (s\<lparr>lmem := place q src n (lmem s)\<rparr>)"
proof -
  define part where "part i x = (if unat (x - q) < unat i then lmem s (src + (x - q)) else lmem s x)" for i :: u32 and x
  have "copy_mapped (s\<lparr>lmem := part i\<rparr>) dst src n i = ret (s\<lparr>lmem := part n\<rparr>)" if "i \<le> n" for i
    using that
  proof (induction "unat n - unat i" arbitrary: i)
    case 0
    then have "i = n" by (simp add: word_le_nat_alt word_unat_eq_iff)
    then show ?case by (subst copy_mapped.simps) simp
  next
    case (Suc d)
    then have lt: "i < n" by (simp add: word_less_nat_alt)
    then have u: "unat (i + 1) = Suc (unat i)" by (rule unat_suc_less)
    let ?s = "s\<lparr>lmem := part i\<rparr>"
    have "part i x = lmem s x" if "x \<notin> region q (unat n)" for x
      using that lt by (simp add: part_def in_region_iff word_less_nat_alt)
    then have t: "translate ?s (src + i) = Some (src + i)" "translate ?s (dst + i) = Some (q + i)"
      using assms(1) [of i ?s] lt by (simp_all add: word_less_nat_alt)
    have "src + i \<in> region src (unat n)" using lt by (simp add: in_region_iff word_less_nat_alt)
    then have "src + i \<notin> region q (unat n)" using assms(2) by blast
    then have v: "part i (src + i) = lmem s (src + i)"
      using lt by (simp add: part_def in_region_iff word_less_nat_alt)
    have "((part i)(q + i := lmem s (src + i))) x = part (i + 1) x" for x
    proof (cases "x = q + i")
      case True
      then show ?thesis using u by (simp add: part_def)
    next
      case False
      then have "unat (x - q) \<noteq> unat i" by (auto simp: word_unat_eq_iff [symmetric] algebra_simps)
      then show ?thesis using u False by (simp add: part_def less_Suc_eq)
    qed
    then have "(part i)(q + i := lmem s (src + i)) = part (i + 1)" by blast
    then have "copy_mapped ?s dst src n i = copy_mapped (s\<lparr>lmem := part (i + 1)\<rparr>) dst src n (i + 1)"
      using lt t v by (subst copy_mapped.simps) simp
    moreover have "d = unat n - unat (i + 1)" "i + 1 \<le> n" using Suc.hyps(2) u by (simp_all add: word_le_nat_alt)
    ultimately show ?case using Suc.hyps(1) by simp
  qed
  from this [of 0] have "copy_mapped (s\<lparr>lmem := part 0\<rparr>) dst src n 0 = ret (s\<lparr>lmem := part n\<rparr>)" by simp
  moreover have "part 0 = lmem s" "part n = place q src n (lmem s)"
    by (simp_all add: part_def place_def fun_eq_iff in_region_iff)
  ultimately show ?thesis by simp
qed

section \<open>One segment\<close>

text \<open>
  What a program header must satisfy to be loaded: the code's two tests, and what it does not test:
  the bytes of the file fit the 2 MiB window, and they lie in the mapped 4 MiB beside the directory.
\<close>

definition loadable :: "u32 \<Rightarrow> u32 \<Rightarrow> Elf64_Phdr \<Rightarrow> bool" where
  "loadable loadAddr modStart ph \<longleftrightarrow> (p_type ph = PT_LOAD \<longrightarrow>
     (let paddr = ucast (p_paddr ph) :: u32; n = unat (ucast (p_filesz ph) :: u32); src = modStart + ucast (p_offset ph) in
      unat (ucast (p_memsz ph) :: u32) \<le> 0x200000 \<and> loadAddr \<le> paddr AND - 0x200000 \<and>
      unat (paddr AND 0x1FFFFF) + n \<le> 0x200000 \<and> unat src + n \<le> 0x400000 \<and>
      region src n \<inter> region 0x101000 0x1000 = {}))"

definition segment_placed :: "u32 \<Rightarrow> Elf64_Phdr \<Rightarrow> 32 mem \<Rightarrow> 32 mem" where
  "segment_placed modStart ph m = (if p_type ph = PT_LOAD
     then place (ucast (p_paddr ph)) (modStart + ucast (p_offset ph)) (ucast (p_filesz ph)) m else m)"

lemma neg_page: "(- 0x200000 :: u32) = NOT (mask 21)"
  by (simp add: mask_eq_exp_minus_1 not_eq_complement)

lemma unat_page_32: "unat (p AND - 0x200000) = unat p - unat p mod 0x200000" "unat (p AND - 0x200000) \<le> unat p"
  for p :: u32
proof -
  have "unat (p AND - 0x200000) = unat p div 2 ^ 21 * 2 ^ 21" by (simp only: neg_page unat_and_not_mask)
  then show a: "unat (p AND - 0x200000) = unat p - unat p mod 0x200000" by (simp only: minus_mod_eq_div_mult) simp
  show "unat (p AND - 0x200000) \<le> unat p" unfolding a by simp
qed

lemma page_aligned_32: "(p AND - 0x200000) AND 0x1FFFFF = 0"
  for p :: u32
  by (simp only: neg_page loader_masks and.assoc bit.conj_cancel_left and_zero_eq)

lemma page_split_32: "unat (p - (p AND - 0x200000)) = unat p mod 0x200000"
  for p :: u32
  by (simp add: unat_sub_ge unat_page_32)

lemma ld64_zero_bytes:
  fixes m :: "32 mem"
  assumes "ld64 m a = 0" and "x \<in> region a 8"
  shows "m x = 0"
proof (rule bit_word_eqI)
  fix i assume "i < LENGTH(8)"
  then have i: "i < 8" by simp
  let ?o = "unat (x - a)"
  have o: "?o < 8" using assms(2) by (simp add: in_region_iff)
  have "bit (ld64 m a) (8 * ?o + i) \<longleftrightarrow> bit (m (a + of_nat ((8 * ?o + i) div 8))) ((8 * ?o + i) mod 8)"
    using i o by (simp add: ld64_def bit_rd)
  moreover have "(8 * ?o + i) div 8 = ?o" "(8 * ?o + i) mod 8 = i" using i by simp_all
  ultimately show "bit (m x) i = bit 0 i" using assms(1) by simp
qed

lemma st64_restored:
  fixes m :: "32 mem"
  assumes "ld64 m a = 0" and "region a 8 \<inter> region q (unat n) = {}" and "region a 8 \<inter> region src (unat n) = {}"
  shows "st64 (place q src n (st64 m a v)) a 0 = place q src n m"
proof
  fix x
  have z: "st64 (place q src n (st64 m a v)) a 0 x = 0" if "x \<in> region a 8"
    using that by (simp add: st64_def wr_apply in_region_iff)
  have c: "src + (x - q) \<notin> region a 8" if "x \<in> region q (unat n)"
  proof -
    have "src + (x - q) \<in> region src (unat n)" using that by (simp add: in_region_iff)
    then show ?thesis using assms(3) by blast
  qed
  show "st64 (place q src n (st64 m a v)) a 0 x = place q src n m x"
  proof (cases "x \<in> region a 8")
    case True
    then have "place q src n m x = 0" using assms(1,2) ld64_zero_bytes [OF assms(1)] by (auto simp: place_def)
    then show ?thesis using z [OF True] by simp
  next
    case False
    then show ?thesis using c by (auto simp: l64.st_frame place_def)
  qed
qed

lemma load_segment_run:
  assumes "paged s" and "0x400000 \<le> unat loadAddr" and "loadable loadAddr modStart ph"
  shows "load_segment s root_page loadAddr modStart ph = ret (s\<lparr>lmem := segment_placed modStart ph (lmem s)\<rparr>)"
proof (cases "p_type ph = PT_LOAD")
  case False
  then show ?thesis by (simp add: load_segment_def segment_placed_def)
next
  case load: True
  define p :: u32 where "p = ucast (p_paddr ph)"
  define n :: u32 where "n = ucast (p_filesz ph)"
  define src :: u32 where "src = modStart + ucast (p_offset ph)"
  define q where "q = p AND - 0x200000"
  define dst where "dst = p - q + 0x400000"
  have c: "unat (ucast (p_memsz ph) :: u32) \<le> 0x200000" "loadAddr \<le> q" "unat p mod 0x200000 + unat n \<le> 0x200000"
    "unat src + unat n \<le> 0x400000" "region src (unat n) \<inter> region 0x101000 0x1000 = {}"
    using assms(3) load by (simp_all only: loadable_def Let_def p_def n_def src_def q_def unat_and_lit_32)
  have q: "q AND 0x1FFFFF = 0" "unat q = unat p - unat p mod 0x200000" "unat q \<le> unat p" "unat (p - q) = unat p mod 0x200000"
    unfolding q_def by (rule page_aligned_32 unat_page_32 page_split_32)+
  have ql: "0x400000 \<le> unat q" using c(2) assms(2) by (simp add: word_le_nat_alt)
  have dst: "unat dst = unat p mod 0x200000 + 0x400000"
    unfolding dst_def using q(4) by (subst unat_add_small) (simp_all add: less_trans [OF mod_less_divisor])
  have pn: "unat p + unat n \<le> 2 ^ 32"
  proof -
    obtain k where k: "unat q = k * 0x200000" using q(2) by (metis minus_mod_eq_div_mult)
    then have "k < 2048" using unat_lt_32 [of q] by simp
    moreover have "unat p = unat q + unat p mod 0x200000" using q(2) by simp
    ultimately have "unat p + unat n \<le> 4294967296" using c(3) k by linarith
    then show ?thesis by simp
  qed
  let ?a = "elem (lpage 1) 8 2"
  define s1 where "s1 = lput64 s (lpage 1) (of_nat 2) (ucast q OR 0x81)"
  have g: "lgeom s" and e0: "lentry s 0 0 = 0x101001" "lentry s 1 2 = 0" using assms(1) by (simp_all add: paged_def)
  note pl = put_lentry [where n = 1 and k = 2 and v = "ucast q OR 0x81", OF _ _ g, folded s1_def, simplified]
  have "(0x80 :: u64) OR 0x81 = 0x81" by simp
  then have m1: "pae_map s root_page 0x400000 (ucast q) 0x80 = ret s1"
    using pae_map_present [OF e0(1), of "0x400000" "ucast q" "0x80"]
    by (simp add: pae_pdpti_def pae_pdi_def s1_def or.assoc)
  have cr: "cr3 s = 0x100000" "current_vaddr s = 0x100000" "cr0_pg s" "cr4_pae s" using assms(1) by (simp_all add: paged_def)
  have "s1\<lparr>current_vaddr := 0x100000, cr3 := 0x100000\<rparr> = s1"
    using cr by (simp add: s1_def lput64_def)
  then have set1: "pm_set s1 root_page = ret s1" by (simp add: pm_set_root)
  have d1: "directory s1 (identity_entries(2 := ucast q OR 0x81))"
    using assms(1) pl cr by (auto simp: directory_def paged_def identity_entries_def s1_def)
  have rq: "x \<in> region p (unat n) \<longleftrightarrow> unat p \<le> unat x \<and> unat x < unat p + unat n" for x
    using pn by (intro in_region_nat) simp
  have rs: "x \<in> region src (unat n) \<longleftrightarrow> unat src \<le> unat x \<and> unat x < unat src + unat n" for x
    using c(4) by (intro in_region_nat) simp
  have cp: "copy_mapped s1 dst src n 0 = ret (s1\<lparr>lmem := place p src n (lmem s1)\<rparr>)"
  proof (rule copy_mapped_run)
    fix j :: u32 and s' assume j: "unat j < unat n" and e: "s' = s1\<lparr>lmem := lmem s'\<rparr>"
      and fr: "\<forall>x. x \<notin> region p (unat n) \<longrightarrow> lmem s' x = lmem s1 x"
    have f: "cr0_pg s' = cr0_pg s1" "cr4_pae s' = cr4_pae s1" "cr3 s' = cr3 s1"
      by (subst e; simp)+
    have "lmem s' x = lmem s1 x" if "x \<in> region 0x100000 0x100000" for x
      using that fr ql q(3) by (simp add: rq region_pages)
    then have d: "directory s' (identity_entries(2 := ucast q OR 0x81))"
      by (rule directory_cong [OF d1 _ f])
    have "unat (src + j) = unat src + unat j" "unat (dst + j) = unat dst + unat j"
      using j c(3,4) dst by (subst unat_add_small; simp)+
    then show "translate s' (src + j) = Some (src + j) \<and> translate s' (dst + j) = Some (p + j)"
      using translate_window [OF d q(1)] j c(3,4) dst by (simp add: dst_def)
  next
    show "region src (unat n) \<inter> region p (unat n) = {}"
      using c(4) ql q(3) by (auto simp: rq rs)
  qed
  let ?s2 = "s1\<lparr>lmem := place p src n (lmem s1)\<rparr>"
  have sub: "region ?a 8 \<subseteq> region 0x101000 0x1000" using lentry_sub [of 2 1] by (simp add: lpage_lits)
  have "region ?a 8 \<inter> region p (unat n) = {}" "region ?a 8 \<inter> region src (unat n) = {}"
  proof -
    have "x \<notin> region p (unat n)" if "x \<in> region 0x101000 0x1000" for x
      using that ql q(3) region_lpage [of 1 x] by (simp add: lpage_lits rq)
    then show "region ?a 8 \<inter> region p (unat n) = {}" using sub by blast
    show "region ?a 8 \<inter> region src (unat n) = {}" using sub c(5) by blast
  qed
  moreover have "ld64 (lmem s) ?a = 0" using e0(2) by (simp add: lentry_eq)
  moreover have "lmem s1 = st64 (lmem s) ?a (ucast q OR 0x81)" by (simp add: s1_def elem_def)
  ultimately have restored: "st64 (place p src n (lmem s1)) ?a 0 = place p src n (lmem s)"
    using st64_restored by simp
  have "lat64 ?s2 0x100000 0 = 0x101001"
  proof -
    have "lentry ?s2 0 0 = lentry s1 0 0" using ql q(3)
      by (intro lentry_cong) (auto simp: place_def rq region_lpage)
    also have "\<dots> = 0x101001" using pl(2) [of 0 0] e0(1) by simp
    finally show ?thesis by (simp add: lentry_def lpage_lits)
  qed
  then have "pae_unmap ?s2 root_page 0x400000 = s\<lparr>lmem := place p src n (lmem s)\<rparr>"
    using restored by (simp add: pae_unmap_def pae_pdpti_def pae_pdi_def table_ptr_def root_page_def lput64_def s1_def
        elem_def lpage_lits)
  moreover have "(s\<lparr>lmem := m\<rparr>)\<lparr>current_vaddr := 0x100000, cr3 := 0x100000\<rparr> = s\<lparr>lmem := m\<rparr>" for m
    using cr by simp
  ultimately show ?thesis
    using load c(1,2) m1 set1 cp
    by (simp add: load_segment_def Let_def p_def [symmetric] n_def [symmetric] src_def [symmetric] q_def [symmetric]
        dst_def [symmetric] pm_set_root segment_placed_def word_le_nat_alt)
qed

section \<open>All segments\<close>

definition program_headers :: "loader \<Rightarrow> u32 \<Rightarrow> nat \<Rightarrow> Elf64_Phdr list" where
  "program_headers s elf n = map (\<lambda>k. read_Phdr (view s) (elf_programHeader (view s) elf (of_nat k))) [0..<n]"

text \<open>The file is valid: its headers are mapped and every segment can be loaded.\<close>

definition valid_file :: "loader \<Rightarrow> u32 \<Rightarrow> u32 \<Rightarrow> nat \<Rightarrow> bool" where
  "valid_file s loadAddr elf n \<longleftrightarrow> unat elf + 64 \<le> 0x400000 \<and>
     (\<forall>k<n. unat (elf_programHeader (view s) elf (of_nat k)) + 56 \<le> 0x400000) \<and>
     (\<forall>h\<in>set (program_headers s elf n). loadable loadAddr elf h)"

definition target :: "Elf64_Phdr \<Rightarrow> u32 set" where
  "target h = (if p_type h = PT_LOAD then region (ucast (p_paddr h)) (unat (ucast (p_filesz h) :: u32)) else {})"

lemma segment_placed_apply:
  "segment_placed elf h m x = (if x \<in> target h then m (elf + ucast (p_offset h) + (x - ucast (p_paddr h))) else m x)"
  by (simp add: segment_placed_def target_def place_def)

text \<open>Targets lie at or behind the load address, sources before it.\<close>

lemma loadable_target:
  assumes "loadable loadAddr elf h" and "0x400000 \<le> unat loadAddr" and "x \<in> target h"
  shows "0x400000 \<le> unat x" and "unat (elf + ucast (p_offset h) + (x - ucast (p_paddr h))) < 0x400000"
proof -
  define p :: u32 where "p = ucast (p_paddr h)"
  define n where "n = unat (ucast (p_filesz h) :: u32)"
  define src :: u32 where "src = elf + ucast (p_offset h)"
  have t: "p_type h = PT_LOAD" and x: "unat (x - p) < n"
    using assms(3) by (auto simp: target_def p_def n_def in_region_iff split: if_splits)
  have c: "loadAddr \<le> p AND - 0x200000" "unat p mod 0x200000 + n \<le> 0x200000" "unat src + n \<le> 0x400000"
    using assms(1) t by (simp_all only: loadable_def Let_def p_def n_def src_def unat_and_lit_32)
  have ge: "0x400000 \<le> unat p" using c(1) assms(2) unat_page_32(2) [of p] by (simp add: word_le_nat_alt)
  have "unat p + n \<le> 2 ^ 32"
  proof -
    have "unat p = unat p div 0x200000 * 0x200000 + unat p mod 0x200000" by simp
    moreover have "unat p div 0x200000 < 2048" using unat_lt_32 [of p] by (simp add: div_less_iff_less_mult)
    ultimately have "unat p + n \<le> 4294967296" using c(2) by linarith
    then show ?thesis by simp
  qed
  then have "x \<in> region p n \<longleftrightarrow> unat p \<le> unat x \<and> unat x < unat p + n" by (intro in_region_nat) simp
  then show "0x400000 \<le> unat x" using ge x by (simp add: in_region_iff)
  have "unat (src + (x - p)) = unat src + unat (x - p)" using x c(3) by (subst unat_add_small) simp_all
  then show "unat (elf + ucast (p_offset h) + (x - ucast (p_paddr h))) < 0x400000"
    using x c(3) by (simp add: src_def p_def)
qed

lemma segment_placed_low:
  assumes "loadable loadAddr elf h" and "0x400000 \<le> unat loadAddr" and "unat x < 0x400000"
  shows "segment_placed elf h m x = m x"
  using loadable_target(1) [OF assms(1,2), of x] assms(3) by (auto simp: segment_placed_apply)

lemma paged_above:
  assumes "paged s" and "\<And>x. unat x < 0x400000 \<Longrightarrow> m x = lmem s x"
  shows "paged (s\<lparr>lmem := m\<rparr>)" and "view (s\<lparr>lmem := m\<rparr>) = view s"
proof -
  let ?s = "s\<lparr>lmem := m\<rparr>"
  have g: "lgeom s" using assms(1) by (simp add: paged_def)
  have "lentry ?s n k = lentry s n k" if "n < 256" "k < 512" for n k
    using that assms(2) by (intro lentry_cong) (auto simp: region_lpage)
  moreover have "ltracked ?s n = ltracked s n" if "n < 256" for n
    using that assms(2) g by (intro ltracked_cong) (auto simp: region_tracker lgeom_def)
  ultimately show p: "paged ?s" using assms(1) by (simp add: paged_def lgeom_def)
  show "view ?s = view s" using assms(2) by (auto simp: view_paged [OF assms(1)] view_paged [OF p])
qed

lemma load_segments_run:
  assumes "paged s" and "0x400000 \<le> unat loadAddr" and "valid_file s loadAddr elf (unat n)"
  shows "load_segments s root_page loadAddr elf n 0 =
    ret (s\<lparr>lmem := fold (segment_placed elf) (program_headers s elf (unat n)) (lmem s)\<rparr>)"
proof -
  let ?hs = "program_headers s elf (unat n)"
  note v = assms(3) [unfolded valid_file_def]
  have low: "fold (segment_placed elf) hs m x = m x" if "unat x < 0x400000" "set hs \<subseteq> set ?hs" for hs m x
    using that(2)
  proof (induction hs arbitrary: m)
    case (Cons h hs)
    then have "loadable loadAddr elf h" using v by auto
    from segment_placed_low [OF this assms(2) that(1)] show ?case using Cons by simp
  qed simp
  define st where "st i = s\<lparr>lmem := fold (segment_placed elf) (take i ?hs) (lmem s)\<rparr>" for i
  have st: "paged (st i)" "view (st i) = view s" for i
    unfolding st_def using low set_take_subset [of i ?hs] by (intro paged_above [OF assms(1)]; blast)+
  have "load_segments (st (unat i)) root_page loadAddr elf n i = ret (st (unat n))" if "i \<le> n" for i
    using that
  proof (induction "unat n - unat i" arbitrary: i)
    case 0
    then have "i = n" by (simp add: word_le_nat_alt word_unat_eq_iff)
    then show ?case by (subst load_segments.simps) simp
  next
    case (Suc d)
    then have lt: "i < n" "unat i < unat n" by (simp_all add: word_less_nat_alt)
    then have u: "unat (i + 1) = Suc (unat i)" by (simp add: unat_suc_less)
    let ?p = "elf_programHeader (view s) elf i" and ?h = "?hs ! unat i"
    have h: "?h = read_Phdr (view s) ?p" using lt by (simp add: program_headers_def)
    have l: "length ?hs = unat n" by (simp add: program_headers_def)
    then have "loadable loadAddr elf ?h" using v lt nth_mem [of "unat i" ?hs] by auto
    then have seg: "load_segment (st (unat i)) root_page loadAddr elf ?h =
        ret (st (unat i)\<lparr>lmem := segment_placed elf ?h (lmem (st (unat i)))\<rparr>)"
      by (rule load_segment_run [OF st(1) assms(2)])
    have nx: "st (unat i)\<lparr>lmem := segment_placed elf ?h (lmem (st (unat i)))\<rparr> = st (unat (i + 1))"
      using l lt u by (simp add: st_def take_Suc_conv_app_nth)
    have "unat ?p + 56 \<le> 0x400000" using v lt(2) by (metis of_nat_unat ucast_id)
    then have "accessible (st (unat i)) elf 64" "accessible (st (unat i)) ?p 56"
      using v by (auto intro: accessible_paged [OF st(1)])
    then have "load_segments (st (unat i)) root_page loadAddr elf n i =
        load_segments (st (unat (i + 1))) root_page loadAddr elf n (i + 1)"
      using lt seg h nx by (subst load_segments.simps) (simp add: reads_def st(2) Let_def)
    moreover have "d = unat n - unat (i + 1)" "i + 1 \<le> n" using Suc.hyps(2) u by (simp_all add: word_le_nat_alt)
    ultimately show ?case using Suc.hyps(1) by simp
  qed
  from this [of 0] show ?thesis by (simp add: st_def program_headers_def)
qed

end
