(* ===== verification/HandOver.thy ===== *)
theory HandOver
  imports LoaderProps KernelStart
begin

text \<open>
  From the loader to the kernel: the four-level tables the loader builds over its own, the record
  with the checksum, and the composition with the start of the kernel.
\<close>

unbundle bit_operations_syntax

section \<open>The tables for the kernel\<close>

lemma pm64_map_present:
  assumes "lentry s 0 0 = 0x102001" and "lentry s 2 0 = 0x103001"
    and "unat v < 0x40000000"
  shows "pm64_map s root_page v pa flags = ret (lput64 s (lpage 3) (of_nat (unat v div 0x200000)) (pa OR ucast (flags OR 0x81)))"
proof -
  have d: "drop_bit 39 v = 0" "drop_bit 30 v = 0"
    using assms(3) by (simp_all add: word_unat_eq_iff unat_shr)
  have "unat (drop_bit 21 v AND 0x1FF) = unat v div 0x200000"
    using assms(3) by (simp only: unat_and_lit unat_shr) (simp add: div_less_iff_less_mult)
  moreover have "unat v div 0x200000 < 512" using assms(3) by (simp add: div_less_iff_less_mult)
  ultimately have i: "(ucast (drop_bit 21 v AND 0x1FF) :: u32) = of_nat (unat v div 0x200000)"
    by (metis of_nat_unat)
  have "lat64 s 0x100000 0 = 0x102001" "lat64 s 0x102000 0 = 0x103001"
    using assms(1,2) by (simp_all add: lentry_def lpage_lits)
  then show ?thesis using d i
    by (simp add: pm64_map_def Let_def table_ptr_def root_page_def lpage_lits)
qed

lemma pm64_first_map:
  assumes "lgeom s" and "lentry s 0 0 = 0" and "\<forall>n<256. ltracked s n \<longleftrightarrow> n < 2"
  obtains s' where "pm64_map s root_page 0 0 0x80 = ret s'" "ltabs s s'"
    "\<And>k. k < 512 \<Longrightarrow> lentry s' 0 k = (if k = 0 then 0x102001 else lentry s 0 k)"
    "\<And>k. k < 512 \<Longrightarrow> lentry s' 2 k = (if k = 0 then 0x103001 else 0)"
    "\<And>k. k < 512 \<Longrightarrow> lentry s' 3 k = (if k = 0 then 0x81 else 0)"
    "\<And>n. n < 256 \<Longrightarrow> ltracked s' n \<longleftrightarrow> n < 4"
proof -
  have "first_free s 2" using assms(3) by (simp add: first_free_def)
  then obtain s1 where s1: "loader_alloc s = ret (lpage 2, s1)" "loader_taken s 2 s1"
    using assms(1) by (rule loader_alloc_first)
  note t1 = s1(2) [unfolded loader_taken_def]
  have g1: "lgeom s1" using t1 assms(1) ltabs_fields(6) by blast
  have "first_free s1 3" using t1 assms(3) by (auto simp: first_free_def less_Suc_eq numeral_3_eq_3)
  then obtain s2 where s2: "loader_alloc s1 = ret (lpage 3, s2)" "loader_taken s1 3 s2"
    using g1 by (rule loader_alloc_first)
  note t2 = s2(2) [unfolded loader_taken_def]
  have g2: "lgeom s2" using t2 g1 ltabs_fields(6) by blast
  define s3 where "s3 = s2\<lparr>lmem := loader_memset (lmem s2) (lpage 2) 0 0x1000\<rparr>"
  note m1 = memset_lpage [where n = 2, OF _ g2, folded s3_def, simplified]
  have g3: "lgeom s3" using m1(1) g2 ltabs_fields(6) by blast
  define s4 where "s4 = s3\<lparr>lmem := loader_memset (lmem s3) (lpage 3) 0 0x1000\<rparr>"
  note m2 = memset_lpage [where n = 3, OF _ g3, folded s4_def, simplified]
  have g4: "lgeom s4" using m2(1) g3 ltabs_fields(6) by blast
  define s5 where "s5 = lput64 s4 (lpage 3) (of_nat 0) 0x81"
  note p1 = put_lentry [where n = 3 and k = 0 and v = "0x81", OF _ _ g4, folded s5_def, simplified]
  have g5: "lgeom s5" using g4 by (simp add: s5_def)
  define s6 where "s6 = lput64 s5 (lpage 2) (of_nat 0) 0x103001"
  note p2 = put_lentry [where n = 2 and k = 0 and v = "0x103001", OF _ _ g5, folded s6_def, simplified]
  have g6: "lgeom s6" using g5 by (simp add: s6_def)
  define s7 where "s7 = lput64 s6 (lpage 0) (of_nat 0) 0x102001"
  note p3 = put_lentry [where n = 0 and k = 0 and v = "0x102001", OF _ _ g6, folded s7_def, simplified]
  have "lat64 s 0x100000 0 = 0" using assms(2) by (simp add: lentry_def lpage_lits)
  then have m: "pm64_map s root_page 0 0 0x80 = ret s7"
    using s1(1) s2(1) by (simp add: pm64_map_def root_page_def lpage_lits s3_def s4_def s5_def s6_def s7_def)
  have l: "ltabs s s7" using t1 t2 m1(1) m2(1) p1(1) p2(1) p3(1) ltabs_trans by metis
  show ?thesis
  proof (rule that [OF m l])
    show "lentry s7 0 k = (if k = 0 then 0x102001 else lentry s 0 k)" if "k < 512" for k
      using that t1 t2 by (simp add: p3(2) p2(2) p1(2) m2(2) m1(2))
    show "lentry s7 2 k = (if k = 0 then 0x103001 else 0)" if "k < 512" for k
      using that by (simp add: p3(2) p2(2) p1(2) m2(2) m1(2))
    show "lentry s7 3 k = (if k = 0 then 0x81 else 0)" if "k < 512" for k
      using that by (simp add: p3(2) p2(2) p1(2) m2(2) m1(2))
    show "ltracked s7 n \<longleftrightarrow> n < 4" if "n < 256" for n
      using that t1 t2 assms(3) by (auto simp: p3(3) p2(3) p1(3) m2(3) m1(3))
  qed
qed

text \<open>What the loader hands over: a root, a PDPT and a directory with three entries.\<close>

definition kernel_entries :: "u32 \<Rightarrow> nat \<Rightarrow> nat \<Rightarrow> u64" where
  "kernel_entries loadAddr j k = (if k = j then ucast loadAddr OR 0x81 else identity_entries k)"

definition handed :: "u32 \<Rightarrow> nat \<Rightarrow> loader \<Rightarrow> bool" where
  "handed loadAddr j s \<longleftrightarrow> lgeom s \<and> (\<forall>n<256. ltracked s n \<longleftrightarrow> n < 4) \<and>
     (\<forall>k<512. lentry s 0 k = (if k = 0 then 0x102001 else 0)) \<and>
     (\<forall>k<512. lentry s 2 k = (if k = 0 then 0x103001 else 0)) \<and>
     (\<forall>k<512. lentry s 3 k = kernel_entries loadAddr j k)"

lemma build_kernel_tables_run:
  assumes "lgeom s" and "\<forall>n<256. ltracked s n \<longleftrightarrow> n < 2"
    and "unat e < 0x40000000"
  obtains s' where "build_kernel_tables s loadAddr e = ret s'" "handed loadAddr (unat e div 0x200000) s'"
    "cr3 s' = 0x100000" "cr0_pg s' = cr0_pg s" "dataTracker s' = dataTracker s"
    "\<And>x. x \<notin> region 0x100000 0x100000 \<Longrightarrow> x \<notin> region (dataTracker s) 32 \<Longrightarrow> lmem s' x = lmem s x"
proof -
  let ?j = "unat e div 0x200000"
  have j: "?j < 512" using assms(3) by (simp add: div_less_iff_less_mult)
  define s1 where "s1 = pm64_init s root_page"
  have "s1 = s\<lparr>lmem := loader_memset (lmem s) (lpage 0) 0 0x1000\<rparr>"
    by (simp add: s1_def pm64_init_def root_page_def lpage_lits)
  note m = memset_lpage [where n = 0, OF _ assms(1), folded this, simplified]
  have g1: "lgeom s1" using m(1) assms(1) ltabs_fields(6) by blast
  have "lentry s1 0 0 = 0" "\<forall>n<256. ltracked s1 n \<longleftrightarrow> n < 2" using m assms(2) by auto
  then obtain s2 where s2: "pm64_map s1 root_page 0 0 0x80 = ret s2" "ltabs s1 s2"
    "\<And>k. k < 512 \<Longrightarrow> lentry s2 0 k = (if k = 0 then 0x102001 else lentry s1 0 k)"
    "\<And>k. k < 512 \<Longrightarrow> lentry s2 2 k = (if k = 0 then 0x103001 else 0)"
    "\<And>k. k < 512 \<Longrightarrow> lentry s2 3 k = (if k = 0 then 0x81 else 0)"
    "\<And>n. n < 256 \<Longrightarrow> ltracked s2 n \<longleftrightarrow> n < 4"
    by (rule pm64_first_map [OF g1]) (simp only:)
  have g2: "lgeom s2" using s2(2) g1 ltabs_fields(6) by blast
  define s3 where "s3 = lput64 s2 (lpage 3) (of_nat 1) 0x200081"
  note p = put_lentry [where n = 3 and k = 1 and v = "0x200081", OF _ _ g2, folded s3_def, simplified]
  have m3: "pm64_map s2 root_page 0x200000 0x200000 0x80 = ret s3"
    using s2(3,4) [of 0] by (subst pm64_map_present) (simp_all add: s3_def)
  have g3: "lgeom s3" using g2 by (simp add: s3_def)
  define s4 where "s4 = lput64 s3 (lpage 3) (of_nat ?j) (ucast loadAddr OR 0x81)"
  note q = put_lentry [where n = 3 and v = "ucast loadAddr OR 0x81", OF _ j g3, folded s4_def, simplified]
  have m4: "pm64_map s3 root_page e (ucast loadAddr) 0x80 = ret s4"
    using s2(3,4) [of 0] p(2) assms(3) by (subst pm64_map_present) (simp_all add: s4_def)
  let ?s = "s4\<lparr>current_vaddr := 0x100000, cr3 := 0x100000\<rparr>"
  have run: "build_kernel_tables s loadAddr e = ret ?s"
    using s2(1) m3 m4 by (simp add: build_kernel_tables_def Let_def s1_def [symmetric] pm_set_root)
  have t: "ltabs s s4" using m(1) s2(2) p(1) q(1) ltabs_trans by metis
  have same: "lentry ?s n k = lentry s4 n k" "ltracked ?s n = ltracked s4 n" "lgeom ?s = lgeom s4" for n k
    by (simp_all add: lentry_def ltracked_def lat64_def lat32_def lgeom_def)
  show ?thesis
  proof (rule that [OF run])
    have "lentry s4 3 k = kernel_entries loadAddr ?j k" if "k < 512" for k
      using that s2(5) by (simp add: q(2) p(2) kernel_entries_def identity_entries_def)
    moreover have "lgeom s4" using g3 by (simp add: s4_def)
    moreover have "lentry s4 0 k = (if k = 0 then 0x102001 else 0)" "lentry s4 2 k = (if k = 0 then 0x103001 else 0)"
      if "k < 512" for k
      using that s2(3,4) m(2) by (simp_all add: q(2) p(2))
    moreover have "ltracked s4 n \<longleftrightarrow> n < 4" if "n < 256" for n
      using that s2(6) by (simp add: q(3) p(3))
    ultimately show "handed loadAddr ?j ?s" unfolding handed_def same by blast
    show "cr0_pg ?s = cr0_pg s" "dataTracker ?s = dataTracker s" using ltabs_fields [OF t] by simp_all
    show "lmem ?s x = lmem s x" if "x \<notin> region 0x100000 0x100000" "x \<notin> region (dataTracker s) 32" for x
      using t that by (simp add: ltabs_def)
  qed simp
qed

section \<open>The record\<close>

lemma byte_sum_cong: "(\<And>i. i < n \<Longrightarrow> m (p + of_nat i) = m' (p' + of_nat i)) \<Longrightarrow> byte_sum m p n = byte_sum m' p' n"
  by (induction n) simp_all

lemma checksum_cancels: "(S + ucast (ucast (- (S AND 0xFF)) :: u8)) AND 0xFF = 0"
  for S :: u32
proof -
  have m: "(0xFF :: u32) = mask 8" by (simp add: mask_eq_exp_minus_1)
  have a: "unat (x AND 0xFF) = unat x mod 256" for x :: u32
    by (simp only: m unat_and_mask) simp
  have u: "(ucast (ucast x :: u8) :: u32) = x AND 0xFF" for x :: u32
    unfolding m by (rule bit_word_eqI) (auto simp: bit_simps)
  let ?r = "unat S mod 256" and ?x = "S AND 0xFF"
  have r: "?r < 256" by simp
  have "unat (- x) = (if unat x = 0 then 0 else 4294967296 - unat x)" for x :: u32
    using unat_sub_if_size [of 0 x] by (simp add: word_size)
  from this [of ?x] have "unat (- ?x) = (if ?r = 0 then 0 else 4294967296 - ?r)" by (simp only: a)
  moreover have "4294967296 - ?r = (256 - ?r) + 16777215 * 256" using r by simp
  ultimately have v: "unat (- ?x) mod 256 = (256 - ?r) mod 256"
    by (cases "?r = 0") (simp, simp only: mod_mult_self1 if_False)
  have "unat ((S + (- ?x AND 0xFF)) AND 0xFF) = (unat S + unat (- ?x) mod 256) mod 4294967296 mod 256"
    by (simp only: a unat_word_ariths) simp
  also have "\<dots> = (unat S + unat (- ?x) mod 256) mod 256" by (rule mod_mod_cancel) simp
  also have "\<dots> = (?r + (256 - ?r) mod 256) mod 256" unfolding v by (metis mod_add_left_eq)
  also have "\<dots> = 0" using r by (cases "?r = 0") auto
  finally show ?thesis unfolding u by (simp only: unat_eq_0)
qed

text \<open>What the kernel finds in the record.\<close>

definition record_bytes :: "loader \<Rightarrow> u32 \<Rightarrow> u32 \<Rightarrow> 32 mem \<Rightarrow> bool" where
  "record_bytes s ld mb m \<longleftrightarrow>
     (\<forall>i<5. ld32 m (elem ld 4 i) = [LOADER_MAGIC, 0x100000, 0x100000, dataTracker s, mb] ! i) \<and>
     byte_sum m ld sizeof_LoaderData AND 0xFF = 0"

lemma fill_loader_data_run:
  fixes s :: loader and ld mb :: u32
  defines "s' \<equiv> fill_loader_data s ld mb"
  shows "s' = s\<lparr>lmem := lmem s'\<rparr>" and "record_bytes s ld mb (lmem s')"
    and "x \<notin> region ld 21 \<Longrightarrow> lmem s' x = lmem s x"
proof -
  define m5 where "m5 = st32 (st32 (st32 (st32 (st32 (lmem s) (elem ld 4 0) LOADER_MAGIC) (elem ld 4 1) 0x100000)
      (elem ld 4 2) 0x100000) (elem ld 4 3) (dataTracker s)) (elem ld 4 4) mb"
  define m6 where "m6 = m5(ld + 20 := 0)"
  define c :: u8 where "c = ucast (- (byte_sum m6 ld sizeof_LoaderData AND 0xFF))"
  have e: "s' = s\<lparr>lmem := m6(ld + 20 := c)\<rparr>"
    by (simp add: s'_def fill_loader_data_def Let_def c_def m6_def m5_def elem_def trackingPtr_def
        const_range_length_def paging_start_def paging_end_def)
  then show "s' = s\<lparr>lmem := lmem s'\<rparr>" by simp
  have "ld32 (m6(ld + 20 := c)) (elem ld 4 i) = [LOADER_MAGIC, 0x100000, 0x100000, dataTracker s, mb] ! i" if i: "i < 5" for i
  proof -
    have "ld + 20 \<notin> region (elem ld 4 i) 4"
    proof -
      have "unat (ld + 20 - elem ld 4 i) = 20 - 4 * i"
        using i unat_of_nat_small [where ?'a = 32, of "4 * i"]
        by (simp only: elem_def add_diff_cancel_left) (simp add: unat_sub_ge)
      then show ?thesis using i by (simp add: in_region_iff)
    qed
    then have "ld32 (m6(ld + 20 := c)) (elem ld 4 i) = ld32 m5 (elem ld 4 i)"
      by (intro l32.ld_cong) (auto simp: m6_def)
    also have "\<dots> = [LOADER_MAGIC, 0x100000, 0x100000, dataTracker s, mb] ! i"
    proof -
      consider "i = 0" | "i = 1" | "i = 2" | "i = 3" | "i = 4" using i by linarith
      then show ?thesis by cases (simp_all add: m5_def l32.ld_elem_st_elem)
    qed
    finally show ?thesis .
  qed
  moreover have "byte_sum (m6(ld + 20 := c)) ld sizeof_LoaderData AND 0xFF = 0"
  proof -
    have z: "sizeof_LoaderData = Suc 20" by (simp add: sizeof_LoaderData_def)
    have "ld + of_nat i \<noteq> ld + 20" if "i < 20" for i
    proof
      assume "ld + of_nat i = ld + 20"
      then have "(of_nat i :: u32) = 20" by simp
      then have "unat (of_nat i :: u32) = 20" by simp
      then show False using that by (simp add: unat_of_nat_small)
    qed
    then have "byte_sum (m6(ld + 20 := c)) ld 20 = byte_sum m6 ld 20" by (intro byte_sum_cong) auto
    moreover have "byte_sum m6 ld sizeof_LoaderData = byte_sum m6 ld 20"
      by (simp only: z byte_sum.simps) (simp add: m6_def)
    moreover have "byte_sum (m6(ld + 20 := c)) ld sizeof_LoaderData = byte_sum (m6(ld + 20 := c)) ld 20 + ucast c"
      by (simp only: z byte_sum.simps) simp
    ultimately have "byte_sum (m6(ld + 20 := c)) ld sizeof_LoaderData = byte_sum m6 ld 20 + ucast c"
      "c = ucast (- (byte_sum m6 ld 20 AND 0xFF))"
      unfolding c_def by simp_all
    then show ?thesis by (simp only: checksum_cancels)
  qed
  ultimately show "record_bytes s ld mb (lmem s')" by (simp add: record_bytes_def e)
  show "lmem s' x = lmem s x" if "x \<notin> region ld 21"
  proof -
    have "x \<notin> region (elem ld 4 i) 4" if "i < 5" for i
      using that \<open>x \<notin> region ld 21\<close> region_elem_sub [of 4 i 21 ld] by auto
    moreover have "x \<noteq> ld + 20" using that by (auto simp: in_region_iff)
    ultimately show ?thesis by (simp add: e m6_def m5_def l32.st_frame)
  qed
qed

end
