(* ===== verification/HandOverView.thy ===== *)
theory HandOverView
  imports HandOver
begin

text \<open>
  The kernel's view of what the loader leaves: the first 4 MiB are mapped to themselves, so the
  64-bit loads of the kernel read what the 32-bit stores of the loader wrote.  The tables and the
  bit field are what \<open>retainLoaderPaging\<close> expects (\<open>loader_left\<close>).
\<close>

unbundle bit_operations_syntax

section \<open>The same bytes\<close>

definition identity_below :: "64 mem \<Rightarrow> 32 mem \<Rightarrow> bool" where
  "identity_below M m \<longleftrightarrow> (\<forall>x. unat x < 0x400000 \<longrightarrow> M (ucast x) = m x)"

lemma ucast_offset:
  fixes a :: u32
  assumes "unat a + k < 2 ^ 32"
  shows "(ucast a :: u64) + of_nat k = ucast (a + of_nat k)" and "unat (a + of_nat k) = unat a + k"
proof -
  have k: "unat (of_nat k :: u32) = k" "unat (of_nat k :: u64) = k"
    using assms by (intro unat_of_nat_small; simp)+
  show u: "unat (a + of_nat k) = unat a + k" using assms k by (simp add: unat_add_small)
  have "unat ((ucast a :: u64) + of_nat k) = unat a + k"
    using assms k by (subst unat_add_small) (simp_all add: unat_ucast_32_64)
  then show "(ucast a :: u64) + of_nat k = ucast (a + of_nat k)"
    using u by (simp only: word_unat_eq_iff unat_ucast_32_64)
qed

lemma identity_byte:
  assumes "identity_below M m" and "unat a + k < 0x400000"
  shows "M (ucast a + of_nat k) = m (a + of_nat k)"
  using assms ucast_offset [of a k] by (simp add: identity_below_def)

lemma identity_rd:
  assumes "identity_below M m" and "unat a + n \<le> 0x400000"
  shows "rd n M (ucast a) = (rd n m a :: 'v::len word)"
proof (rule bit_word_eqI)
  fix i
  have "M (ucast a + of_nat (i div 8)) = m (a + of_nat (i div 8))" if "i < 8 * n"
    using assms that by (intro identity_byte) auto
  then show "bit (rd n M (ucast a) :: 'v word) i = bit (rd n m a :: 'v word) i" by (auto simp: bit_rd)
qed

lemma identity_elem:
  fixes a :: u32
  assumes "unat a + sz * Suc i \<le> 0x400000" and "0 < sz"
  shows "elem (ucast a :: u64) sz i = ucast (elem a sz i)" and "unat (elem a sz i) + sz \<le> 0x400000"
  using assms ucast_offset [of a "sz * i"] by (simp_all add: elem_def)

lemma ucast_lpage: "n < 256 \<Longrightarrow> (ucast (lpage n) :: u64) = lp n"
  by (simp only: word_unat_eq_iff unat_ucast_32_64 unat_lpage unat_lp)

lemma kernel_entry:
  assumes "identity_below (mem s) (lmem L)" and "n < 256" and "i < 512"
  shows "at64 s (lp n) i = lentry L n (unat i)"
proof -
  have i: "unat i < 512" using assms(3) by (simp add: word_less_nat_alt)
  note e = identity_elem [of "lpage n" 8 "unat i"]
  have b: "unat (lpage n) + 8 * Suc (unat i) \<le> 0x400000" using assms(2) i by (simp add: unat_lpage)
  have "ld64 (mem s) (elem (lp n) 8 (unat i)) = ld64 (lmem L) (elem (lpage n) 8 (unat i))"
    unfolding ucast_lpage [OF assms(2), symmetric] e(1) [OF b, simplified] ld64_def
    using assms(1) e(2) [OF b] by (intro identity_rd) simp_all
  then show ?thesis using i by (simp add: at64_def elem_word lentry_eq)
qed

lemma kernel_bit:
  assumes "identity_below M (lmem L)" and "lgeom L" and "n < 256"
  shows "was M (ucast (dataTracker L)) n \<longleftrightarrow> ltracked L n"
proof -
  let ?T = "dataTracker L" and ?o = "of_nat (0x1000 * n) :: u32"
  have o: "lpage n - paging_start = ?o" by (simp add: lpage_def paging_start_def)
  have i: "drop_bit 17 ?o = of_nat (n div 32)"
    using tracker_index_lpage [OF assms(3)] by (simp only: tracker_index_def o)
  have u: "unat (of_nat (n div 32) :: u32) = n div 32" using assms(3) by (intro unat_of_nat_small) simp
  have "n div 32 < 8" using assms(3) by simp
  then have b: "unat ?T + 4 * Suc (n div 32) \<le> 0x400000" using assms(2) by (simp add: lgeom_def)
  note e = identity_elem [OF b]
  have "(ucast (of_nat (n div 32) :: u32) :: u64) = of_nat (n div 32)"
    using u by (metis of_nat_unat)
  then have "(ucast ?T :: u64) + 4 * ucast (drop_bit 17 ?o) = ucast (elem ?T 4 (n div 32))"
    unfolding i using e(1) by (simp add: elem_def)
  then have "ld32 M ((ucast ?T :: u64) + 4 * ucast (drop_bit 17 ?o)) = ld32 (lmem L) (elem ?T 4 (n div 32))"
    unfolding ld32_def using assms(1) e(2) by (simp only:) (intro identity_rd, simp_all)
  moreover have "unat (drop_bit 12 ?o AND 0x1F) = n mod 32"
    using lpage_offset [OF assms(3)] by (simp only: unat_and_lit_32 unat_shr o) simp
  ultimately have "was M (ucast ?T) n \<longleftrightarrow> ld32 (lmem L) (elem ?T 4 (n div 32)) AND push_bit (n mod 32) 1 \<noteq> 0"
    unfolding was_def old_bit_def by (simp only:)
  also have "\<dots> \<longleftrightarrow> bit (ld32 (lmem L) (elem ?T 4 (n div 32))) (n mod 32)"
    by (rule and_one_bit_iff) simp
  finally show ?thesis using assms(3) by (simp add: ltracked_eq)
qed

lemma kernel_record:
  assumes "identity_below M (lmem L)" and "record_bytes L ld mb (lmem L)" and "unat ld + 21 \<le> 0x400000"
  shows "loaderPagingBase (read_LoaderData M (ucast ld)) = 0x100000"
    "loaderPagingSize (read_LoaderData M (ucast ld)) = 0x100000"
    "loaderPagingTracking (read_LoaderData M (ucast ld)) = dataTracker L"
    "byte_sum M (ucast ld) sizeof_LoaderData AND 0xFF = 0"
proof -
  have f: "ld32 M (ucast ld + of_nat (4 * i)) = ld32 (lmem L) (elem ld 4 i)" if "i < 5" for i
  proof -
    have b: "unat ld + 4 * Suc i \<le> 0x400000" using that assms(3) by simp
    note e = identity_elem [OF b]
    have "ucast ld + of_nat (4 * i) = (ucast (elem ld 4 i) :: u64)" using e(1) by (simp only: elem_def)
    then show ?thesis unfolding ld32_def using assms(1) e(2) by (simp only:) (intro identity_rd, simp_all)
  qed
  show "loaderPagingBase (read_LoaderData M (ucast ld)) = 0x100000"
    "loaderPagingSize (read_LoaderData M (ucast ld)) = 0x100000"
    "loaderPagingTracking (read_LoaderData M (ucast ld)) = dataTracker L"
    using f [of 1] f [of 2] f [of 3] assms(2) by (simp_all add: read_LoaderData_def record_bytes_def)
  have "byte_sum M (ucast ld) sizeof_LoaderData = byte_sum (lmem L) ld sizeof_LoaderData"
    using assms(1,3) by (intro byte_sum_cong identity_byte) (simp_all add: sizeof_LoaderData_def)
  then show "byte_sum M (ucast ld) sizeof_LoaderData AND 0xFF = 0" using assms(2) by (simp add: record_bytes_def)
qed

section \<open>The tables as the kernel expects them\<close>

definition handed_roles :: "u64 \<Rightarrow> role" where
  "handed_roles t = (if t = 0x100000 then Root else if t = 0x102000 then PdptOf 0
     else if t = 0x103000 then PdOf 0 0 else NoRole)"

lemma lp_lits: "lp 0 = 0x100000" "lp 2 = 0x102000" "lp 3 = 0x103000"
  by (simp_all add: lp_def)

lemma handed_links:
  assumes "identity_below (mem s) (lmem L)" and "handed loadAddr j L" and "i < 512"
  shows "link s 0x100000 i = (if i = 0 then Some 0x102000 else None)"
    and "link s 0x102000 i = (if i = 0 then Some 0x103000 else None)"
proof -
  have i: "unat i < 512" "unat i = 0 \<longleftrightarrow> i = 0" using assms(3) by (simp_all add: word_less_nat_alt unat_eq_0)
  note k = kernel_entry [OF assms(1) _ assms(3)]
  have "at64 s 0x100000 i = (if i = 0 then 0x102001 else 0)" "at64 s 0x102000 i = (if i = 0 then 0x103001 else 0)"
    using k [of 0] k [of 2] assms(2) i by (simp_all add: lp_lits handed_def)
  then show "link s 0x100000 i = (if i = 0 then Some 0x102000 else None)"
    "link s 0x102000 i = (if i = 0 then Some 0x103000 else None)"
    by (cases "i = 0"; simp add: link_def present_def F_PRESENT_def entry_addr_def)+
qed

lemma handed_left:
  assumes "identity_below (mem s) (lmem L)" and "handed loadAddr j L"
    and "record_bytes L ld mb (lmem L)" and "unat ld + 21 \<le> 0x400000"
  shows "loader_left s (read_LoaderData (mem s) (ucast ld)) handed_roles"
proof -
  let ?T = "ucast (dataTracker L) :: u64"
  have g: "lgeom L" using assms(2) by (simp add: handed_def)
  note r = kernel_record [OF assms(1,3,4)]
  note l = handed_links [OF assms(1,2)]
  have "region ?T 32 \<inter> region 0x3FF000 0x660 = {}"
    using g by (intro region_disjoint_nat) (simp_all add: lgeom_def unat_ucast_32_64)
  moreover have "left_from (mem s) ?T 0 t" if "handed_roles t \<noteq> NoRole" for t
  proof -
    have "was (mem s) ?T n" if "n < 4" for n
      using that assms(2) kernel_bit [OF assms(1) g, of n] by (simp add: handed_def)
    moreover have "t = lp 0 \<or> t = lp 2 \<or> t = lp 3"
      using that by (auto simp: handed_roles_def lp_lits split: if_splits)
    then obtain n where "n < 4" "t = lp n" by (elim disjE) (erule that [rotated], simp)+
    ultimately show ?thesis unfolding left_from_def by (intro exI [of _ n]) simp
  qed
  moreover have "handed_roles t = PdptOf i \<longleftrightarrow> i < 512 \<and> link s 0x100000 i = Some t" for t i
    using l(1) [of i] by (auto simp: handed_roles_def)
  moreover have "handed_roles t = PdOf i j \<longleftrightarrow> j < 512 \<and> (\<exists>q. handed_roles q = PdptOf i \<and> link s q j = Some t)" for t i j
  proof -
    have "handed_roles q = PdptOf i \<longleftrightarrow> q = 0x102000 \<and> i = 0" for q
      by (auto simp: handed_roles_def)
    then show ?thesis using l(2) [of j] by (auto simp: handed_roles_def)
  qed
  moreover have "handed_roles t = Root \<longleftrightarrow> t = 0x100000" for t by (simp add: handed_roles_def)
  ultimately show ?thesis by (simp add: loader_left_def r)
qed

text \<open>Nothing above 1 GiB is mapped.\<close>

lemma handed_unmapped:
  assumes "identity_below (mem s) (lmem L)" and "handed loadAddr j L"
    and "0x40000000 \<le> unat v" and "canonical v"
  shows "pml4_get s 0x100000 v = None"
proof -
  have b: "pml4_index v < 512" using assms(4) by (intro pml4_index_bound) (simp add: canonical_def)
  have "pdpt_index v \<noteq> 0" if "pml4_index v = 0"
  proof
    assume "pdpt_index v = 0"
    then have "unat v div 0x40000000 mod 512 = 0"
      by (simp only: pdpt_index_def word_unat_eq_iff unat_and_lit unat_shr) simp
    moreover have "unat v div 0x8000000000 = 0"
      using that by (simp only: pml4_index_def word_unat_eq_iff unat_shr) simp
    ultimately have "unat v div 0x40000000 = 0" by (simp add: div_eq_0_iff)
    then show False using assms(3) by (simp add: div_eq_0_iff)
  qed
  then have "Option.bind (link s 0x100000 (pml4_index v)) (\<lambda>q. link s q (pdpt_index v)) = None"
    using handed_links(1) [OF assms(1,2) b] handed_links(2) [OF assms(1,2) index_bounds(1)] by auto
  then show ?thesis unfolding pml4_get_leaf leaf_def
    by (cases "link s 0x100000 (pml4_index v)") auto
qed

end
