(* ===== verification/HandOverProps.thy ===== *)
theory HandOverProps
  imports HandOverView
begin

text \<open>
  What the loader guarantees: the properties of \<open>load_elf\<close>, \<open>calculateLoadAddr\<close> and \<open>loader_main\<close>,
  the last together with the start of the kernel.
\<close>

unbundle bit_operations_syntax

section \<open>Where the kernel goes\<close>

lemma loader_alignUp_eq:
  "loader_alignUp v 0x200000 = (v + 0x1FFFFF) AND - 0x200000"
  by (simp add: loader_alignUp_def)

lemma loader_alignUp_least:
  assumes "unat v \<le> 0xFFE00000"
  shows "0x200000 dvd unat (loader_alignUp v 0x200000)" "v \<le> loader_alignUp v 0x200000"
    "0x200000 dvd unat b \<Longrightarrow> v \<le> b \<Longrightarrow> loader_alignUp v 0x200000 \<le> b"
proof -
  have "unat (v + 0x1FFFFF) = unat v + 0x1FFFFF" using assms by (subst unat_add_small) simp_all
  then have u: "unat (loader_alignUp v 0x200000) = (unat v + 0x1FFFFF) - (unat v + 0x1FFFFF) mod 0x200000"
    by (simp only: loader_alignUp_eq unat_page_32)
  then have d: "unat (loader_alignUp v 0x200000) = (unat v + 0x1FFFFF) div 0x200000 * 0x200000"
    by (simp only: minus_mod_eq_div_mult)
  show "0x200000 dvd unat (loader_alignUp v 0x200000)" unfolding d by simp
  have m: "(unat v + 0x1FFFFF) mod 0x200000 < 0x200000" by simp
  show "v \<le> loader_alignUp v 0x200000" using u m by (simp add: word_le_nat_alt)
  assume "0x200000 dvd unat b" "v \<le> b"
  then obtain k where k: "unat b = 0x200000 * k" "unat v \<le> unat b" by (auto simp: word_le_nat_alt elim: dvdE)
  then have "unat v + 0x1FFFFF < (k + 1) * 0x200000" by simp
  then have "(unat v + 0x1FFFFF) div 0x200000 < k + 1" by (rule less_mult_imp_div_less)
  then show "loader_alignUp v 0x200000 \<le> b" using d k by (simp add: word_le_nat_alt)
qed

text \<open>Above 0xFFE00000 the sum wraps, and the address is 0.\<close>

lemma loader_alignUp_wraps:
  assumes "0xFFE00000 < unat v"
  shows "loader_alignUp v 0x200000 = 0"
proof -
  have "unat (v + 0x1FFFFF) = unat v + 0x1FFFFF - 4294967296"
    using assms unat_lt_32 [of v] by (simp add: unat_word_ariths mod_if)
  then have "unat (v + 0x1FFFFF) < 0x200000" using unat_lt_32 [of v] by simp
  then show ?thesis by (simp add: loader_alignUp_eq unat_page_32 unat_eq_0 [symmetric] del: unat_eq_0)
qed

definition mod_ends :: "32 mem \<Rightarrow> u32 \<Rightarrow> nat \<Rightarrow> u32 set" where
  "mod_ends m mods n = (\<lambda>i. mod_end (read_mod m (mods + 16 * of_nat i))) ` {..<n}"

definition load_boundary :: "u32 set \<Rightarrow> u32 \<Rightarrow> bool" where
  "load_boundary es a \<longleftrightarrow> 0x200000 dvd unat a \<and> 0x400000 \<le> a \<and> (\<forall>e\<in>es. e \<le> a)"

text \<open>
  What the loop reads besides the ends: the modules themselves, and each command line up to its
  terminating zero.
\<close>

definition cmdline_ends :: "loader \<Rightarrow> u32 \<Rightarrow> bool" where
  "cmdline_ends s p \<longleftrightarrow> p = 0 \<or> (\<exists>k. accessible s p (Suc k) \<and> view s (p + of_nat k) = 0)"

definition mods_readable :: "loader \<Rightarrow> u32 \<Rightarrow> nat \<Rightarrow> bool" where
  "mods_readable s mods n \<longleftrightarrow> (\<forall>i<n. let p = mods + 16 * of_nat i in
     accessible s p 12 \<and> cmdline_ends s (cmdline (read_mod (view s) p)))"

lemma accessible_iff: "accessible s p n \<longleftrightarrow> (\<forall>i<n. translate s (p + of_nat i) \<noteq> None)"
  by (auto simp: accessible_def list_all_iff)

lemma accessible_tail: "accessible s p (Suc n) \<Longrightarrow> accessible s p 1 \<and> accessible s (p + 1) n"
  unfolding accessible_iff All_less_Suc2 by (simp add: add.assoc)

lemma strlen_mapped_returns:
  "accessible s p (Suc k) \<Longrightarrow> view s (p + of_nat k) = 0 \<Longrightarrow> \<exists>r. strlen_mapped s p l = ret r"
proof (induction k arbitrary: p l)
  case 0
  then show ?case by (simp add: strlen_mapped.simps [of s p] reads_def)
next
  case (Suc k)
  note a = accessible_tail [OF Suc.prems(1)]
  have "view s (p + 1 + of_nat k) = 0" using Suc.prems(2) by (simp add: add.assoc)
  then obtain r where "strlen_mapped s (p + 1) (l + 1) = ret r" using Suc.IH a by blast
  then show ?case using a by (simp add: strlen_mapped.simps [of s p] reads_def)
qed

lemma strlen_mapped_faults: "translate s p = None \<Longrightarrow> strlen_mapped s p l = halt PageFault"
  by (simp add: strlen_mapped.simps reads_def accessible_def)

lemma calculateLoadAddr_loop_returns:
  "mods_readable s mods (unat n) \<Longrightarrow> i \<le> n \<Longrightarrow> \<exists>a. calculateLoadAddr_loop s mods n i addr = ret a"
proof (induction "unat n - unat i" arbitrary: i addr)
  case 0
  then have "i = n" by (simp add: word_le_nat_alt word_unat_eq_iff)
  then show ?case by (simp add: calculateLoadAddr_loop.simps)
next
  case (Suc d)
  then have lt: "i < n" by (simp add: word_less_nat_alt)
  then have u: "unat (i + 1) = Suc (unat i)" by (rule unat_suc_less)
  let ?p = "mods + 16 * i"
  have r: "accessible s ?p 12" "cmdline_ends s (cmdline (read_mod (view s) ?p))"
    using Suc.prems(1) lt by (auto simp: mods_readable_def Let_def word_less_nat_alt dest: spec [of _ "unat i"])
  obtain l where l: "(if cmdline (read_mod (view s) ?p) \<noteq> 0 then strlen_mapped s (cmdline (read_mod (view s) ?p)) 0
      else ret 0) = ret l"
    using r(2) strlen_mapped_returns [of s "cmdline (read_mod (view s) ?p)" _ 0]
    by (cases "cmdline (read_mod (view s) ?p) = 0") (auto simp: cmdline_ends_def)
  have "d = unat n - unat (i + 1)" "i + 1 \<le> n" using Suc.hyps(2) u lt
    by (simp_all add: word_le_nat_alt word_less_nat_alt)
  then show ?case using Suc.hyps(1) [of "i + 1"] Suc.prems(1) lt r(1)
    by (simp add: calculateLoadAddr_loop.simps [of s mods n i] Let_def reads_def l)
qed

text \<open>A command line at an address that is not mapped, as every one from 4 MiB on, ends the run.\<close>

lemma cmdline_faults:
  assumes "n \<noteq> 0" and "accessible s mods 12"
    and "cmdline (read_mod (view s) mods) \<noteq> 0" and "translate s (cmdline (read_mod (view s) mods)) = None"
  shows "calculateLoadAddr s mods n = halt PageFault"
  using assms
  by (simp add: calculateLoadAddr_def calculateLoadAddr_loop.simps [of s mods n] Let_def reads_def
      strlen_mapped_faults word_gt_0)

lemma calculateLoadAddr_loop_least:
  assumes "\<forall>e\<in>mod_ends (view s) mods (unat n). unat e \<le> 0xFFE00000" and "i \<le> n"
    and "load_boundary (mod_ends (view s) mods (unat i)) addr"
    and "\<And>b. load_boundary (mod_ends (view s) mods (unat i)) b \<Longrightarrow> addr \<le> b"
    and "calculateLoadAddr_loop s mods n i addr = ret a"
  shows "load_boundary (mod_ends (view s) mods (unat n)) a \<and>
    (\<forall>b. load_boundary (mod_ends (view s) mods (unat n)) b \<longrightarrow> a \<le> b)"
  using assms(2-5)
proof (induction "unat n - unat i" arbitrary: i addr)
  case 0
  then have "i = n" by (simp add: word_le_nat_alt word_unat_eq_iff)
  then show ?case using 0 by (simp add: calculateLoadAddr_loop.simps)
next
  case (Suc d)
  then have lt: "i < n" by (simp add: word_less_nat_alt)
  then have u: "unat (i + 1) = Suc (unat i)" by (rule unat_suc_less)
  let ?e = "mod_end (read_mod (view s) (mods + 16 * i))"
  let ?a = "if ?e > addr then loader_alignUp ?e 0x200000 else addr"
  have E: "mod_ends (view s) mods (unat (i + 1)) = insert ?e (mod_ends (view s) mods (unat i))"
    by (simp add: u mod_ends_def lessThan_Suc)
  have "?e \<in> mod_ends (view s) mods (unat n)"
    unfolding mod_ends_def using lt by (intro image_eqI [of _ _ "unat i"]) (simp_all add: word_less_nat_alt)
  then have le: "unat ?e \<le> 0xFFE00000" using assms(1) by blast
  note al = loader_alignUp_least [OF le]
  have "load_boundary (mod_ends (view s) mods (unat (i + 1))) ?a"
  proof (cases "?e > addr")
    case True
    then have "addr \<le> loader_alignUp ?e 0x200000" using al(2) by simp
    then show ?thesis using True al Suc.prems(2) unfolding E load_boundary_def by (auto intro: order_trans)
  next
    case False
    then show ?thesis using Suc.prems(2) unfolding E load_boundary_def by auto
  qed
  moreover have "?a \<le> b" if "load_boundary (mod_ends (view s) mods (unat (i + 1))) b" for b
  proof -
    have "load_boundary (mod_ends (view s) mods (unat i)) b" using that unfolding E load_boundary_def by blast
    then have "addr \<le> b" by (rule Suc.prems(3))
    moreover have "loader_alignUp ?e 0x200000 \<le> b" using that al(3) unfolding E load_boundary_def by blast
    ultimately show ?thesis by simp
  qed
  moreover have "calculateLoadAddr_loop s mods n (i + 1) ?a = ret a"
    using Suc.prems(4) lt
    by (auto simp: calculateLoadAddr_loop.simps [of s mods n i] Let_def reads_def bindR_eq_ret split: if_splits)
  moreover have "d = unat n - unat (i + 1)" "i + 1 \<le> n" using Suc.hyps(2) Suc.prems(1) u lt
    by (simp_all add: word_le_nat_alt word_less_nat_alt)
  ultimately show ?case using Suc.hyps(1) [of "i + 1" ?a] by blast
qed

lemma calculateLoadAddr_least:
  assumes "\<forall>e\<in>mod_ends (view s) mods (unat n). unat e \<le> 0xFFE00000" and "calculateLoadAddr s mods n = ret a"
  shows "load_boundary (mod_ends (view s) mods (unat n)) a \<and>
    (\<forall>b. load_boundary (mod_ends (view s) mods (unat n)) b \<longrightarrow> a \<le> b)"
  by (rule calculateLoadAddr_loop_least [OF assms(1) _ _ _ assms(2) [unfolded calculateLoadAddr_def]])
    (simp_all add: load_boundary_def mod_ends_def)

lemma calculateLoadAddr_returns:
  "mods_readable s mods (unat n) \<Longrightarrow> \<exists>a. calculateLoadAddr s mods n = ret a"
  unfolding calculateLoadAddr_def by (rule calculateLoadAddr_loop_returns) simp_all

text \<open>
  C38. When the modules and their command lines are mapped, \<open>calculateLoadAddr\<close> returns.  What it
  returns is the lowest multiple of 2 MiB that is not below 4 MiB and not below the end of any
  module, when no module ends in the last 2 MiB of the address space.  When the command line of the
  first module is at an address that is not mapped, it ends in a page fault.
\<close>

theorem load_addr_lowest:
  assumes "\<forall>e\<in>mod_ends (view s) mods (unat n). unat e \<le> 0xFFE00000"
  shows "(mods_readable s mods (unat n) \<longrightarrow> (\<exists>a. calculateLoadAddr s mods n = ret a)) \<and>
    (\<forall>a. calculateLoadAddr s mods n = ret a \<longrightarrow>
       0x200000 dvd unat a \<and> 0x400000 \<le> a \<and> (\<forall>i<unat n. mod_end (read_mod (view s) (mods + 16 * of_nat i)) \<le> a) \<and>
       (\<forall>b. 0x200000 dvd unat b \<and> 0x400000 \<le> b \<and>
          (\<forall>i<unat n. mod_end (read_mod (view s) (mods + 16 * of_nat i)) \<le> b) \<longrightarrow> a \<le> b)) \<and>
    (n \<noteq> 0 \<and> accessible s mods 12 \<and> cmdline (read_mod (view s) mods) \<noteq> 0 \<and>
       translate s (cmdline (read_mod (view s) mods)) = None \<longrightarrow> calculateLoadAddr s mods n = halt PageFault)"
proof (intro conjI allI impI)
  show "\<exists>a. calculateLoadAddr s mods n = ret a" if "mods_readable s mods (unat n)"
    using that by (rule calculateLoadAddr_returns)
  show "calculateLoadAddr s mods n = halt PageFault" if "n \<noteq> 0 \<and> accessible s mods 12 \<and>
      cmdline (read_mod (view s) mods) \<noteq> 0 \<and> translate s (cmdline (read_mod (view s) mods)) = None"
    using that cmdline_faults by blast
  fix a assume "calculateLoadAddr s mods n = ret a"
  note l = calculateLoadAddr_least [OF assms this]
  show "0x200000 dvd unat a" "0x400000 \<le> a" using l by (simp_all add: load_boundary_def)
  show "mod_end (read_mod (view s) (mods + 16 * of_nat i)) \<le> a" if "i < unat n" for i
    using l that by (auto simp: load_boundary_def mod_ends_def)
  show "a \<le> b" if "0x200000 dvd unat b \<and> 0x400000 \<le> b \<and>
      (\<forall>i<unat n. mod_end (read_mod (view s) (mods + 16 * of_nat i)) \<le> b)" for b
    using l that by (auto simp: load_boundary_def mod_ends_def)
qed

text \<open>One module that ends behind 5 MiB and has no command line.\<close>

theorem load_addr_lowest_witness:
  "\<exists>a. calculateLoadAddr \<lparr>lmem = (\<lambda>_. 0)(0x1004 := 1, 0x1006 := 0x50), dataTracker = 0, current_vaddr = 0, cr3 = 0,
     cr0_pg = False, cr4_pae = False\<rparr> 0x1000 1 = ret a \<and> 0x600000 \<le> a"
proof -
  let ?m = "(\<lambda>_. 0)(0x1004 := 1, 0x1006 := 0x50) :: 32 mem"
  let ?s = "\<lparr>lmem = ?m, dataTracker = 0, current_vaddr = 0, cr3 = 0, cr0_pg = False, cr4_pae = False\<rparr>"
  have v: "view ?s = ?m" "accessible ?s p n" for p n
    by (auto simp: view_def translate_def accessible_def list_all_iff)
  have r: "mod_end (read_mod ?m 0x1000) = 0x500001" "cmdline (read_mod ?m 0x1000) = 0"
    by (simp_all add: read_mod_def ld32_def rd_numeral)
  have "\<forall>e\<in>mod_ends (view ?s) 0x1000 (unat 1). unat e \<le> 0xFFE00000"
    unfolding v using r by (simp add: mod_ends_def)
  note l = load_addr_lowest [OF this]
  have "mods_readable ?s 0x1000 (unat 1)"
    unfolding mods_readable_def Let_def using r v by (auto simp: cmdline_ends_def simp del: One_nat_def)
  then obtain a where a: "calculateLoadAddr ?s 0x1000 1 = ret a" using l by blast
  with l have "0x200000 dvd unat a" "mod_end (read_mod (view ?s) (0x1000 + 16 * of_nat 0)) \<le> a" by auto
  then have "0x200000 dvd unat a" "(0x500001 :: u32) \<le> a" unfolding v using r by simp_all
  then have "0x600000 \<le> a" by (auto simp: word_le_nat_alt elim!: dvdE)
  then show ?thesis using a by blast
qed

section \<open>Loading the file\<close>

lemma fold_placed:
  assumes "\<forall>h\<in>set hs. loadable loadAddr elf h" and "0x400000 \<le> unat loadAddr"
  shows "\<forall>h\<in>set hs. x \<notin> target h \<Longrightarrow> fold (segment_placed elf) hs m x = m x"
    and "k < length hs \<Longrightarrow> x \<in> target (hs ! k) \<Longrightarrow> \<forall>j. k < j \<and> j < length hs \<longrightarrow> x \<notin> target (hs ! j) \<Longrightarrow>
      fold (segment_placed elf) hs m x = m (elf + ucast (p_offset (hs ! k)) + (x - ucast (p_paddr (hs ! k))))"
proof -
  show out: "\<forall>h\<in>set hs. x \<notin> target h \<Longrightarrow> fold (segment_placed elf) hs m x = m x" for hs m
    by (induction hs arbitrary: m) (simp_all add: segment_placed_apply)
  show "k < length hs \<Longrightarrow> x \<in> target (hs ! k) \<Longrightarrow> \<forall>j. k < j \<and> j < length hs \<longrightarrow> x \<notin> target (hs ! j) \<Longrightarrow>
      fold (segment_placed elf) hs m x = m (elf + ucast (p_offset (hs ! k)) + (x - ucast (p_paddr (hs ! k))))"
    using assms(1)
  proof (induction hs arbitrary: m k)
    case Nil
    then show ?case by simp
  next
    case (Cons h hs)
    show ?case
    proof (cases k)
      case 0
      then have "\<forall>h\<in>set hs. x \<notin> target h" using Cons.prems(3) by (fastforce simp: in_set_conv_nth)
      then show ?thesis using 0 Cons.prems(2) by (simp add: out) (simp add: segment_placed_apply)
    next
      case (Suc i)
      let ?src = "elf + ucast (p_offset (hs ! i)) + (x - ucast (p_paddr (hs ! i)))"
      have i: "i < length hs" "x \<in> target (hs ! i)" "\<forall>j. i < j \<and> j < length hs \<longrightarrow> x \<notin> target (hs ! j)"
        using Suc Cons.prems(1-3) by (auto dest: spec [of _ "Suc _"])
      have "unat ?src < 0x400000"
        using loadable_target(2) [OF _ assms(2) i(2)] Cons.prems(4) i(1) by simp
      then have "segment_placed elf h m ?src = m ?src"
        using segment_placed_low [OF _ assms(2)] Cons.prems(4) by simp
      then show ?thesis using Cons.IH [OF i] Cons.prems(4) Suc by simp
    qed
  qed
qed

section \<open>The whole of load_elf\<close>

definition record_placed :: "loader \<Rightarrow> u32 \<Rightarrow> bool" where
  "record_placed s ld \<longleftrightarrow> 0x200000 \<le> unat ld \<and> unat ld + 21 \<le> 0x400000 \<and> region ld 21 \<inter> region (dataTracker s) 32 = {}"

lemma handed_frame:
  assumes "handed loadAddr j s" and "s' = s\<lparr>lmem := lmem s'\<rparr>" and "record_placed s ld"
    and "\<And>x. x \<notin> region ld 21 \<Longrightarrow> lmem s' x = lmem s x"
  shows "handed loadAddr j s'"
proof -
  have d: "dataTracker s' = dataTracker s" by (subst assms(2)) simp
  have g: "lgeom s" using assms(1) by (simp add: handed_def)
  have r: "x \<in> region ld 21 \<longleftrightarrow> unat ld \<le> unat x \<and> unat x < unat ld + 21" for x
    using assms(3) by (intro in_region_nat) (simp add: record_placed_def)
  have "lentry s' n k = lentry s n k" if "n < 256" "k < 512" for n k
    using that assms(3,4) by (intro lentry_cong) (auto simp: region_lpage record_placed_def r)
  moreover have "ltracked s' n = ltracked s n" if "n < 256" for n
    using that assms(3,4) d by (intro ltracked_cong) (auto simp: record_placed_def)
  ultimately show ?thesis using assms(1) d by (simp add: handed_def lgeom_def)
qed

lemma load_elf_run:
  assumes p: "paged s" and "0x400000 \<le> unat loadAddr"
    and v: "valid_file s loadAddr elf (unat (elf_programCount (view s) elf))"
    and ok: "elf_isValid (view s) (elfmag lk) elf" "elf_target (view s) elf = ELFCLASS64"
    and e: "unat (elf_entry (view s) elf) < 0x40000000" and r: "record_placed s (loader_data lk)"
  obtains s' where "load_elf lk s root_page loadAddr elf sz = ret (s', elf_entry (view s) elf)"
    "handed loadAddr (unat (elf_entry (view s) elf) div 0x200000) s'"
    "record_bytes s' (loader_data lk) (mb_info_ptr lk) (lmem s')" "cr3 s' = 0x100000" "\<not> cr0_pg s'"
    "\<And>x. x \<notin> region 0x100000 0x100000 \<Longrightarrow> x \<notin> region (dataTracker s) 32 \<Longrightarrow> x \<notin> region (loader_data lk) 21 \<Longrightarrow>
       lmem s' x = fold (segment_placed elf) (program_headers s elf (unat (elf_programCount (view s) elf))) (lmem s) x"
proof -
  let ?n = "elf_programCount (view s) elf" and ?e = "elf_entry (view s) elf"
  let ?m = "fold (segment_placed elf) (program_headers s elf (unat ?n)) (lmem s)"
  have low: "?m x = lmem s x" if "unat x < 0x400000" for x
  proof (rule fold_placed(1))
    show "\<forall>h\<in>set (program_headers s elf (unat ?n)). loadable loadAddr elf h" using v by (simp add: valid_file_def)
    then show "\<forall>h\<in>set (program_headers s elf (unat ?n)). x \<notin> target h"
      using loadable_target(1) [OF _ assms(2), of elf _ x] that by fastforce
  qed (rule assms(2))
  define s1 where "s1 = s\<lparr>lmem := ?m\<rparr>\<lparr>cr0_pg := False\<rparr>"
  have p1: "paged (s\<lparr>lmem := ?m\<rparr>)" using low by (rule paged_above [OF p])
  have same: "ltracked s1 n = ltracked (s\<lparr>lmem := ?m\<rparr>) n" "lgeom s1 = lgeom (s\<lparr>lmem := ?m\<rparr>)" for n
    by (simp_all add: s1_def ltracked_def lat32_def lgeom_def)
  have "lgeom s1" "\<forall>n<256. ltracked s1 n \<longleftrightarrow> n < 2" using p1 unfolding same paged_def by blast+
  then obtain s2 where s2: "build_kernel_tables s1 loadAddr ?e = ret s2" "handed loadAddr (unat ?e div 0x200000) s2"
    "cr3 s2 = 0x100000" "cr0_pg s2 = cr0_pg s1" "dataTracker s2 = dataTracker s1"
    "\<And>x. x \<notin> region 0x100000 0x100000 \<Longrightarrow> x \<notin> region (dataTracker s1) 32 \<Longrightarrow> lmem s2 x = lmem s1 x"
    by (rule build_kernel_tables_run [where loadAddr = loadAddr, OF _ _ e]) (rule that)
  define s3 where "s3 = fill_loader_data s2 (loader_data lk) (mb_info_ptr lk)"
  note f = fill_loader_data_run [where s = s2 and ld = "loader_data lk" and mb = "mb_info_ptr lk", folded s3_def]
  have d: "dataTracker s2 = dataTracker s" "dataTracker s3 = dataTracker s2" "cr3 s3 = cr3 s2" "cr0_pg s3 = cr0_pg s2"
    using s2(5) by (simp_all add: s1_def) (subst f(1); simp)+
  have h: "handed loadAddr (unat ?e div 0x200000) s3"
    using r d(1) by (intro handed_frame [OF s2(2) f(1) _ f(3)]) (simp_all add: record_placed_def)
  have a: "accessible s elf 64" using v by (intro accessible_paged [OF p]) (simp add: valid_file_def)
  have run: "load_elf lk s root_page loadAddr elf sz = ret (s3, ?e)"
    using a ok load_segments_run [OF p assms(2) v] s2(1)
    by (simp add: load_elf_def reads_def Let_def s1_def [symmetric] s3_def [symmetric])
  show ?thesis
  proof (rule that [OF run h])
    show "record_bytes s3 (loader_data lk) (mb_info_ptr lk) (lmem s3)" using f(2) d by (simp add: record_bytes_def)
    show "cr3 s3 = 0x100000" "\<not> cr0_pg s3" using s2(3,4) d by (simp_all add: s1_def)
    fix x :: u32
    assume "x \<notin> region 0x100000 0x100000" "x \<notin> region (dataTracker s) 32" "x \<notin> region (loader_data lk) 21"
    then show "lmem s3 x = ?m x" using f(3) s2(6) by (simp add: s1_def)
  qed
qed

text \<open>Above 4 MiB the loader writes the segments only.\<close>

lemma above_own_data:
  assumes "paged s" and "record_placed s ld" and "0x400000 \<le> unat x"
  shows "x \<notin> region 0x100000 0x100000 \<and> x \<notin> region (dataTracker s) 32 \<and> x \<notin> region ld 21"
proof -
  have g: "lgeom s" using assms(1) by (simp add: paged_def)
  have "x \<notin> region ld 21" using assms(2,3) by (subst in_region_nat) (simp_all add: record_placed_def)
  moreover have "x \<notin> region 0x100000 0x100000" using assms(3) by (simp add: region_pages)
  moreover have "x \<notin> region (dataTracker s) 32" using assms(3) g by (simp add: region_tracker lgeom_def)
  ultimately show ?thesis by blast
qed

text \<open>
  C12. On the loader's own address space \<open>load_elf\<close> of a valid 64-bit file whose entry is below
  1 GiB returns the entry.  Each byte of the target of a segment that no later segment covers is
  the byte at the same distance from the segment's offset in the file.  Outside the targets it
  writes only to the paging range 0x100000 to 0x200000, the bit field of its pages and
  \<open>loader_data\<close>.
\<close>

theorem segments_loaded:
  assumes "paged s" and "0x400000 \<le> unat loadAddr"
    and "valid_file s loadAddr elf (unat (elf_programCount (view s) elf))"
    and "elf_isValid (view s) (elfmag lk) elf" and "elf_target (view s) elf = ELFCLASS64"
    and "unat (elf_entry (view s) elf) < 0x40000000" and "record_placed s (loader_data lk)"
  shows "let n = unat (elf_programCount (view s) elf); hs = program_headers s elf n in
    \<exists>s'. load_elf lk s root_page loadAddr elf sz = ret (s', elf_entry (view s) elf) \<and>
      (\<forall>k<n. \<forall>x\<in>target (hs ! k). (\<forall>j. k < j \<and> j < n \<longrightarrow> x \<notin> target (hs ! j)) \<longrightarrow>
         lmem s' x = lmem s (elf + ucast (p_offset (hs ! k)) + (x - ucast (p_paddr (hs ! k))))) \<and>
      (\<forall>x. (\<forall>h\<in>set hs. x \<notin> target h) \<and> x \<notin> region 0x100000 0x100000 \<and> x \<notin> region (dataTracker s) 32 \<and>
         x \<notin> region (loader_data lk) 21 \<longrightarrow> lmem s' x = lmem s x)"
proof -
  let ?n = "unat (elf_programCount (view s) elf)"
  let ?hs = "program_headers s elf ?n"
  have v: "\<forall>h\<in>set ?hs. loadable loadAddr elf h" using assms(3) by (simp add: valid_file_def)
  have l: "length ?hs = ?n" by (simp add: program_headers_def)
  note f = fold_placed [OF v assms(2), where m = "lmem s", unfolded l]
  obtain s' where s': "load_elf lk s root_page loadAddr elf sz = ret (s', elf_entry (view s) elf)"
    "\<And>x. x \<notin> region 0x100000 0x100000 \<Longrightarrow> x \<notin> region (dataTracker s) 32 \<Longrightarrow> x \<notin> region (loader_data lk) 21 \<Longrightarrow>
       lmem s' x = fold (segment_placed elf) ?hs (lmem s) x"
    by (rule load_elf_run [OF assms]) (rule that)
  have "lmem s' x = fold (segment_placed elf) ?hs (lmem s) x" if "k < ?n" "x \<in> target (?hs ! k)" for x k
  proof -
    have "loadable loadAddr elf (?hs ! k)" using v that(1) l by simp
    then have "0x400000 \<le> unat x" using loadable_target(1) assms(2) that(2) by blast
    then show ?thesis using s'(2) above_own_data [OF assms(1,7)] by blast
  qed
  then show ?thesis using s' f by (auto simp: Let_def intro!: exI [of _ s'])
qed

section \<open>From loader_main to the kernel\<close>

lemma handed_entry:
  assumes "identity_below (mem s) (lmem L)" and "handed loadAddr j L"
    and "unat v div 0x200000 = j" and "j < 512" and "loadAddr AND 0x1FFFFF = 0"
  shows "pml4_get s 0x100000 v = Some (ucast loadAddr OR (v AND 0x1FFFFF))"
proof -
  have b: "unat v < 0x40000000" using assms(3,4) by simp
  then have i: "pml4_index v = 0" "pdpt_index v = 0"
    by (simp_all add: pml4_index_def pdpt_index_def word_unat_eq_iff unat_and_lit unat_shr)
  have k: "unat (pd_index v) = j" using assms(3,4) by (simp only: pd_index_def unat_and_lit unat_shr) simp
  have "at64 s (lp 3) (pd_index v) = lentry L 3 j"
    using kernel_entry [OF assms(1) _ index_bounds(2), of 3 v] k by simp
  then have d: "at64 s 0x103000 (pd_index v) = ucast loadAddr OR 0x81"
    using assms(2,4) by (simp add: lp_lits handed_def kernel_entries_def)
  have "bit (ucast loadAddr OR 0x81 :: u64) 0" by (simp add: bit_simps)
  then have p: "present (ucast loadAddr OR 0x81)" by (simp add: present_iff)
  have "frame_addr (ucast loadAddr OR 0x81) = ucast loadAddr"
  proof -
    have "(ucast (loadAddr AND 0x1FFFFF) :: u64) = ucast loadAddr AND 0x1FFFFF" by (simp add: unsigned_and_eq)
    then have z: "(ucast loadAddr :: u64) AND 0x1FFFFF = 0" using assms(5) by simp
    have "(ucast loadAddr AND 0x1FFFFF) OR (ucast loadAddr AND NOT 0x1FFFFF) = (ucast loadAddr :: u64)"
      by (simp only: bit.conj_disj_distrib [symmetric] bit.disj_cancel_right and.right_neutral)
    then have 1: "(ucast loadAddr :: u64) AND NOT 0x1FFFFF = ucast loadAddr" by (simp only: z or.left_neutral)
    have 2: "(0x81 :: u64) AND NOT 0x1FFFFF = 0" by simp
    show ?thesis by (simp only: frame_addr_def bit.conj_disj_distrib2 1 2 or.right_neutral)
  qed
  then show ?thesis
    using handed_links [OF assms(1,2), of 0] p d i by (simp add: pml4_get_leaf leaf_def)
qed

text \<open>What the boot loader before the loader must have left: modules, the first a kernel that can be loaded.\<close>

definition first_module :: "link_map \<Rightarrow> loader \<Rightarrow> u32" where
  "first_module lk s = mod_start (read_mod (view s) (mods_addr (read_multiboot_info (view s) (mb_info_ptr lk))))"

definition load_addr :: "link_map \<Rightarrow> loader \<Rightarrow> u32" where
  "load_addr lk s = (let info = read_multiboot_info (view s) (mb_info_ptr lk) in
     case calculateLoadAddr s (mods_addr info) (mods_count info) of Some (Inr a) \<Rightarrow> a | _ \<Rightarrow> 0)"

text \<open>A command line is absent or ends below 4 MiB, where the loader's address space does.\<close>

definition cmdline_low :: "loader \<Rightarrow> u32 \<Rightarrow> bool" where
  "cmdline_low s p \<longleftrightarrow> p = 0 \<or> (\<exists>k<0x400000. unat p + k < 0x400000 \<and> view s (p + of_nat k) = 0)"

definition bootable :: "link_map \<Rightarrow> loader \<Rightarrow> bool" where
  "bootable lk s \<longleftrightarrow>
     (let info = read_multiboot_info (view s) (mb_info_ptr lk); elf = first_module lk s in
      unat (mb_info_ptr lk) + 28 \<le> 0x400000 \<and> mods_count info \<noteq> 0 \<and>
      unat (mods_addr info) + 16 * unat (mods_count info) \<le> 0x400000 \<and>
      (\<forall>e\<in>mod_ends (view s) (mods_addr info) (unat (mods_count info)). unat e \<le> 0xFFE00000) \<and>
      (\<forall>i<unat (mods_count info). cmdline_low s (cmdline (read_mod (view s) (mods_addr info + 16 * of_nat i)))) \<and>
      elf_isValid (view s) (elfmag lk) elf \<and> elf_target (view s) elf = ELFCLASS64 \<and>
      valid_file s (load_addr lk s) elf (unat (elf_programCount (view s) elf)) \<and>
      0x400000 \<le> unat (elf_entry (view s) elf) \<and> unat (elf_entry (view s) elf) < 0x40000000)"

lemma mods_readable_paged:
  assumes p: "paged s" and m: "unat mods + 16 * n \<le> 0x400000"
    and c: "\<forall>i<n. cmdline_low s (cmdline (read_mod (view s) (mods + 16 * of_nat i)))"
  shows "mods_readable s mods n"
proof -
  have "accessible s (mods + 16 * of_nat i) 12 \<and> cmdline_ends s (cmdline (read_mod (view s) (mods + 16 * of_nat i)))"
    if i: "i < n" for i
  proof
    have "unat (16 * of_nat i :: u32) = 16 * i" using i m unat_of_nat_small [where ?'a = 32, of "16 * i"] by simp
    then have "unat (mods + 16 * of_nat i) = unat mods + 16 * i" using i m by (subst unat_add_small) simp_all
    then show "accessible s (mods + 16 * of_nat i) 12" using i m by (intro accessible_paged [OF p]) simp
    show "cmdline_ends s (cmdline (read_mod (view s) (mods + 16 * of_nat i)))"
      using c i accessible_paged [OF p] by (fastforce simp: cmdline_low_def cmdline_ends_def)
  qed
  then show ?thesis by (simp add: mods_readable_def Let_def)
qed

lemma loader_main_run:
  assumes "lgeom s" and "\<forall>n<256. \<not> ltracked s n" and en: "enter_paging s = ret s1"
    and b: "bootable lk s1" and r: "record_placed s (loader_data lk)"
  defines "e \<equiv> elf_entry (view s1) (first_module lk s1)"
  obtains s' where "loader_main lk s = ret (s', e)" "handed (load_addr lk s1) (unat e div 0x200000) s'"
    "record_bytes s' (loader_data lk) (mb_info_ptr lk) (lmem s')" "cr3 s' = 0x100000" "\<not> cr0_pg s'"
    "load_addr lk s1 AND 0x1FFFFF = 0"
proof -
  have p: "paged s1" and d: "dataTracker s1 = dataTracker s"
    using enter_paging_run [OF assms(1,2)] en by (metis Inr_inject option.inject)+
  let ?info = "read_multiboot_info (view s1) (mb_info_ptr lk)"
  let ?elf = "first_module lk s1" and ?a = "load_addr lk s1"
  note b' = b [unfolded bootable_def Let_def]
  have "mods_readable s1 (mods_addr ?info) (unat (mods_count ?info))" using b' by (intro mods_readable_paged [OF p]) simp_all
  then have k: "calculateLoadAddr s1 (mods_addr ?info) (mods_count ?info) = ret ?a"
    using calculateLoadAddr_returns by (fastforce simp: load_addr_def Let_def)
  then have c: "load_boundary (mod_ends (view s1) (mods_addr ?info) (unat (mods_count ?info))) ?a"
    using calculateLoadAddr_least b' by blast
  then have a: "0x400000 \<le> unat ?a" "0x200000 dvd unat ?a" by (simp_all add: load_boundary_def word_le_nat_alt)
  then have al: "?a AND 0x1FFFFF = 0" by (simp add: word_unat_eq_iff unat_and_lit_32 dvd_imp_mod_0)
  have r1: "record_placed s1 (loader_data lk)" using r d by (simp add: record_placed_def)
  obtain s' where s': "load_elf lk s1 root_page ?a ?elf (mod_end (read_mod (view s1) (mods_addr ?info)) - ?elf) = ret (s', e)"
    "handed ?a (unat e div 0x200000) s'" "record_bytes s' (loader_data lk) (mb_info_ptr lk) (lmem s')"
    "cr3 s' = 0x100000" "\<not> cr0_pg s'"
    using load_elf_run [OF p a(1) _ _ _ _ r1, of ?elf "mod_end (read_mod (view s1) (mods_addr ?info)) - ?elf"] b'
    unfolding e_def by metis
  have "0 < unat (mods_count ?info)" using b' by (simp add: unat_gt_0)
  then have "accessible s1 (mb_info_ptr lk) 28" "accessible s1 (mods_addr ?info) 8"
    using b' by (auto intro: accessible_paged [OF p])
  then have "loader_main lk s = ret (s', e)"
    using en b' s'(1) k by (simp add: loader_main_def reads_def Let_def first_module_def)
  then show ?thesis using s'(2-5) al by (rule that)
qed

text \<open>
  C1. Started with an empty bit field and a bootable first module, the loader returns from every
  call and jumps to the entry of the file on the tables at 0x100000.  A kernel that sees the first
  4 MiB as the loader left them, and whose heap object is zero, then passes every assertion of its
  start and reaches its endless loop with page tables, frames and heap well formed, and its entry
  address still translates to the page the loader chose behind the modules.
\<close>

theorem loader_boots_kernel:
  assumes "lgeom s" and "\<forall>n<256. \<not> ltracked s n" and "enter_paging s = ret s1"
    and "bootable lk s1" and "record_placed s (loader_data lk)"
  shows "\<exists>s' e. loader_main lk s = ret (s', e) \<and> cr3 s' = 0x100000 \<and>
    (\<forall>k. identity_below (kmem k) (lmem s') \<and> m_size (kernelHeap k) = 0 \<longrightarrow>
       kernel_main k (ucast (loader_data lk)) = None \<and>
       (\<exists>k' rows. kernel_boot k (ucast (loader_data lk)) = ret (k', rows) \<and>
          mm_ok (mm k') 0x100000 \<and> heap_valid (kernelHeap k') \<and>
          heap_linked (kernelHeap k') (kmem k') [(0x2000000 - 32, False)] \<and>
          pml4_get (paging (mm k')) 0x100000 e = Some (ucast (load_addr lk s1) OR (e AND 0x1FFFFF))))"
proof -
  let ?e = "elf_entry (view s1) (first_module lk s1)" and ?ld = "ucast (loader_data lk) :: u64"
  have eb: "0x400000 \<le> unat ?e" "unat ?e < 0x40000000" using assms(4) by (simp_all add: bootable_def Let_def)
  have ld: "unat (loader_data lk) + 21 \<le> 0x400000" using assms(5) by (simp add: record_placed_def)
  obtain s' where s': "loader_main lk s = ret (s', ?e)" "handed (load_addr lk s1) (unat ?e div 0x200000) s'"
    "record_bytes s' (loader_data lk) (mb_info_ptr lk) (lmem s')" "cr3 s' = 0x100000" "load_addr lk s1 AND 0x1FFFFF = 0"
    by (rule loader_main_run [OF assms])
  have "kernel_main k ?ld = None \<and>
       (\<exists>k' rows. kernel_boot k ?ld = ret (k', rows) \<and> mm_ok (mm k') 0x100000 \<and> heap_valid (kernelHeap k') \<and>
          heap_linked (kernelHeap k') (kmem k') [(0x2000000 - 32, False)] \<and>
          pml4_get (paging (mm k')) 0x100000 ?e = Some (ucast (load_addr lk s1) OR (?e AND 0x1FFFFF)))"
    if k: "identity_below (kmem k) (lmem s')" and h: "m_size (kernelHeap k) = 0" for k
  proof -
    note id = k [unfolded kmem_def]
    have "loader_left (paging (mm k)) (read_LoaderData (kmem k) ?ld) handed_roles"
      unfolding kmem_def by (rule handed_left [OF id s'(2,3) ld])
    moreover have "byte_sum (kmem k) ?ld sizeof_LoaderData AND 0xFF = 0" by (rule kernel_record(4) [OF k s'(3) ld])
    moreover have pg: "vpage (page_at 0x80000000 i)" "0x80000000 \<le> unat (page_at 0x80000000 i)" if "i < 16" for i
      using that candidate_pages(2) [of "0x80000000" 16 i] by (simp_all add: candidates_first unat_page_at)
    moreover have "\<forall>i<16. pml4_get (paging (mm k)) 0x100000 (page_at 0x80000000 i) = None"
      using pg handed_unmapped [OF id s'(2)] by (fastforce simp: vpage_def)
    moreover have "pml4_get (paging (mm k)) 0x100000 ?e = Some (ucast (load_addr lk s1) OR (?e AND 0x1FFFFF))"
      using handed_entry [OF id s'(2) refl _ s'(5)] eb by (simp add: div_less_iff_less_mult)
    moreover have "canonical ?e" using eb by (simp add: canonical_def word_less_nat_alt)
    moreover have "\<forall>i<16. frame_addr ?e \<noteq> page_at 0x80000000 i"
    proof (intro allI impI notI)
      fix i assume i: "(i :: nat) < 16" "frame_addr ?e = page_at 0x80000000 i"
      have "(0x1FFFFF :: u64) = mask 21" by (simp add: mask_eq_exp_minus_1)
      then have "unat (frame_addr ?e) \<le> unat ?e" by (simp only: frame_addr_def unat_and_not_mask) simp
      then show False using i eb pg(2) [of i] by simp
    qed
    ultimately show ?thesis using kernel_boot_run [of k ?ld handed_roles] h by fastforce
  qed
  then show ?thesis using s'(1,4) by blast
qed

end
