(* ===== verification/BootImage.thy ===== *)
theory BootImage
  imports HandOverProps
begin

text \<open>
  A concrete boot image: a multiboot record with one module and its command line, an ELF file with one segment of one
  byte, on which the hypotheses of the properties about the loader hold.
\<close>

unbundle bit_operations_syntax

definition boot_mem :: "32 mem" where
  "boot_mem = (\<lambda>_. 0)
     (0x300014 := 1, 0x300019 := 0x01, 0x30001A := 0x30,
      0x300101 := 0x10, 0x300102 := 0x30, 0x300105 := 0x20, 0x300106 := 0x30,
      0x300109 := 0x03, 0x30010A := 0x30, 0x300300 := 0x4B,
      0x300200 := 0x7F, 0x300201 := 0x45, 0x300202 := 0x4C, 0x300203 := 0x46,
      0x301000 := 0x7F, 0x301001 := 0x45, 0x301002 := 0x4C, 0x301003 := 0x46, 0x301004 := 2,
      0x30101A := 0x40, 0x301020 := 0x40, 0x301038 := 1,
      0x301040 := 1, 0x301049 := 1, 0x30105A := 0x40, 0x301060 := 1, 0x301068 := 0x10,
      0x301100 := 0xC3)"

definition boot_state :: loader where
  "boot_state = \<lparr>lmem = boot_mem, dataTracker = 0x200000, current_vaddr = 0, cr3 = 0, cr0_pg = False, cr4_pae = False\<rparr>"

definition boot_links :: link_map where
  "boot_links = \<lparr>loader_data = 0x200100, elfmag = 0x300200, mb_info_ptr = 0x300000\<rparr>"

lemma boot_geom: "lgeom boot_state" "record_placed boot_state (loader_data boot_links)"
proof -
  have "region (0x200100 :: u32) 21 \<inter> region 0x200000 32 = {}" by (rule region_disjoint) simp_all
  then show "lgeom boot_state" "record_placed boot_state (loader_data boot_links)"
    by (simp_all add: boot_state_def boot_links_def lgeom_def record_placed_def)
qed

lemma boot_mem_low: "unat x < 0x300000 \<Longrightarrow> boot_mem x = 0"
  by (auto simp: boot_mem_def)

lemma boot_untracked: "n < 256 \<Longrightarrow> \<not> ltracked boot_state n"
proof -
  assume n: "n < 256"
  have "boot_mem x = 0" if "x \<in> region (elem 0x200000 4 (n div 32)) 4" for x
  proof -
    have "x \<in> region 0x200000 32" using tracker_sub [OF n, of "0x200000"] that by blast
    then show ?thesis by (intro boot_mem_low) (subst (asm) in_region_nat, simp_all)
  qed
  then have "ld32 boot_mem (elem 0x200000 4 (n div 32)) = 0" unfolding ld32_def by (intro rd_zero) simp_all
  then show ?thesis using n by (simp add: ltracked_eq boot_state_def)
qed

text \<open>The state behind \<open>enter_paging\<close>.\<close>

lemma boot_paged:
  obtains s1 where "enter_paging boot_state = ret s1" "paged s1" "dataTracker s1 = 0x200000"
    "\<And>x. 0x300000 \<le> unat x \<Longrightarrow> lmem s1 x = boot_mem x"
    "\<And>x. 0x300000 \<le> unat x \<Longrightarrow> unat x < 0x400000 \<Longrightarrow> view s1 x = boot_mem x"
proof -
  obtain s1 where s1: "enter_paging boot_state = ret s1" "paged s1" "dataTracker s1 = dataTracker boot_state"
    "\<And>x. x \<notin> region 0x100000 0x100000 \<Longrightarrow> x \<notin> region (dataTracker boot_state) 32 \<Longrightarrow> lmem s1 x = lmem boot_state x"
    using enter_paging_run [OF boot_geom(1)] boot_untracked by metis
  have t: "lmem s1 x = boot_mem x" if "0x300000 \<le> unat x" for x
    using s1(4) [of x] that by (simp add: region_pages region_tracker [OF boot_geom(1)]) (simp add: boot_state_def)
  show ?thesis
  proof (rule that [OF s1(1,2)])
    show "dataTracker s1 = 0x200000" using s1(3) by (simp add: boot_state_def)
    show "view s1 x = boot_mem x" if "0x300000 \<le> unat x" "unat x < 0x400000" for x
      using t that by (simp add: view_paged [OF s1(2)])
  qed (rule t)
qed

text \<open>Single fields, so that only the bytes of the field are evaluated.\<close>

lemma header_fields:
  "e_ident (read_Ehdr m p) = bytes_at m p 16" "e_entry (read_Ehdr m p) = ld64 m (p + 24)"
  "e_phoff (read_Ehdr m p) = ld64 m (p + 32)" "e_phnum (read_Ehdr m p) = ld16 m (p + 56)"
  "p_type (read_Phdr m p) = ld32 m p" "p_offset (read_Phdr m p) = ld64 m (p + 8)" "p_paddr (read_Phdr m p) = ld64 m (p + 24)"
  "p_filesz (read_Phdr m p) = ld64 m (p + 32)" "p_memsz (read_Phdr m p) = ld64 m (p + 40)"
  "mod_start (read_mod m p) = ld32 m p" "mod_end (read_mod m p) = ld32 m (p + 4)" "cmdline (read_mod m p) = ld32 m (p + 8)"
  by (simp_all add: read_Ehdr_def read_Phdr_def read_mod_def)

lemma fifth_byte: "bytes_at m p 16 ! 4 = m (p + 4)"
proof -
  have "bytes_at m p (Suc (Suc (Suc (Suc (Suc n))))) ! 4 = m (p + 1 + 1 + 1 + 1)" for n by simp
  from this [of 11] show ?thesis by (simp add: eval_nat_numeral add.commute)
qed

lemma boot_reads:
  assumes v: "\<And>x. 0x300000 \<le> unat x \<Longrightarrow> unat x < 0x400000 \<Longrightarrow> M x = boot_mem x"
  shows "mods_count (read_multiboot_info M 0x300000) = 1" and "mods_addr (read_multiboot_info M 0x300000) = 0x300100"
    and "mod_start (read_mod M 0x300100) = 0x301000" and "mod_end (read_mod M 0x300100) = 0x302000"
    and "elf_isValid M 0x300200 0x301000" and "elf_target M 0x301000 = ELFCLASS64"
    and "elf_entry M 0x301000 = 0x400000" and "elf_programCount M 0x301000 = 1"
    and "elf_programHeader M 0x301000 0 = 0x301040"
    and "p_type (read_Phdr M 0x301040) = PT_LOAD" and "p_offset (read_Phdr M 0x301040) = 0x100"
    and "p_paddr (read_Phdr M 0x301040) = 0x400000" and "p_filesz (read_Phdr M 0x301040) = 1"
    and "p_memsz (read_Phdr M 0x301040) = 0x10" and "cmdline (read_mod M 0x300100) = 0x300300"
    and "M 0x300300 = 0x4B" and "M 0x300301 = 0"
proof -
  note e = ld16_def ld32_def ld64_def rd_numeral v boot_mem_def
  show "mods_count (read_multiboot_info M 0x300000) = 1" "mods_addr (read_multiboot_info M 0x300000) = 0x300100"
    by (simp_all add: read_multiboot_info_def e)
  show "mod_start (read_mod M 0x300100) = 0x301000" "mod_end (read_mod M 0x300100) = 0x302000"
    "cmdline (read_mod M 0x300100) = 0x300300" "M 0x300300 = 0x4B" "M 0x300301 = 0"
    by (simp_all add: header_fields e)
  show "elf_isValid M 0x300200 0x301000"
    by (simp add: elf_isValid_def loader_strncmp_def strncmp_loop.simps e)
  show "elf_target M 0x301000 = ELFCLASS64"
    by (simp add: elf_target_def header_fields EI_CLASS_def fifth_byte) (simp add: ELFCLASS64_def e)
  show "elf_entry M 0x301000 = 0x400000" "elf_programCount M 0x301000 = 1" "elf_programHeader M 0x301000 0 = 0x301040"
    by (simp_all add: elf_entry_def elf_programCount_def elf_programHeader_def elf_programHeaders_def header_fields e)
  show "p_type (read_Phdr M 0x301040) = PT_LOAD" "p_offset (read_Phdr M 0x301040) = 0x100"
    "p_paddr (read_Phdr M 0x301040) = 0x400000" "p_filesz (read_Phdr M 0x301040) = 1"
    "p_memsz (read_Phdr M 0x301040) = 0x10"
    by (simp_all add: header_fields PT_LOAD_def e)
qed

lemma boot_valid:
  assumes "paged s1" and v: "\<And>x. 0x300000 \<le> unat x \<Longrightarrow> unat x < 0x400000 \<Longrightarrow> view s1 x = boot_mem x"
  shows "program_headers s1 0x301000 1 = [read_Phdr (view s1) 0x301040]"
    and "valid_file s1 0x400000 0x301000 1" and "load_addr boot_links s1 = 0x400000"
    and "first_module boot_links s1 = 0x301000" and "bootable boot_links s1"
proof -
  note r = boot_reads [OF v]
  show h: "program_headers s1 0x301000 1 = [read_Phdr (view s1) 0x301040]"
    by (simp add: program_headers_def r)
  have "region (0x301100 :: u32) 1 \<inter> region 0x101000 0x1000 = {}" by (rule region_disjoint) simp_all
  then have "loadable 0x400000 0x301000 (read_Phdr (view s1) 0x301040)"
    by (simp add: loadable_def r Let_def)
  then show f: "valid_file s1 0x400000 0x301000 1"
    unfolding valid_file_def h by (simp add: r)
  have "accessible s1 0x300100 12" "accessible s1 0x300300 1" "accessible s1 0x300301 1"
    by (rule accessible_paged [OF assms(1)], simp)+
  moreover from this have "strlen_mapped s1 0x300300 0 = ret 1"
    by (simp add: strlen_mapped.simps [of s1 "0x300300"] strlen_mapped.simps [of s1 "0x300301"] reads_def r)
  ultimately show a: "load_addr boot_links s1 = 0x400000"
    by (simp add: load_addr_def boot_links_def r calculateLoadAddr_def calculateLoadAddr_loop.simps Let_def reads_def)
  show m: "first_module boot_links s1 = 0x301000"
    by (simp add: first_module_def boot_links_def r)
  have "mod_ends (view s1) 0x300100 (Suc 0) = {0x302000}" by (simp add: mod_ends_def r lessThan_Suc)
  moreover have c: "cmdline_low s1 0x300300"
    unfolding cmdline_low_def by (intro disjI2 exI [of _ 1]) (simp add: r)
  ultimately show "bootable boot_links s1"
    unfolding bootable_def Let_def a m using f c by (simp add: boot_links_def r)
qed

theorem segments_loaded_witness:
  "\<exists>s1 s'. enter_paging boot_state = ret s1 \<and>
     load_elf boot_links s1 root_page 0x400000 0x301000 0x1000 = ret (s', 0x400000) \<and> lmem s' 0x400000 = 0xC3"
proof (rule boot_paged)
  fix s1 assume s1: "enter_paging boot_state = ret s1" "paged s1" "\<And>x. 0x300000 \<le> unat x \<Longrightarrow> lmem s1 x = boot_mem x"
    "\<And>x. 0x300000 \<le> unat x \<Longrightarrow> unat x < 0x400000 \<Longrightarrow> view s1 x = boot_mem x"
    and d: "dataTracker s1 = 0x200000"
  note r = boot_reads [OF s1(4)] and b = boot_valid [OF s1(2,4)]
  have l: "elfmag boot_links = 0x300200" by (simp add: boot_links_def)
  have p: "record_placed s1 (loader_data boot_links)" using boot_geom(2) d by (simp add: record_placed_def boot_state_def)
  have t: "0x400000 \<in> target (read_Phdr (view s1) 0x301040)" by (simp add: target_def r)
  have "boot_mem 0x301100 = 0xC3" by (simp add: boot_mem_def)
  moreover obtain s' where "load_elf boot_links s1 root_page 0x400000 0x301000 0x1000 = ret (s', 0x400000)"
      "\<forall>x\<in>target (read_Phdr (view s1) 0x301040). lmem s' x = lmem s1 (0x301100 + (x - 0x400000))"
    using segments_loaded [OF s1(2), where loadAddr = "0x400000" and elf = "0x301000" and lk = boot_links and sz = "0x1000"] p b(2)
    by (auto simp: Let_def r b(1) [simplified] l)
  ultimately show ?thesis using s1(1,3) t by (intro exI [of _ s1] exI [of _ s']) simp
qed

theorem loader_boots_kernel_witness:
  "\<exists>s' e. loader_main boot_links boot_state = ret (s', e) \<and> cr3 s' = 0x100000 \<and>
     (\<forall>k. identity_below (kmem k) (lmem s') \<and> m_size (kernelHeap k) = 0 \<longrightarrow> kernel_main k 0x200100 = None)"
proof (rule boot_paged)
  fix s1 assume s1: "enter_paging boot_state = ret s1" "paged s1"
    "\<And>x. 0x300000 \<le> unat x \<Longrightarrow> unat x < 0x400000 \<Longrightarrow> view s1 x = boot_mem x"
  have u: "\<forall>n<256. \<not> ltracked boot_state n" using boot_untracked by blast
  have "(ucast (loader_data boot_links) :: u64) = 0x200100" by (simp add: boot_links_def)
  then show ?thesis
    using loader_boots_kernel [OF boot_geom(1) u s1(1) boot_valid(5) [OF s1(2,3)] boot_geom(2)] by auto
qed

section \<open>The index into the table of the first level\<close>

text \<open>
  C24. \<open>pae::Pdpt::map\<close> shifts the address by 34 where an entry of the table stands for 2^30 bytes,
  so every 32-bit address is entered under index 0.  Mapping an address from 1 GiB on succeeds and
  leaves the address unmapped; its page is mapped at the address less its whole gigabytes instead.
\<close>

theorem pae_map_wraps:
  fixes v pa :: u32
  assumes "paged s" and "0x40000000 \<le> v" and "pa AND 0x1FFFFF = 0"
  shows "\<exists>s'. pae_map s root_page (ucast v) (ucast pa) 0x80 = ret s' \<and> translate s' v = None \<and>
    translate s' (v AND 0x3FFFFFFF) = Some (pa OR (v AND 0x1FFFFF))"
proof -
  let ?w = "v AND 0x3FFFFFFF" and ?j = "unat v div 0x200000 mod 512"
  note u = unat_ucast_32_64 [of v]
  have "unat (drop_bit 34 (ucast v :: u64)) = 0" using unat_lt_32 [of v] by (simp only: unat_shr u) simp
  then have i: "pae_pdpti (ucast v) = 0" by (simp add: pae_pdpti_def unat_eq_0)
  have "unat (drop_bit 21 (ucast v :: u64) AND 0x1FF) = ?j" by (simp only: unat_and_lit unat_shr u) simp
  moreover from this have "unat (drop_bit 21 (ucast v :: u64) AND 0x1FF) < 2 ^ 32" by simp
  ultimately have j: "unat (pae_pdi (ucast v)) = ?j"
    by (simp add: pae_pdi_def unsigned_ucast_eq take_bit_nat_eq_self)
  have g: "lgeom s" using assms(1) by (simp add: paged_def)
  have e: "ucast pa OR (0x80 :: u64) OR 0x81 = ucast pa OR 0x81" by (rule bit_word_eqI) (auto simp: bit_simps)
  obtain s' where m: "pae_map s root_page (ucast v) (ucast pa) 0x80 = ret s'"
      "directory s' (identity_entries(?j := ucast pa OR 0x81))"
    using pae_map_directory [OF paged_directory [OF assms(1)] g i, of "ucast pa" "0x80"] e j by auto
  have "0x40000000 \<le> unat v" using assms(2) by (simp add: word_le_nat_alt)
  then have n: "translate s' v = None" by (simp add: translate_directory [OF m(2)])
  have "(0x3FFFFFFF :: u32) = mask 30" by (simp add: mask_eq_exp_minus_1)
  then have "unat ?w = unat v mod 0x40000000" by (simp only: unat_and_mask) simp
  moreover have "n mod 0x40000000 div 0x200000 mod 512 = n div 0x200000 mod 512" for n :: nat
    using mod_mult2_eq [of n "0x200000" 512] by simp
  ultimately have w: "unat ?w < 0x40000000" "unat ?w div 0x200000 mod 512 = ?j" "?w AND 0x1FFFFF = v AND 0x1FFFFF"
    by (simp_all add: and.assoc)
  have "(ucast pa OR 0x81 :: u64) AND 0x81 = 0x81" by (rule bit_word_eqI) (auto simp: bit_simps)
  then have "translate s' ?w = Some (pa OR (v AND 0x1FFFFF))"
    using w by (simp add: translate_directory [OF m(2)] Let_def page_of_entry [OF assms(3)])
  then show ?thesis using m(1) n by blast
qed

theorem pae_map_wraps_witness:
  "\<exists>s s'. enter_paging boot_state = ret s \<and> pae_map s root_page 0x40600000 0x800000 0x80 = ret s' \<and>
     translate s' 0x40600000 = None \<and> translate s' 0x600000 = Some 0x800000"
proof (rule boot_paged)
  fix s assume s: "enter_paging boot_state = ret s" "paged s"
  then show ?thesis using pae_map_wraps [OF s(2), of "0x40600000" "0x800000"] by auto
qed

end
