(* ===== verification/Spec2Isabelle.thy ===== *)
theory Spec2Isabelle
  imports PagingProps MemRuns HeapFaults KernelSystem LoaderDebugProps BootImage
begin

text \<open>
  A model of x86-64k, a small kernel for x86-64 with its own 32-bit loader, and the theorems that
  make it correct.  All paths are below src/src/.

  \<^bold>\<open>The program.\<close>  GRUB starts the loader (loader/) in 32-bit mode and leaves it a multiboot
  record with the kernel as a module.  \<open>loader_main\<close> maps the first 4 MiB to themselves in
  three-level tables, chooses an address behind all modules, copies the segments of the kernel's
  ELF file there one 2 MiB window at a time, builds four-level tables over its own, fills the
  record \<open>LoaderData\<close> with a checksum and jumps to the kernel.  \<open>kernel_main\<close> (kernel/main.cpp)
  checks the record, takes the loader's tables over (\<open>pm::retainLoaderPaging\<close>), starts the memory
  manager (\<open>mm::init\<close>) and the heap (\<open>heap::init\<close>), which asks the memory manager for 32 MiB, and
  stops in an endless loop.  The heap serves \<open>operator new\<close> and \<open>operator delete\<close>; the memory
  manager binds frames with \<open>Pml4::map\<close>; the tables are built from the pages \<open>pm::alloc\<close> hands out.

  \<^bold>\<open>Conventions.\<close>  Machine integers are words of their width, so every sum and shift wraps as in
  the code.  Memory is a function from addresses to bytes, 64 bits wide for the kernel and 32 for
  the loader (theory Machine); structures are read and written at their offsets, little-endian.
  Kernel code accesses memory at virtual addresses; its tables, bit fields and loader data lie in
  the first 4 MiB, which the tables map to themselves, and the heap and the pages of \<open>mm::alloc\<close> at
  addresses of their own, so one memory serves for all; that their pages have frames of their own
  behind the first 6 MiB is part of \<open>kernel_programs_safe\<close>.  The loader's tables and bit field lie
  where it maps every address to itself; what it reads and writes through pointers of the boot
  loader and of the ELF file goes through its tables (\<open>translate\<close>), and an address that is not
  mapped is a page fault.  The result of an operation is a \<open>run\<close>
  (theory Prelude): \<open>None\<close> for a loop that never ends, \<open>Inl\<close> for the halted machine (a failed
  assertion, a panic or a page fault, with its message), \<open>Inr\<close> for a value.  A loop with a bound in
  the code is a \<open>function\<close> with its measure; a loop that may not end is a \<open>partial_function\<close>, and
  that it ends is then part of what is proved.  No fuel is used.  Out-parameters and members are
  returned with the new state.  Trace lines (\<open>debug::printf\<close> with a state that is not changed) are
  left out of the operations, but not the \<open>strlen\<close> of a command line that decides about one; the
  printing itself is modelled as a component of its own, and the
  listings \<open>Pml4::dump\<close>, \<open>pm::dumpAlloc\<close> and \<open>Heap::dump\<close> return their rows.

  \<^bold>\<open>Kernel: containers, memory, strings, numbers.\<close>
  \<^item> Memory: \<open>memcpy\<close>, \<open>memset\<close> of kernel/algo/memory.cpp and loader/algo/memory.cpp, with closed forms.
  \<^item> Containers: kernel/algo/algorithm.hpp, range.hpp, option.hpp, result.hpp.
  \<^item> Strings: kernel/algo/cstring.cpp, string.cpp, string.hpp, loader/algo/string.cpp; comparison of
    two strings characterised by their bytes.
  \<^item> Itoa: kernel/algo/itoa.hpp and its copy in loader/algo; the digits printed, the size of the
    buffer, and the round trip from the number through the string in the buffer to a reader.
  \<^item> Debug, DebugProps: kernel/sys/debug.cpp, panic.cpp and dev/rs232.cpp.  Output is the list of
    bytes sent to ports (\<open>io::out\<close>), arguments are the stream of their slots.  \<open>render\<close> is the abstract meaning
    of a format; \<open>vprintf\<close> refines it.  \<open>panic\<close> and \<open>assertFail\<close> give the output at the time the
    loop \<open>hlt_loop\<close> is entered together with what the loop ends with, which is \<open>None\<close>.

  \<^bold>\<open>Kernel: paging\<close> (kernel/mem/pm.cpp, pm.hpp).
  \<^item> Paging has the state \<open>pmst\<close> (the static variables of pm.cpp and the memory) and every operation:
    \<open>alloc\<close>, \<open>free\<close>, \<open>setAlloc\<close>, \<open>incRefs\<close>, \<open>decRefs\<close>, \<open>Pml4::map\<close>, \<open>unmap\<close>, \<open>get\<close>, \<open>dump\<close>.
  \<^item> PagingInv reads the state as tracked pages, reference counts and entries, and says what each
    store does to them; \<open>pt_only\<close> says that a step stores to the structures only.  PagingMap has the well-formedness \<open>pt_ok\<close>: the tables are a tree, shown by a
    ghost labelling of the pages, and every count is the number of entries.  Frames and AddressSpace
    are the interfaces: the locales \<open>frame_source\<close>, \<open>address_space\<close> and \<open>bounded_space\<close>, interpreted
    on \<open>allocPhysicalPages\<close> and on \<open>Pml4::map\<close> with \<open>Pml4::get\<close>.
  \<^item> PagingUnmap and PagingProps: outcome and translation of \<open>map\<close>, runs of \<open>map\<close>, and what \<open>unmap\<close>
    leaves behind (the entry of the page stays).

  \<^bold>\<open>Kernel: memory manager\<close> (kernel/mem/mm.cpp).  MemManager has \<open>mmst\<close> and the operations, with the
  bit field of frames as a list of its words.  VirtualRange relates the search of
  \<open>findVirtualRange\<close> to a search in the list of candidate addresses; MemManagerProps has the contract
  of \<open>mm::alloc\<close>, the flags of the entries it makes and the faults of the failure path and of
  \<open>mm::free\<close>; MemRuns lifts the contract to
  runs of requests.  The ranges are those of the code: 0x80000000 to 0xFFFF00000000 in steps of
  2 MiB, at most 32 pages, frames from 6 MiB to 64 GiB.

  \<^bold>\<open>Kernel: heap\<close> (kernel/mem/heap.cpp, heap.hpp, algo/new.hpp).  Heap has the operations on headers in
  memory, \<open>heap::init\<close> and the operators.  HeapInv reads the headers as a list of blocks (length, in
  use) and refines \<open>alloc\<close> to a first-fit search of it; HeapFree does the same for \<open>free\<close>; HeapProps
  has the properties, HeapFaults the concrete runs that go wrong.  HeapClient is the step relation of
  a program over \<open>new\<close> and \<open>delete\<close>, with the invariant \<open>holds\<close> that ties what the program holds to
  the heap.  It needs that no request cuts a free block in front of another, the case in which
  \<open>alloc\<close> leaves a stale link; HeapStack shows that programs which delete in reverse order never
  meet it.

  \<^bold>\<open>Kernel: start.\<close>  KernelBoot has \<open>validateLoaderData\<close>, \<open>retainLoaderPaging\<close> and \<open>kernel_main\<close>.
  \<open>loader_left\<close> of KernelBootProps is the interface to the loader: tables in the range 0x100000 to
  0x200000 that form a tree, the bit field that tracks them, and the record.  KernelBootProps shows
  that the kernel makes a well-formed paging state of it, KernelStart that the whole start succeeds
  and that the range \<open>retainLoaderPaging\<close> gives to its last \<open>memset\<close> holds the whole loader,
  KernelRuns that programs on the heap of the started kernel leave the tables alone.  KernelSystem
  puts the parts together: its steps are those of a program on the heap, granted requests to
  \<open>mm::alloc\<close> and stores to granted pages, in any order.  The locale \<open>heap_program\<close> is what a way of
  using the heap has to keep; it is interpreted on the steps of HeapClient and of HeapStack, and the
  invariant \<open>sys_ok\<close> is proved once inside it.

  \<^bold>\<open>Loader\<close> (loader/).
  \<^item> LoaderPaging: mem/pm.cpp, pmpae.cpp, pm64.cpp with sys/std.hpp, and \<open>translate\<close>, what the
    processor does with the three-level tables.  Loader: loader.cpp with sys/elf.hpp, elf64.cpp and
    the structures of sys/elf.h and boot/multiboot.h it reads.
  \<^item> LoaderInv and LoaderProps: the paging state by numbers, the address space before the hand-over,
    and the copying of the segments.
  \<^item> HandOver and HandOverView: the tables for the kernel and the record, and the same memory seen
    by the kernel's 64-bit accesses.  HandOverProps: \<open>calculateLoadAddr\<close>, with the command lines it
    reads through the tables, \<open>load_elf\<close>, and the composition: from a \<open>bootable\<close> image the loader leaves what \<open>loader_left\<close> asks for and the kernel
    starts.  BootImage is such an image; it also shows that \<open>Pdpt::map\<close> is right below 1 GiB only.
  \<^item> LoaderDebug, LoaderDebugProps: sys/debug.cpp and panic.cpp, a second \<open>vprintf\<close> with other
    conversions, and where the two copies agree and differ.

  \<^bold>\<open>What is assumed.\<close>  Addresses of local buffers and of string literals are arguments.  The ELF
  header and the structures around it are readable as a whole or fault as a whole (\<open>reads\<close>).
  Everything else that a theorem needs is a hypothesis of it, and each theorem with hypotheses has
  a witness at a concrete state.

  \<^bold>\<open>Not modelled.\<close>  The assembly files (entry.s, the crti.s and crtn.s, multiboot.s, pm_s.s, pmpae_s.s):
  their effect on the control registers is the \<open>cr\<close> fields of the loader's state.  The \<open>operator new\<close> of
  option.hpp, which places the value of an option (a HOL option holds it), interrupts (none are enabled), the
  translation look-aside buffer, and the stack: local variables are not in the memory of the model.
  The kernel is entered on the stack of the loader, which lies in the range the last \<open>memset\<close> of
  \<open>retainLoaderPaging\<close> is called with; the model clears that range as a whole, where the program may
  stop when it overwrites the length on its stack.  No theorem but those about the start speaks of
  these bytes, and those use only that the pages in the range are not tables in use.  The linker scripts, Makefiles, grub.cfg and doxygen.conf.  Of elf.h and multiboot.h,
  copies of third-party headers, the structures and constants the loader does not use.  Functions that are declared
  and defined nowhere: \<open>strcmp\<close> and the constructor \<open>str()\<close>, \<open>debug::dump\<close> of the kernel,
  \<open>freePhysicalPages\<close>, the operators \<open>[]\<close> of the loader's tables.  \<open>PhysicalMemoryRegion\<close> and
  \<open>PhysicalRegionType\<close> of mm.hpp, which no code uses.
\<close>

end
